(* ===== verification/Xv6_Prelude.thy ===== *)
theory Xv6_Prelude
  imports Main "HOL-Library.Word"
begin

unbundle bit_operations_syntax

section \<open>Prelude: kernel results, machine words, byte encodings\<close>

text \<open>
  What every component shares.
  \<^item> The C scalar types: \<open>uint\<close>, \<open>ushort\<close> and \<open>uchar\<close> of \<open>types.h\<close> as words.
  \<^item> The result of running a piece of kernel code from a state: it returns a value and a
    state, it calls \<open>panic\<close>, it switches to the scheduler inside \<open>sched()\<close>, it spins on a
    lock that another processor holds, or it does something C leaves undefined (a null pointer
    is dereferenced, a loop counter wraps). The combinator \<open>bindR\<close> is the semicolon of the code:
    it runs the second part on the value and the state the first part returned, and passes
    every other outcome on.
  \<^item> \<open>wp\<close>, total correctness of a result: it returns and the postcondition holds.
  \<^item> Little-endian packing of 16- and 32-bit words into bytes, as the code does when it casts
    a buffer of bytes to a struct.
\<close>

named_theorems wp_intros \<open>introduction rules for wp of the operations\<close>
named_theorems frame_simps \<open>fields an operation leaves alone\<close>

type_synonym uint = "32 word"
type_synonym ushort = "16 word"
type_synonym uchar = "8 word"
type_synonym addr = "32 word"

subsection \<open>Names of kernel objects\<close>

text \<open>
  The code identifies locks and sleep channels by the address of a kernel object. Distinct
  objects have distinct addresses, so the model names them by constructors: a sleep-lock is
  the one inside a buffer or inside an inode, a channel is the object handed to \<open>sleep\<close>.
\<close>

datatype sleepid = SlBuf nat | SlInode nat

datatype lockid =
    LkKmem | LkPtable | LkTicks | LkIde | LkBcache | LkLog | LkIcache | LkFtable | LkCons
  | LkPipe addr | LkSleep sleepid

datatype chan =
    ChProc nat | ChLog | ChBuf nat | ChSleep sleepid | ChNread addr | ChNwrite addr
  | ChTicks | ChInput

subsection \<open>Results of kernel code\<close>

datatype ('a, 's) res =
    Ret 'a 's
  | Panic string
  | Swtch 's
  | Spin lockid 's
  | Undef

fun bindR :: "('a, 's) res \<Rightarrow> ('a \<Rightarrow> 's \<Rightarrow> ('b, 's) res) \<Rightarrow> ('b, 's) res" where
  "bindR (Ret a s) f = f a s"
| "bindR (Panic m) f = Panic m"
| "bindR (Swtch s) f = Swtch s"
| "bindR (Spin l s) f = Spin l s"
| "bindR Undef f = Undef"

lemma bindR_cong [fundef_cong]:
  "m = m' \<Longrightarrow> (\<And>a s. m' = Ret a s \<Longrightarrow> f a s = g a s) \<Longrightarrow> bindR m f = bindR m' g"
  by (cases m') simp_all

lemma bindR_assoc: "bindR (bindR m f) g = bindR m (\<lambda>a s. bindR (f a s) g)"
  by (cases m) simp_all

lemma bindR_eq_Ret:
  "bindR m f = Ret b t \<longleftrightarrow> (\<exists>a s. m = Ret a s \<and> f a s = Ret b t)"
  by (cases m) simp_all

lemma bindR_if:
  "bindR (if c then m else m') f = (if c then bindR m f else bindR m' f)"
  by simp

subsection \<open>Total correctness\<close>

fun wp :: "('a, 's) res \<Rightarrow> ('a \<Rightarrow> 's \<Rightarrow> bool) \<Rightarrow> bool" where
  "wp (Ret a s) Q = Q a s"
| "wp (Panic m) Q = False"
| "wp (Swtch s) Q = False"
| "wp (Spin l s) Q = False"
| "wp Undef Q = False"

lemma wp_bindR [simp]: "wp (bindR m f) Q = wp m (\<lambda>a s. wp (f a s) Q)"
  by (cases m) simp_all

lemma wp_mono: "wp m P \<Longrightarrow> (\<And>a s. P a s \<Longrightarrow> Q a s) \<Longrightarrow> wp m Q"
  by (cases m) simp_all

lemma wp_conj: "wp m P \<Longrightarrow> wp m Q \<Longrightarrow> wp m (\<lambda>a s. P a s \<and> Q a s)"
  by (cases m) simp_all

lemma wp_iff: "wp m Q \<longleftrightarrow> (\<exists>a s. m = Ret a s \<and> Q a s)"
  by (cases m) simp_all

lemma wpE:
  assumes "wp m Q"
  obtains a s where "m = Ret a s" and "Q a s"
  using assms by (cases m) simp_all

subsection \<open>Searching a table\<close>

text \<open>The loop that scans an array for the first entry with a property.\<close>

lemma find_upt_Some:
  "find P [a..<b] = Some q \<longleftrightarrow> a \<le> q \<and> q < b \<and> P q \<and> (\<forall>j. a \<le> j \<and> j < q \<longrightarrow> \<not> P j)"
proof
  assume "find P [a..<b] = Some q"
  then obtain i where i: "i < b - a" "P (a + i)" "q = a + i" "\<forall>j<i. \<not> P ([a..<b] ! j)"
    by (auto simp: find_Some_iff)
  have "\<not> P j" if "a \<le> j" "j < q" for j
    using i(4) [THEN spec, of "j - a"] that i(1,3) by (simp add: less_diff_conv2)
  then show "a \<le> q \<and> q < b \<and> P q \<and> (\<forall>j. a \<le> j \<and> j < q \<longrightarrow> \<not> P j)" using i by auto
next
  assume "a \<le> q \<and> q < b \<and> P q \<and> (\<forall>j. a \<le> j \<and> j < q \<longrightarrow> \<not> P j)"
  then show "find P [a..<b] = Some q"
    by (auto simp: find_Some_iff intro!: exI [of _ "q - a"])
qed

lemma find_SomeD: "find P xs = Some x \<Longrightarrow> x \<in> set xs \<and> P x"
  by (auto simp: find_Some_iff)

lemma find_upt_None: "find P [a..<b] = None \<longleftrightarrow> (\<forall>j. a \<le> j \<and> j < b \<longrightarrow> \<not> P j)"
  by (auto simp: find_None_iff)

subsection \<open>Bytes of a word\<close>

definition byte_of :: "nat \<Rightarrow> 'a::len word \<Rightarrow> uchar" where
  "byte_of k w = ucast (drop_bit (8 * k) w)"

definition le16 :: "uchar \<Rightarrow> uchar \<Rightarrow> ushort" where
  "le16 b0 b1 = ucast b0 OR push_bit 8 (ucast b1)"

definition le32 :: "uchar \<Rightarrow> uchar \<Rightarrow> uchar \<Rightarrow> uchar \<Rightarrow> uint" where
  "le32 b0 b1 b2 b3 =
     ucast b0 OR push_bit 8 (ucast b1) OR push_bit 16 (ucast b2) OR push_bit 24 (ucast b3)"

lemma le16_byte_of [simp]: "le16 (byte_of 0 w) (byte_of (Suc 0) w) = w"
  by (rule bit_word_eqI)
     (auto simp: le16_def byte_of_def bit_simps)

lemma le32_byte_of [simp]:
  "le32 (byte_of 0 w) (byte_of (Suc 0) w) (byte_of 2 w) (byte_of 3 w) = w"
proof (rule bit_word_eqI)
  fix n assume n: "n < LENGTH(32)"
  consider "n < 8" | "8 \<le> n" "n < 16" | "16 \<le> n" "n < 24" | "24 \<le> n" by linarith
  then show "bit (le32 (byte_of 0 w) (byte_of (Suc 0) w) (byte_of 2 w) (byte_of 3 w)) n = bit w n"
    using n by cases (auto simp: le32_def byte_of_def bit_simps)
qed

lemma byte_of_le32 [simp]:
  "byte_of 0 (le32 a b c d) = a" "byte_of (Suc 0) (le32 a b c d) = b"
  "byte_of 2 (le32 a b c d) = c" "byte_of 3 (le32 a b c d) = d"
  by (rule bit_word_eqI; auto simp: le32_def byte_of_def bit_simps dest: bit_imp_le_length)+

lemma byte_of_le16 [simp]:
  "byte_of 0 (le16 a b) = a" "byte_of (Suc 0) (le16 a b) = b"
  by (rule bit_word_eqI; auto simp: le16_def byte_of_def bit_simps dest: bit_imp_le_length)+


subsection \<open>Aligned addresses\<close>

lemma unat32_less: "unat (a :: uint) < 2 ^ 32"
  using unsigned_less [where w = a] by simp

text \<open>A loop whose counter goes up without wrapping ends.\<close>

lemma up_measure: "\<not> b \<le> (a :: uint) \<Longrightarrow> 2 ^ 32 - unat b < 2 ^ 32 - unat a"
  using unat32_less [of b] by (simp add: word_le_nat_alt)

lemma unat_add_mod:
  fixes a b :: uint
  assumes "d dvd 2 ^ 32"
  shows "unat (a + b) mod d = (unat a + unat b) mod d"
  using assms by (simp add: unat_word_ariths mod_mod_cancel)

lemma aligned_bound:
  fixes a :: uint
  assumes "unat a mod k = 0" "k dvd 2 ^ 32"
  shows "unat a + k \<le> 2 ^ 32"
proof -
  from assms(1) have "k dvd unat a" by (simp add: mod_eq_0_iff_dvd)
  then obtain p where p: "unat a = k * p" ..
  from assms(2) obtain q where q: "2 ^ 32 = k * q" ..
  have "unat a < 2 ^ 32" using unsigned_less [where w = a] by simp
  then have "p < q" using p q by (metis mult_less_cancel1)
  then have "k * (p + 1) \<le> k * q" by (intro mult_le_mono2) simp
  then show ?thesis using p q by simp
qed

lemma unat_add_aligned:
  fixes a :: uint
  assumes "unat a mod k = 0" "k dvd 2 ^ 32" "i < k"
  shows "unat (a + of_nat i) = unat a + i"
proof -
  have b: "unat a + i < 2 ^ 32" using aligned_bound [OF assms(1,2)] assms(3) by simp
  then have "unat (of_nat i :: uint) = i" by (simp add: unat_of_nat)
  with b show ?thesis by (simp add: unat_add_lem [where 'a = 32, THEN iffD1])
qed

lemma aligned_add_inj:
  fixes a b :: uint
  assumes al: "unat a mod k = 0" "unat b mod k = 0" and k: "k dvd 2 ^ 32" and ij: "i < k" "j < k"
    and eq: "a + of_nat i = b + of_nat j"
  shows "a = b \<and> i = j"
proof -
  have e: "unat a + i = unat b + j"
    using unat_add_aligned [OF al(1) k ij(1)] unat_add_aligned [OF al(2) k ij(2)] eq by simp
  then have "(unat a + i) mod k = (unat b + j) mod k" by simp
  then have "i = j" using al ij by (metis mod_add_left_eq mod_less add_0)
  with e show ?thesis by (simp add: word_unat_eq_iff)
qed

end
