(* ===== verification/Xv6_Params.thy ===== *)
theory Xv6_Params
  imports Xv6_Prelude
begin

section \<open>Parameters, memory layout and page arithmetic\<close>

text \<open>
  The constants of \<open>param.h\<close>, \<open>memlayout.h\<close>, \<open>mmu.h\<close> and \<open>fs.h\<close> and the address macros
  of \<open>mmu.h\<close> and \<open>memlayout.h\<close>, on 32-bit words, with the arithmetic the components need:
  rounding to a page, and the split of a virtual address into directory index, table index
  and offset.
\<close>

subsection \<open>param.h\<close>

definition NPROC :: nat where "NPROC = 64"
definition KSTACKSIZE :: uint where "KSTACKSIZE = 4096"
definition NCPU :: nat where "NCPU = 8"
definition NOFILE :: nat where "NOFILE = 16"
definition NFILE :: nat where "NFILE = 100"
definition NINODE :: nat where "NINODE = 50"
definition NDEV :: nat where "NDEV = 10"
definition ROOTDEV :: uint where "ROOTDEV = 1"
definition MAXARG :: nat where "MAXARG = 32"
definition MAXOPBLOCKS :: nat where "MAXOPBLOCKS = 10"
definition LOGSIZE :: nat where "LOGSIZE = MAXOPBLOCKS * 3"
definition NBUF :: nat where "NBUF = MAXOPBLOCKS * 3"
definition FSSIZE :: nat where "FSSIZE = 1000"

subsection \<open>memlayout.h and mmu.h\<close>

definition EXTMEM :: uint where "EXTMEM = 0x100000"
definition PHYSTOP :: uint where "PHYSTOP = 0xE000000"
definition DEVSPACE :: uint where "DEVSPACE = 0xFE000000"
definition KERNBASE :: uint where "KERNBASE = 0x80000000"
definition KERNLINK :: uint where "KERNLINK = KERNBASE + EXTMEM"
definition PGSIZE :: uint where "PGSIZE = 4096"
definition NPDENTRIES :: nat where "NPDENTRIES = 1024"
definition NPTENTRIES :: nat where "NPTENTRIES = 1024"

definition V2P :: "addr \<Rightarrow> uint" where "V2P a = a - KERNBASE"
definition P2V :: "uint \<Rightarrow> addr" where "P2V a = a + KERNBASE"

definition PDX :: "addr \<Rightarrow> uint" where "PDX va = drop_bit 22 va AND 0x3FF"
definition PTX :: "addr \<Rightarrow> uint" where "PTX va = drop_bit 12 va AND 0x3FF"
definition PGADDR :: "uint \<Rightarrow> uint \<Rightarrow> uint \<Rightarrow> addr" where
  "PGADDR d t off = push_bit 22 d OR push_bit 12 t OR off"
definition PGROUNDUP :: "uint \<Rightarrow> uint" where
  "PGROUNDUP sz = (sz + PGSIZE - 1) AND NOT (PGSIZE - 1)"
definition PGROUNDDOWN :: "uint \<Rightarrow> uint" where
  "PGROUNDDOWN a = a AND NOT (PGSIZE - 1)"

definition PTE_P :: uint where "PTE_P = 0x001"
definition PTE_W :: uint where "PTE_W = 0x002"
definition PTE_U :: uint where "PTE_U = 0x004"
definition PTE_PS :: uint where "PTE_PS = 0x080"
definition PTE_ADDR :: "uint \<Rightarrow> uint" where "PTE_ADDR pte = pte AND NOT 0xFFF"
definition PTE_FLAGS :: "uint \<Rightarrow> uint" where "PTE_FLAGS pte = pte AND 0xFFF"

lemmas param_defs =
  NPROC_def KSTACKSIZE_def NCPU_def NOFILE_def NFILE_def NINODE_def NDEV_def ROOTDEV_def
  MAXARG_def MAXOPBLOCKS_def LOGSIZE_def NBUF_def FSSIZE_def

lemmas layout_defs =
  EXTMEM_def PHYSTOP_def DEVSPACE_def KERNBASE_def KERNLINK_def PGSIZE_def

subsection \<open>Page arithmetic\<close>

lemma V2P_P2V [simp]: "V2P (P2V a) = a" and P2V_V2P [simp]: "P2V (V2P a) = a"
  by (simp_all add: V2P_def P2V_def)

lemma PGSIZE_minus_1: "PGSIZE - 1 = mask 12"
  by (simp add: PGSIZE_def mask_eq_exp_minus_1)

lemma and_not_mask_12: "(a::uint) AND NOT (mask 12) = a - a mod 4096"
proof -
  have "(a AND mask 12) + (a AND NOT (mask 12)) = (a AND mask 12) OR (a AND NOT (mask 12))"
    by (rule disjunctive_add_eq_or) (simp add: bit_eq_iff bit_simps)
  then have "a = (a AND mask 12) + (a AND NOT (mask 12))"
    by (simp add: bit_eq_iff bit_simps) blast
  moreover have "a AND mask 12 = a mod 4096"
    by (simp flip: take_bit_eq_mask add: take_bit_eq_mod)
  ultimately show ?thesis by (simp add: algebra_simps)
qed

lemma PGROUNDDOWN_eq: "PGROUNDDOWN a = a - a mod 4096"
  by (simp add: PGROUNDDOWN_def PGSIZE_minus_1 and_not_mask_12)

lemma unat_PGROUNDDOWN: "unat (PGROUNDDOWN a) = unat a div 4096 * 4096"
proof -
  have "unat (a mod 4096) = unat a mod 4096" by (simp add: unat_mod)
  moreover have "a mod 4096 \<le> a" by (simp add: word_le_nat_alt unat_mod)
  ultimately have "unat (PGROUNDDOWN a) = unat a - unat a mod 4096"
    by (simp only: PGROUNDDOWN_eq unat_sub)
  then show ?thesis by (simp add: minus_mod_eq_div_mult)
qed

lemma PGROUNDUP_eq: "PGROUNDUP a = PGROUNDDOWN (a + 4095)"
  by (simp add: PGROUNDUP_def PGROUNDDOWN_def PGSIZE_def add.commute)

lemma unat_PGROUNDUP:
  "unat a + 4095 < 2 ^ 32 \<Longrightarrow> unat (PGROUNDUP a) = (unat a + 4095) div 4096 * 4096"
  by (simp add: PGROUNDUP_eq unat_PGROUNDDOWN unat_add_lem [where 'a = 32, THEN iffD1])

lemma PGROUNDDOWN_mod [simp]: "PGROUNDDOWN a mod 4096 = 0"
  by (simp add: word_unat_eq_iff unat_mod unat_PGROUNDDOWN)

lemma PGROUNDDOWN_le: "PGROUNDDOWN a \<le> a"
  by (simp add: word_le_nat_alt unat_PGROUNDDOWN)

lemma PGROUNDDOWN_aligned: "a mod 4096 = 0 \<Longrightarrow> PGROUNDDOWN a = a"
  by (simp add: PGROUNDDOWN_eq)

subsection \<open>Indices and entries of page tables\<close>

lemma and_1023: "(x::uint) AND 0x3FF = x mod 1024"
proof -
  have m: "(0x3FF :: uint) = mask 10" by (simp add: mask_eq_exp_minus_1)
  show ?thesis unfolding m by (simp flip: take_bit_eq_mask add: take_bit_eq_mod)
qed

lemma unat_PDX: "unat (PDX va) = unat va div 4194304"
proof -
  have "unat va div 4194304 < 1024"
    using unat32_less [of va] by (intro less_mult_imp_div_less) simp
  then show ?thesis unfolding PDX_def and_1023 by (simp add: drop_bit_eq_div unat_mod unat_div)
qed

lemma unat_PTX: "unat (PTX va) = unat va div 4096 mod 1024"
  unfolding PTX_def and_1023 by (simp add: drop_bit_eq_div unat_mod unat_div)

lemma index_less [simp]: "PDX va < 1024" "PTX va < 1024"
  using unat32_less [of va]
  by (auto simp: word_less_nat_alt unat_PDX unat_PTX intro!: less_mult_imp_div_less)

text \<open>Directory index and table index together determine the page.\<close>

lemma page_index_eq:
  "PDX v = PDX w \<and> PTX v = PTX w \<longleftrightarrow> PGROUNDDOWN v = PGROUNDDOWN w"
proof -
  have s: "x div 4194304 = x div 4096 div 1024" for x :: nat
    by (simp add: div_mult2_eq [symmetric])
  have e: "p = q \<longleftrightarrow> p div 1024 = q div 1024 \<and> p mod 1024 = q mod 1024" for p q :: nat
    by (metis div_mult_mod_eq)
  have "PGROUNDDOWN v = PGROUNDDOWN w \<longleftrightarrow> unat v div 4096 = unat w div 4096"
    by (simp add: word_unat_eq_iff unat_PGROUNDDOWN)
  also have "\<dots> \<longleftrightarrow> unat v div 4194304 = unat w div 4194304 \<and>
      unat v div 4096 mod 1024 = unat w div 4096 mod 1024"
    unfolding s by (rule e)
  finally show ?thesis by (simp add: word_unat_eq_iff unat_PDX unat_PTX)
qed

lemma pte_split:
  fixes a f :: uint
  assumes "a mod 4096 = 0" "f < 4096"
  shows "PTE_ADDR (a OR f) = a" "PTE_FLAGS (a OR f) = f"
proof -
  have m: "(0xFFF :: uint) = mask 12" by (simp add: mask_eq_exp_minus_1)
  have a: "take_bit 12 a = 0" using assms(1) by (simp add: take_bit_eq_mod)
  have "f mod 4096 = f" using assms(2) by (simp add: word_unat_eq_iff unat_mod word_less_nat_alt)
  then have f: "take_bit 12 f = f" by (simp add: take_bit_eq_mod)
  have al: "12 \<le> n" if "bit a n" for n 
    using arg_cong [OF a, of "\<lambda>x. bit x n"] that by (simp add: bit_take_bit_iff not_less)
  have fl: "n < 12" if "bit f n" for n 
    using arg_cong [OF f, of "\<lambda>x. bit x n"] that by (simp add: bit_take_bit_iff)
  show "PTE_ADDR (a OR f) = a" "PTE_FLAGS (a OR f) = f"
    unfolding PTE_ADDR_def PTE_FLAGS_def m
    using al fl by (intro bit_word_eqI; simp add: bit_simps; meson not_le)+
qed

subsection \<open>fs.h and stat.h\<close>

definition ROOTINO :: uint where "ROOTINO = 1"
definition BSIZE :: nat where "BSIZE = 512"
definition NDIRECT :: nat where "NDIRECT = 12"
definition NINDIRECT :: nat where "NINDIRECT = BSIZE div 4"
definition MAXFILE :: nat where "MAXFILE = NDIRECT + NINDIRECT"
definition IPB :: nat where "IPB = BSIZE div 64"
definition BPB :: nat where "BPB = BSIZE * 8"
definition DIRSIZ :: nat where "DIRSIZ = 14"
definition T_DIR :: ushort where "T_DIR = 1"
definition T_FILE :: ushort where "T_FILE = 2"
definition T_DEV :: ushort where "T_DEV = 3"

lemmas fs_defs =
  ROOTINO_def BSIZE_def NDIRECT_def NINDIRECT_def MAXFILE_def IPB_def BPB_def DIRSIZ_def
  T_DIR_def T_FILE_def T_DEV_def

end
