(* ===== verification/Xv6_Spinlock.thy ===== *)
theory Xv6_Spinlock
  imports Xv6_Params
begin

section \<open>Processors and spin-locks (spinlock.c, proc.c: mycpu, proc.h: struct cpu)\<close>

text \<open>
  The state of the machine as one processor sees it: the identifier its local APIC reports, its
  interrupt flag, the table of processors with their \<open>pushcli\<close> depth, and the spin-locks.
  \<open>acquire\<close> on a lock that another processor holds spins, which is the outcome \<open>Spin\<close>; the
  exclusion between processors is stated separately over the atomic exchange. The call
  stack a lock records for debugging (\<open>pcs\<close>), the segment descriptors and the scheduler's saved
  stack pointer in \<open>struct cpu\<close> are not modelled. The nesting depth \<open>ncli\<close> is an \<open>int\<close> of C and an
  unbounded integer here: the two agree below the depth 2147483647, which no kernel code approaches
  and which the property on nested calls assumes.
\<close>

record taskstate =
  esp0 :: uint
  ss0 :: ushort
  iomb :: ushort

record cpu =
  apicid :: nat
  ts :: taskstate
  started :: bool
  ncli :: int
  intena :: bool
  cproc :: "nat option"

record spinlock =
  locked :: uint
  lkname :: string
  lkcpu :: "nat option"

record mach =
  lapicid :: nat
  ncpu :: nat
  iflag :: bool
  cpus :: "nat \<Rightarrow> cpu"
  locks :: "lockid \<Rightarrow> spinlock"

record kst = mach :: mach

definition upd_cpu :: "nat \<Rightarrow> (cpu \<Rightarrow> cpu) \<Rightarrow> mach \<Rightarrow> mach" where
  "upd_cpu c f m = m\<lparr>cpus := (cpus m)(c := f (cpus m c))\<rparr>"

definition upd_lock :: "lockid \<Rightarrow> (spinlock \<Rightarrow> spinlock) \<Rightarrow> mach \<Rightarrow> mach" where
  "upd_lock l f m = m\<lparr>locks := (locks m)(l := f (locks m l))\<rparr>"

subsection \<open>Which processor runs, interrupts on and off\<close>

definition cpu_index :: "mach \<Rightarrow> nat option" where
  "cpu_index m = find (\<lambda>i. apicid (cpus m i) = lapicid m) [0..<ncpu m]"

definition mycpu :: "'z kst_scheme \<Rightarrow> (nat, 'z kst_scheme) res" where
  "mycpu s =
     (if iflag (mach s) then Panic ''mycpu called with interrupts enabled\<newline>''
      else (case cpu_index (mach s) of
              Some i \<Rightarrow> Ret i s
            | None \<Rightarrow> Panic ''unknown apicid\<newline>''))"

definition cpuid :: "'z kst_scheme \<Rightarrow> (nat, 'z kst_scheme) res" where
  "cpuid s = mycpu s"

definition cli :: "'z kst_scheme \<Rightarrow> 'z kst_scheme" where
  "cli s = s\<lparr>mach := (mach s)\<lparr>iflag := False\<rparr>\<rparr>"

definition sti :: "'z kst_scheme \<Rightarrow> 'z kst_scheme" where
  "sti s = s\<lparr>mach := (mach s)\<lparr>iflag := True\<rparr>\<rparr>"

definition pushcli :: "'z kst_scheme \<Rightarrow> (unit, 'z kst_scheme) res" where
  "pushcli s =
     (let eflags = iflag (mach s) in
      bindR (mycpu (cli s)) (\<lambda>c s.
        Ret () (s\<lparr>mach := upd_cpu c (\<lambda>k. k\<lparr>
          intena := (if ncli k = 0 then eflags else intena k),
          ncli := ncli k + 1\<rparr>) (mach s)\<rparr>)))"

definition popcli :: "'z kst_scheme \<Rightarrow> (unit, 'z kst_scheme) res" where
  "popcli s =
     (if iflag (mach s) then Panic ''popcli - interruptible''
      else bindR (mycpu s) (\<lambda>c s.
        let s = s\<lparr>mach := upd_cpu c (\<lambda>k. k\<lparr>ncli := ncli k - 1\<rparr>) (mach s)\<rparr>;
            k = cpus (mach s) c
        in if ncli k < 0 then Panic ''popcli''
           else if ncli k = 0 \<and> intena k then Ret () (sti s)
           else Ret () s))"

definition myproc :: "'z kst_scheme \<Rightarrow> (nat option, 'z kst_scheme) res" where
  "myproc s =
     bindR (pushcli s) (\<lambda>_ s.
     bindR (mycpu s) (\<lambda>c s.
     let p = cproc (cpus (mach s) c) in
     bindR (popcli s) (\<lambda>_ s.
     Ret p s)))"

subsection \<open>Locks\<close>

definition initlock :: "lockid \<Rightarrow> string \<Rightarrow> 'z kst_scheme \<Rightarrow> 'z kst_scheme" where
  "initlock l name s =
     s\<lparr>mach := upd_lock l (\<lambda>_. \<lparr>locked = 0, lkname = name, lkcpu = None\<rparr>) (mach s)\<rparr>"

definition holding :: "lockid \<Rightarrow> 'z kst_scheme \<Rightarrow> (bool, 'z kst_scheme) res" where
  "holding l s =
     bindR (pushcli s) (\<lambda>_ s.
     bindR (mycpu s) (\<lambda>c s.
     let lk = locks (mach s) l; r = (locked lk \<noteq> 0 \<and> lkcpu lk = Some c) in
     bindR (popcli s) (\<lambda>_ s.
     Ret r s)))"

text \<open>The atomic exchange of \<open>x86.h\<close>: the old value, and the memory word afterwards.\<close>

definition xchg :: "uint \<Rightarrow> uint \<Rightarrow> uint \<times> uint" where
  "xchg old newval = (old, newval)"

definition acquire :: "lockid \<Rightarrow> 'z kst_scheme \<Rightarrow> (unit, 'z kst_scheme) res" where
  "acquire l s =
     bindR (pushcli s) (\<lambda>_ s.
     bindR (holding l s) (\<lambda>h s.
     if h then Panic ''acquire''
     else let (old, new) = xchg (locked (locks (mach s) l)) 1;
              s = s\<lparr>mach := upd_lock l (\<lambda>k. k\<lparr>locked := new\<rparr>) (mach s)\<rparr>
          in if old \<noteq> 0 then Spin l s
             else bindR (mycpu s) (\<lambda>c s.
                  Ret () (s\<lparr>mach := upd_lock l (\<lambda>k. k\<lparr>lkcpu := Some c\<rparr>) (mach s)\<rparr>))))"

definition release :: "lockid \<Rightarrow> 'z kst_scheme \<Rightarrow> (unit, 'z kst_scheme) res" where
  "release l s =
     bindR (holding l s) (\<lambda>h s.
     if \<not> h then Panic ''release''
     else popcli (s\<lparr>mach := upd_lock l (\<lambda>k. k\<lparr>lkcpu := None, locked := 0\<rparr>) (mach s)\<rparr>))"

subsection \<open>The effect of a balanced section\<close>

text \<open>
  A processor in order: its APIC identifier is in the table, its nesting depth is not negative,
  and it has interrupts off while the depth is positive. \<open>me\<close> is its index.
\<close>

definition me :: "mach \<Rightarrow> nat" where
  "me m = the (cpu_index m)"

definition mycli :: "mach \<Rightarrow> int" where
  "mycli m = ncli (cpus m (me m))"

definition curproc :: "mach \<Rightarrow> nat option" where
  "curproc m = cproc (cpus m (me m))"

definition cpu_ok :: "mach \<Rightarrow> bool" where
  "cpu_ok m \<longleftrightarrow> cpu_index m \<noteq> None \<and> 0 \<le> mycli m \<and> (0 < mycli m \<longrightarrow> \<not> iflag m)"

definition free_lock :: "lockid \<Rightarrow> mach \<Rightarrow> bool" where
  "free_lock l m \<longleftrightarrow> locked (locks m l) = 0 \<and> lkcpu (locks m l) = None"

definition held :: "lockid \<Rightarrow> mach \<Rightarrow> bool" where
  "held l m \<longleftrightarrow> locked (locks m l) = 1 \<and> lkcpu (locks m l) = Some (me m)"

definition pushed :: "mach \<Rightarrow> mach" where
  "pushed m = m\<lparr>iflag := False, cpus := (cpus m)(me m := (cpus m (me m))\<lparr>
     intena := (if mycli m = 0 then iflag m else intena (cpus m (me m))),
     ncli := mycli m + 1\<rparr>)\<rparr>"

definition popped :: "mach \<Rightarrow> mach" where
  "popped m = m\<lparr>iflag := (mycli m = 1 \<and> intena (cpus m (me m))),
     cpus := (cpus m)(me m := (cpus m (me m))\<lparr>ncli := mycli m - 1\<rparr>)\<rparr>"

text \<open>A \<open>pushcli\<close>/\<open>popcli\<close> pair leaves only the saved interrupt flag behind.\<close>

definition settle :: "mach \<Rightarrow> mach" where
  "settle m = m\<lparr>cpus := (cpus m)(me m := (cpus m (me m))\<lparr>
     intena := (if mycli m = 0 then iflag m else intena (cpus m (me m)))\<rparr>)\<rparr>"

definition taken :: "lockid \<Rightarrow> mach \<Rightarrow> mach" where
  "taken l m = m\<lparr>locks := (locks m)(l := (locks m l)\<lparr>locked := 1, lkcpu := Some (me m)\<rparr>)\<rparr>"

definition dropped :: "lockid \<Rightarrow> mach \<Rightarrow> mach" where
  "dropped l m = m\<lparr>locks := (locks m)(l := (locks m l)\<lparr>lkcpu := None, locked := 0\<rparr>)\<rparr>"

definition acq :: "lockid \<Rightarrow> mach \<Rightarrow> mach" where
  "acq l m = taken l (pushed m)"

definition rel :: "lockid \<Rightarrow> mach \<Rightarrow> mach" where
  "rel l m = popped (dropped l m)"

lemma cpu_index_simps [simp]:
  "cpu_index (m\<lparr>iflag := b\<rparr>) = cpu_index m"
  "cpu_index (m\<lparr>locks := lf\<rparr>) = cpu_index m"
  by (simp_all add: cpu_index_def)

lemma cpu_index_fun_upd [simp]:
  "apicid k = apicid (cpus m c) \<Longrightarrow>
   cpu_index (m\<lparr>cpus := (cpus m)(c := k)\<rparr>) = cpu_index m"
  "apicid k = apicid (cpus m c) \<Longrightarrow>
   cpu_index (m\<lparr>iflag := b, cpus := (cpus m)(c := k)\<rparr>) = cpu_index m"
  by (auto simp: cpu_index_def fun_upd_def intro!: arg_cong2 [where f = find])

lemma cpu_index_eq [simp]:
  "cpu_index (pushed m) = cpu_index m"
  "cpu_index (popped m) = cpu_index m"
  "cpu_index (settle m) = cpu_index m"
  "cpu_index (taken l m) = cpu_index m"
  "cpu_index (dropped l m) = cpu_index m"
  by (simp_all add: pushed_def popped_def settle_def taken_def dropped_def)

lemma me_eq [simp]:
  "me (pushed m) = me m" "me (popped m) = me m" "me (settle m) = me m"
  "me (taken l m) = me m" "me (dropped l m) = me m" "me (acq l m) = me m" "me (rel l m) = me m"
  by (simp_all add: me_def acq_def rel_def)

lemma cpus_eq:
  "cpus (pushed m) = (cpus m)(me m := (cpus m (me m))\<lparr>
     intena := (if mycli m = 0 then iflag m else intena (cpus m (me m))), ncli := mycli m + 1\<rparr>)"
  "cpus (popped m) = (cpus m)(me m := (cpus m (me m))\<lparr>ncli := mycli m - 1\<rparr>)"
  "cpus (settle m) = (cpus m)(me m := (cpus m (me m))\<lparr>
     intena := (if mycli m = 0 then iflag m else intena (cpus m (me m)))\<rparr>)"
  "cpus (taken l m) = cpus m" "cpus (dropped l m) = cpus m"
  by (simp_all add: pushed_def popped_def settle_def taken_def dropped_def)

lemma mycli_eq [simp]:
  "mycli (pushed m) = mycli m + 1" "mycli (popped m) = mycli m - 1"
  "mycli (settle m) = mycli m" "mycli (taken l m) = mycli m" "mycli (dropped l m) = mycli m"
  by (simp_all only: mycli_def me_eq cpus_eq fun_upd_same) simp_all

lemma curproc_eq [simp]:
  "curproc (pushed m) = curproc m" "curproc (popped m) = curproc m"
  "curproc (settle m) = curproc m" "curproc (taken l m) = curproc m"
  "curproc (dropped l m) = curproc m"
  by (simp_all only: curproc_def me_eq cpus_eq fun_upd_same) simp_all

lemma acq_rel_eq [simp]:
  "mycli (acq l m) = mycli m + 1" "mycli (rel l m) = mycli m - 1"
  "curproc (acq l m) = curproc m" "curproc (rel l m) = curproc m"
  by (simp_all add: acq_def rel_def)

lemma iflag_eq [simp]:
  "\<not> iflag (pushed m)" "iflag (settle m) = iflag m"
  "iflag (taken l m) = iflag m" "iflag (dropped l m) = iflag m" "\<not> iflag (acq l m)"
  by (simp_all add: pushed_def settle_def taken_def dropped_def acq_def)

lemma locks_eq [simp]:
  "locks (pushed m) = locks m" "locks (popped m) = locks m" "locks (settle m) = locks m"
  by (simp_all add: pushed_def popped_def settle_def)

lemma cpu_okD:
  "cpu_ok m \<Longrightarrow> cpu_index m = Some (me m)"
  "cpu_ok m \<Longrightarrow> 0 \<le> mycli m"
  "cpu_ok m \<Longrightarrow> 0 < mycli m + 1"
  "cpu_ok m \<Longrightarrow> 0 < mycli m \<Longrightarrow> \<not> iflag m"
  by (auto simp: cpu_ok_def me_def)

lemma cpu_ok_eq [simp]:
  "cpu_ok (settle m) = cpu_ok m" "cpu_ok (dropped l m) = cpu_ok m" "cpu_ok (taken l m) = cpu_ok m"
  "cpu_ok m \<Longrightarrow> cpu_ok (pushed m)" "cpu_ok m \<Longrightarrow> cpu_ok (acq l m)"
  by (simp_all add: cpu_ok_def acq_def)

lemma cpu_ok_popped [simp]: "cpu_ok m \<Longrightarrow> 0 < mycli m \<Longrightarrow> cpu_ok (popped m)"
  by (auto simp: cpu_ok_def) (auto simp: popped_def)

lemma mycpu_ok: "cpu_ok (mach s) \<Longrightarrow> \<not> iflag (mach s) \<Longrightarrow> mycpu s = Ret (me (mach s)) s"
  by (simp add: mycpu_def cpu_okD)

lemma pushcli_ok: "cpu_ok (mach s) \<Longrightarrow> pushcli s = Ret () (s\<lparr>mach := pushed (mach s)\<rparr>)"
  by (simp add: pushcli_def cli_def mycpu_def cpu_okD pushed_def upd_cpu_def Let_def mycli_def)

lemma popcli_ok:
  assumes "cpu_ok (mach s)" "0 < mycli (mach s)"
  shows "popcli s = Ret () (s\<lparr>mach := popped (mach s)\<rparr>)"
proof -
  have "\<not> iflag (mach s)" using assms by (simp add: cpu_okD)
  then show ?thesis
    using assms
    by (auto simp: popcli_def mycpu_ok popped_def upd_cpu_def sti_def Let_def mycli_def)
qed

lemma popped_pushed: "cpu_ok m \<Longrightarrow> popped (pushed m) = settle m"
  by (simp add: popped_def, simp add: pushed_def settle_def, cases m)
     (auto simp: cpu_ok_def mycli_def)

lemma settle_settle [simp]: "settle (settle m) = settle m"
  by (simp add: settle_def [of "settle m"]) (simp add: settle_def)

lemma settle_id: "cpu_ok m \<Longrightarrow> 0 < mycli m \<Longrightarrow> settle m = m"
  by (cases m) (simp add: settle_def)

lemma settle_pushed [simp]: "cpu_ok m \<Longrightarrow> settle (pushed m) = pushed m"
  by (rule settle_id) (simp_all add: cpu_okD)

lemma settle_acq [simp]: "cpu_ok m \<Longrightarrow> settle (acq l m) = acq l m"
  by (rule settle_id) (simp_all add: cpu_okD)

lemma holding_ok:
  assumes "cpu_ok (mach s)"
  shows "holding l s =
    Ret (locked (locks (mach s) l) \<noteq> 0 \<and> lkcpu (locks (mach s) l) = Some (me (mach s)))
           (s\<lparr>mach := settle (mach s)\<rparr>)"
  using assms
  by (simp add: holding_def pushcli_ok mycpu_ok popcli_ok popped_pushed cpu_okD Let_def)

lemma myproc_ok:
  "cpu_ok (mach s) \<Longrightarrow> myproc s = Ret (curproc (mach s)) (s\<lparr>mach := settle (mach s)\<rparr>)"
  by (simp add: myproc_def pushcli_ok mycpu_ok popcli_ok popped_pushed cpu_okD Let_def)
     (simp add: curproc_def pushed_def)

lemma acquire_ok:
  assumes "cpu_ok (mach s)" "free_lock l (mach s)"
  shows "acquire l s = Ret () (s\<lparr>mach := acq l (mach s)\<rparr>)"
  using assms
  by (simp add: acquire_def pushcli_ok holding_ok free_lock_def xchg_def acq_def taken_def
      upd_lock_def mycpu_def cpu_okD Let_def)

lemma release_ok:
  assumes "cpu_ok (mach s)" "held l (mach s)" "0 < mycli (mach s)"
  shows "release l s = Ret () (s\<lparr>mach := rel l (mach s)\<rparr>)"
proof -
  let ?s = "s\<lparr>mach := dropped l (mach s)\<rparr>"
  have "popcli ?s = Ret () (?s\<lparr>mach := popped (mach ?s)\<rparr>)"
    using assms by (intro popcli_ok) simp_all
  then show ?thesis
    using assms
    by (simp add: release_def holding_ok held_def upd_lock_def settle_id rel_def
        dropped_def)
qed

lemma dropped_taken: "free_lock l m \<Longrightarrow> dropped l (taken l m) = m"
proof -
  assume "free_lock l m"
  then have "(locks m l)\<lparr>lkcpu := None, locked := 0\<rparr> = locks m l"
    by (cases "locks m l") (simp add: free_lock_def)
  then show ?thesis by (cases m) (simp add: dropped_def taken_def)
qed

lemma rel_acq: "cpu_ok m \<Longrightarrow> free_lock l m \<Longrightarrow> rel l (acq l m) = settle m"
  by (simp add: rel_def acq_def dropped_taken free_lock_def popped_pushed)

lemma held_acq [simp]:
  "held l (acq l m)"
  "l \<noteq> l' \<Longrightarrow> held l' (acq l m) = held l' m"
  "l \<noteq> l' \<Longrightarrow> free_lock l' (acq l m) = free_lock l' m"
  "\<not> free_lock l (acq l m)"
  by (simp_all add: acq_def taken_def held_def free_lock_def me_def)

lemma free_held_settle [simp]:
  "free_lock l (settle m) = free_lock l m"
  "held l (settle m) = held l m"
  by (simp_all add: free_lock_def held_def)

lemma acquire_held:
  assumes "cpu_ok (mach s)" "held l (mach s)"
  shows "acquire l s = Panic ''acquire''"
  using assms by (simp add: acquire_def pushcli_ok holding_ok held_def)

lemma release_not_held:
  assumes "cpu_ok (mach s)" "lkcpu (locks (mach s) l) \<noteq> Some (me (mach s))"
  shows "release l s = Panic ''release''"
  using assms by (simp add: release_def holding_ok)

lemma acquire_release:
  assumes "cpu_ok (mach s)" "free_lock l (mach s)"
  shows "bindR (acquire l s) (\<lambda>_ s. release l s) = Ret () (s\<lparr>mach := settle (mach s)\<rparr>)"
  using assms by (simp add: acquire_ok release_ok cpu_okD rel_acq)

text \<open>
  A processor whose saved interrupt flag is up to date. From there a balanced section restores
  the machine exactly; the state between \<open>acquire\<close> and \<open>release\<close> is always of this kind.
\<close>

definition calm :: "mach \<Rightarrow> bool" where
  "calm m \<longleftrightarrow> cpu_ok m \<and> settle m = m"

lemma calm_cpu_ok: "calm m \<Longrightarrow> cpu_ok m"
  by (simp add: calm_def)

lemma calm_settle [simp]: "cpu_ok m \<Longrightarrow> calm (settle m)"
  by (simp add: calm_def)

lemma calm_acq [simp]: "calm m \<Longrightarrow> calm (acq l m)"
  by (simp add: calm_def)

lemma calm_upd_lock [simp]: "calm (upd_lock l f m) = calm m"
  by (cases m) (simp add: calm_def cpu_ok_def settle_def mycli_def me_def cpu_index_def upd_lock_def)

lemma free_lock_initlock [simp]: "free_lock l (mach (initlock l nm s))"
  by (simp add: initlock_def free_lock_def upd_lock_def)

lemma calm_initlock [simp]: "calm (mach (initlock l nm s)) = calm (mach s)"
  by (simp add: initlock_def)

lemma myproc_calm: "calm (mach s) \<Longrightarrow> myproc s = Ret (curproc (mach s)) s"
  by (simp add: myproc_ok calm_def)

lemma acquire_calm:
  "calm (mach s) \<Longrightarrow> free_lock l (mach s) \<Longrightarrow> acquire l s = Ret () (s\<lparr>mach := acq l (mach s)\<rparr>)"
  by (simp add: acquire_ok calm_def)

lemma release_calm:
  "calm (mach s) \<Longrightarrow> held l (mach s) \<Longrightarrow> 0 < mycli (mach s) \<Longrightarrow>
   release l s = Ret () (s\<lparr>mach := rel l (mach s)\<rparr>)"
  by (simp add: release_ok calm_def)

lemma mycli_nonneg [simp]: "calm m \<Longrightarrow> 0 \<le> mycli m"
  by (simp add: calm_def cpu_okD)

lemma mycli_acq_pos [simp]: "calm m \<Longrightarrow> 0 < mycli (acq l m)"
  by (simp add: calm_def cpu_okD)

lemma rel_acq_calm [simp]: "calm m \<Longrightarrow> free_lock l m \<Longrightarrow> rel l (acq l m) = m"
  by (simp add: rel_acq calm_def)

lemma dropped_taken_other:
  "l \<noteq> l' \<Longrightarrow> dropped l (taken l' m) = taken l' (dropped l m)"
  by (cases m) (simp add: dropped_def taken_def fun_upd_twist me_def cpu_index_def)

lemma popped_taken: "popped (taken l m) = taken l (popped m)"
  by (simp add: popped_def [of "taken l m"] taken_def [of l "popped m"])
     (simp add: popped_def taken_def)

lemma pushed_dropped: "pushed (dropped l m) = dropped l (pushed m)"
  by (simp add: pushed_def [of "dropped l m"] dropped_def [of l "pushed m"])
     (simp add: pushed_def dropped_def)

lemma rel_acq_other:
  assumes "cpu_ok m" "free_lock l m" "l \<noteq> l'"
  shows "rel l (acq l' (acq l m)) = acq l' m"
proof -
  have "dropped l (acq l m) = pushed m"
    using assms by (simp add: acq_def dropped_taken free_lock_def)
  then have "rel l (acq l' (acq l m)) = taken l' (popped (pushed (pushed m)))"
    using assms(3)
    by (simp add: rel_def acq_def [of l'] dropped_taken_other popped_taken flip: pushed_dropped)
  with assms(1) show ?thesis by (simp add: popped_pushed acq_def)
qed

subsection \<open>Nesting\<close>

primrec push_n :: "nat \<Rightarrow> 'z kst_scheme \<Rightarrow> (unit, 'z kst_scheme) res" where
  "push_n 0 s = Ret () s"
| "push_n (Suc n) s = bindR (pushcli s) (\<lambda>_ s. push_n n s)"

primrec pop_n :: "nat \<Rightarrow> 'z kst_scheme \<Rightarrow> (unit, 'z kst_scheme) res" where
  "pop_n 0 s = Ret () s"
| "pop_n (Suc n) s = bindR (popcli s) (\<lambda>_ s. pop_n n s)"

lemma pop_n_Suc: "pop_n (Suc n) s = bindR (pop_n n s) (\<lambda>_ s. popcli s)"
proof (induction n arbitrary: s)
  case 0
  have "bindR (popcli s) Ret = popcli s" by (cases "popcli s") simp_all
  then show ?case by (simp cong: bindR_cong)
next
  case (Suc n)
  have "pop_n (Suc (Suc n)) s = bindR (popcli s) (\<lambda>_ s. bindR (pop_n n s) (\<lambda>_ s. popcli s))"
    by (simp only: pop_n.simps(2) [of "Suc n"] Suc.IH)
  also have "\<dots> = bindR (pop_n (Suc n) s) (\<lambda>_ s. popcli s)"
    by (simp add: bindR_assoc)
  finally show ?case .
qed

lemma push_pop_n:
  assumes "cpu_ok (mach s)"
  shows "bindR (push_n n s) (\<lambda>_ s. pop_n n s) =
    Ret () (if n = 0 then s else s\<lparr>mach := settle (mach s)\<rparr>)"
  using assms
proof (induction n arbitrary: s)
  case 0
  then show ?case by simp
next
  case (Suc n)
  let ?s = "s\<lparr>mach := pushed (mach s)\<rparr>"
  have "bindR (push_n n ?s) (\<lambda>_ s. pop_n n s) = Ret () ?s"
    using Suc.IH [of ?s] Suc.prems by (cases "n = 0") simp_all
  then have "bindR (push_n n ?s) (\<lambda>_ s. pop_n (Suc n) s) = popcli ?s"
    by (simp only: pop_n_Suc flip: bindR_assoc) simp
  with Suc.prems show ?case
    by (simp add: pushcli_ok popcli_ok popped_pushed cpu_okD del: pop_n.simps)
qed

lemma push_n_depth:
  assumes "cpu_ok (mach s)"
  shows "\<exists>s1. push_n n s = Ret () s1 \<and> mycli (mach s1) = mycli (mach s) + int n \<and>
    (0 < n \<longrightarrow> \<not> iflag (mach s1))"
  using assms
proof (induction n arbitrary: s)
  case 0
  then show ?case by simp
next
  case (Suc n)
  then show ?case
    using Suc.IH [of "s\<lparr>mach := pushed (mach s)\<rparr>"] by (cases "n = 0") (auto simp: pushcli_ok)
qed

subsection \<open>Exclusion between processors\<close>

text \<open>
  The lock word shared by all processors, and where each processor stands in the code:
  outside, in the loop around \<open>xchg\<close>, or between \<open>acquire\<close> and \<open>release\<close>. Steps of different
  processors interleave in any order. A step stands for one access to the lock word: the
  \<open>xchg\<close> in the loop of \<open>acquire\<close> and the store of 0 in \<open>release\<close>. The code around them
  (interrupts, the check for a lock held already, the owner field) touches only what
  belongs to the processor itself or to the holder, and is in \<open>acquire\<close> and \<open>release\<close> above.
\<close>

datatype lkpc = Outside | Spinning | Inside

record smp =
  lkword :: uint
  pcs :: "nat \<Rightarrow> lkpc"

inductive smp_step :: "smp \<Rightarrow> smp \<Rightarrow> bool" where
  enter: "pcs g i = Outside \<Longrightarrow> smp_step g (g\<lparr>pcs := (pcs g)(i := Spinning)\<rparr>)"
| exchange: "pcs g i = Spinning \<Longrightarrow> xchg (lkword g) 1 = (old, new) \<Longrightarrow>
    smp_step g (g\<lparr>lkword := new, pcs := (pcs g)(i := if old = 0 then Inside else Spinning)\<rparr>)"
| leave: "pcs g i = Inside \<Longrightarrow> smp_step g (g\<lparr>lkword := 0, pcs := (pcs g)(i := Outside)\<rparr>)"

inductive smp_reachable :: "smp \<Rightarrow> bool" where
  start: "smp_reachable \<lparr>lkword = 0, pcs = (\<lambda>_. Outside)\<rparr>"
| step: "smp_reachable g \<Longrightarrow> smp_step g h \<Longrightarrow> smp_reachable h"

definition smp_inv :: "smp \<Rightarrow> bool" where
  "smp_inv g \<longleftrightarrow>
     (lkword g = 0 \<longrightarrow> (\<forall>i. pcs g i \<noteq> Inside)) \<and>
     (\<forall>i j. pcs g i = Inside \<longrightarrow> pcs g j = Inside \<longrightarrow> i = j)"

lemma smp_step_inv: "smp_step g h \<Longrightarrow> smp_inv g \<Longrightarrow> smp_inv h"
  by (induction rule: smp_step.induct) (auto simp: smp_inv_def xchg_def split: if_splits)

lemma smp_reachable_inv: "smp_reachable g \<Longrightarrow> smp_inv g"
proof (induction rule: smp_reachable.induct)
  case start
  show ?case by (simp add: smp_inv_def)
next
  case (step g h)
  then show ?case by (blast intro: smp_step_inv)
qed

subsection \<open>Properties\<close>

definition smp_one :: smp where
  "smp_one = \<lparr>lkword = 1, pcs = (\<lambda>_. Outside)(0 := Inside)\<rparr>"

lemma smp_one_reachable: "smp_reachable smp_one"
proof -
  let ?g0 = "\<lparr>lkword = 0, pcs = (\<lambda>_. Outside)\<rparr>"
  let ?g1 = "?g0\<lparr>pcs := (pcs ?g0)(0 := Spinning)\<rparr>"
  have "smp_step ?g0 ?g1" by (rule enter) simp
  then have r: "smp_reachable ?g1" by (rule smp_reachable.step [OF smp_reachable.start])
  have "smp_step ?g1 (?g1\<lparr>lkword := 1,
      pcs := (pcs ?g1)(0 := if (0::uint) = 0 then Inside else Spinning)\<rparr>)"
    by (rule exchange) (simp_all add: xchg_def)
  from smp_reachable.step [OF r this] show ?thesis by (simp add: smp_one_def)
qed

text \<open>C2: mutual exclusion. However the processors interleave their steps through
  \<open>acquire\<close> (the loop around the atomic \<open>xchg\<close>) and \<open>release\<close>, two processors are never
  both between the two calls for the same lock.\<close>

theorem spinlock_mutual_exclusion:
  assumes "smp_reachable g" "pcs g i = Inside" "pcs g j = Inside"
  shows "i = j"
  using smp_reachable_inv [OF assms(1)] assms(2,3) by (auto simp: smp_inv_def)

theorem spinlock_mutual_exclusion_witness:
  "smp_reachable smp_one \<and> {j. pcs smp_one j = Inside} = {0}"
proof -
  have "pcs smp_one 0 = Inside" by (simp add: smp_one_def)
  moreover from this have "0 = j" if "pcs smp_one j = Inside" for j
    using that by (rule spinlock_mutual_exclusion [OF smp_one_reachable])
  ultimately show ?thesis using smp_one_reachable by auto
qed

text \<open>A machine with one started processor, interrupts on, all locks free.\<close>

definition mach0 :: mach where
  "mach0 = \<lparr>lapicid = 0, ncpu = 1, iflag = True,
     cpus = (\<lambda>_. \<lparr>apicid = 0, ts = \<lparr>esp0 = 0, ss0 = 0, iomb = 0\<rparr>, started = True, ncli = 0, intena = True, cproc = None\<rparr>),
     locks = (\<lambda>_. \<lparr>locked = 0, lkname = '''', lkcpu = None\<rparr>)\<rparr>"

lemma me_mach0 [simp]: "me mach0 = 0" "cpu_index mach0 = Some 0"
  by (simp_all add: me_def cpu_index_def mach0_def)

lemma cpu_ok_mach0 [simp]: "cpu_ok mach0"
  unfolding cpu_ok_def mycli_def me_mach0 by (simp add: mach0_def)

lemma mycli_mach0: "mycli mach0 = 0"
  unfolding mycli_def me_mach0 by (simp add: mach0_def)

lemma free_mach0 [simp]: "free_lock l mach0"
  by (simp add: free_lock_def mach0_def)

lemma settle_mach0 [simp]: "settle mach0 = mach0"
  unfolding settle_def mycli_def me_mach0 by (simp add: mach0_def fun_upd_idem)

text \<open>C24: \<open>acquire\<close> of a free lock on a processor in order returns with the lock held by this
  processor, interrupts off and the nesting depth one higher; the \<open>release\<close> that follows gives
  back the lock, the interrupt flag and the depth; taking a lock one holds already panics
  instead of deadlocking.\<close>

theorem acquire_release_correct:
  assumes "cpu_ok (mach s)" "free_lock l (mach s)"
  shows "\<exists>s1. acquire l s = Ret () s1 \<and> held l (mach s1) \<and> \<not> iflag (mach s1) \<and>
    mycli (mach s1) = mycli (mach s) + 1 \<and> acquire l s1 = Panic ''acquire'' \<and>
    (\<exists>s2. release l s1 = Ret () s2 \<and> locks (mach s2) = locks (mach s) \<and>
       iflag (mach s2) = iflag (mach s) \<and> mycli (mach s2) = mycli (mach s) \<and>
       release l s2 = Panic ''release'')"
proof -
  let ?s1 = "s\<lparr>mach := acq l (mach s)\<rparr>" and ?s2 = "s\<lparr>mach := settle (mach s)\<rparr>"
  have "acquire l s = Ret () ?s1" using assms by (rule acquire_ok)
  moreover have "acquire l ?s1 = Panic ''acquire''"
    using assms by (intro acquire_held) simp_all
  moreover have "release l ?s1 = Ret () ?s2"
    using assms by (simp add: release_ok cpu_okD rel_acq)
  moreover have "release l ?s2 = Panic ''release''"
    using assms by (intro release_not_held) (simp_all add: free_lock_def)
  ultimately show ?thesis by auto
qed

theorem acquire_release_correct_witness:
  "\<exists>s1. acquire LkKmem \<lparr>mach = mach0\<rparr> = Ret () s1 \<and> held LkKmem (mach s1) \<and>
    \<not> iflag (mach s1)"
  using acquire_release_correct [of "\<lparr>mach = mach0\<rparr>" LkKmem] by auto

text \<open>C25: \<open>pushcli\<close> and \<open>popcli\<close> are matched. As long as the depth fits in an \<open>int\<close> of C, \<open>n\<close> nested
  calls of the first turn interrupts off and raise the depth by \<open>n\<close>, never beyond the largest \<open>int\<close>;
  \<open>n\<close> calls of the second then restore the interrupt flag and the depth. A further \<open>popcli\<close> at depth
  zero panics.\<close>

theorem pushcli_popcli_balanced:
  assumes "cpu_ok (mach s)" "mycli (mach s) + int n \<le> 2147483647"
  shows "(\<forall>k \<le> n. \<exists>s1. push_n k s = Ret () s1 \<and> mycli (mach s1) = mycli (mach s) + int k \<and>
      mycli (mach s1) \<le> 2147483647 \<and> (0 < k \<longrightarrow> \<not> iflag (mach s1))) \<and>
    (\<exists>s'. bindR (push_n n s) (\<lambda>_ s. pop_n n s) = Ret () s' \<and>
      iflag (mach s') = iflag (mach s) \<and> mycli (mach s') = mycli (mach s) \<and>
      (mycli (mach s) = 0 \<longrightarrow>
        popcli s' = Panic (if iflag (mach s) then ''popcli - interruptible'' else ''popcli'')))"
proof -
  let ?s = "if n = 0 then s else s\<lparr>mach := settle (mach s)\<rparr>"
  have "cpu_ok (mach ?s)" "mycli (mach ?s) = mycli (mach s)" "iflag (mach ?s) = iflag (mach s)"
    using assms(1) by simp_all
  moreover from this have "popcli ?s = Panic (if iflag (mach s) then ''popcli - interruptible'' else ''popcli'')"
    if "mycli (mach s) = 0"
    using that mycpu_ok [of ?s]
    by (cases "iflag (mach ?s)")
       (simp_all only: popcli_def if_True if_False, auto simp: upd_cpu_def mycli_def)
  moreover have "\<exists>s1. push_n k s = Ret () s1 \<and> mycli (mach s1) = mycli (mach s) + int k \<and>
      mycli (mach s1) \<le> 2147483647 \<and> (0 < k \<longrightarrow> \<not> iflag (mach s1))" if "k \<le> n" for k
    using push_n_depth [OF assms(1), of k] assms(2) that by fastforce
  ultimately show ?thesis using push_pop_n [OF assms(1), of n] by blast
qed

theorem pushcli_popcli_balanced_witness:
  "cpu_ok mach0 \<and> (\<exists>s'. bindR (push_n 2 \<lparr>mach = mach0\<rparr>) (\<lambda>_ s. pop_n 2 s) = Ret () s' \<and>
    iflag (mach s') = iflag mach0)"
  using pushcli_popcli_balanced [of "\<lparr>mach = mach0\<rparr>" 2] mycli_mach0 by auto

end
