(* ===== verification/Xv6_String.thy ===== *)
theory Xv6_String
  imports Xv6_Params
begin

section \<open>Memory and string routines (string.c)\<close>

text \<open>
  Kernel memory is a function from addresses to bytes. \<open>memset\<close>, \<open>memmove\<close> and \<open>memcmp\<close> work
  on it; the loops are the code's, with the count as a natural number. A C string is the
  function that gives the bytes from a pointer on, so that the same routine serves arrays in
  structs and strings in memory. \<open>strlen\<close> returns \<open>None\<close> where the code never returns.
\<close>

type_synonym memory = "addr \<Rightarrow> uchar"
type_synonym bytes = "nat \<Rightarrow> uchar"

subsection \<open>Words in memory\<close>

definition load32 :: "memory \<Rightarrow> addr \<Rightarrow> uint" where
  "load32 m a = le32 (m a) (m (a + 1)) (m (a + 2)) (m (a + 3))"

definition store32 :: "memory \<Rightarrow> addr \<Rightarrow> uint \<Rightarrow> memory" where
  "store32 m a w =
     m(a := byte_of 0 w, a + 1 := byte_of 1 w, a + 2 := byte_of 2 w, a + 3 := byte_of 3 w)"

subsection \<open>memset\<close>

primrec stosb :: "memory \<Rightarrow> addr \<Rightarrow> uchar \<Rightarrow> nat \<Rightarrow> memory" where
  "stosb m d b 0 = m"
| "stosb m d b (Suc k) = stosb (m(d := b)) (d + 1) b k"

primrec stosl :: "memory \<Rightarrow> addr \<Rightarrow> uint \<Rightarrow> nat \<Rightarrow> memory" where
  "stosl m d w 0 = m"
| "stosl m d w (Suc k) = stosl (store32 m d w) (d + 4) w k"

definition memset :: "memory \<Rightarrow> addr \<Rightarrow> uint \<Rightarrow> uint \<Rightarrow> memory" where
  "memset m dst c n =
     (if dst mod 4 = 0 \<and> n mod 4 = 0
      then let c = c AND 0xFF
           in stosl m dst (push_bit 24 c OR push_bit 16 c OR push_bit 8 c OR c) (unat (n div 4))
      else stosb m dst (ucast c) (unat n))"

subsection \<open>memcmp, memmove\<close>

primrec memcmp_loop :: "memory \<Rightarrow> addr \<Rightarrow> addr \<Rightarrow> nat \<Rightarrow> int" where
  "memcmp_loop m s1 s2 0 = 0"
| "memcmp_loop m s1 s2 (Suc k) =
     (if m s1 \<noteq> m s2 then int (unat (m s1)) - int (unat (m s2))
      else memcmp_loop m (s1 + 1) (s2 + 1) k)"

definition memcmp :: "memory \<Rightarrow> addr \<Rightarrow> addr \<Rightarrow> uint \<Rightarrow> int" where
  "memcmp m v1 v2 n = memcmp_loop m v1 v2 (unat n)"

primrec copy_up :: "memory \<Rightarrow> addr \<Rightarrow> addr \<Rightarrow> nat \<Rightarrow> memory" where
  "copy_up m d s 0 = m"
| "copy_up m d s (Suc k) = copy_up (m(d := m s)) (d + 1) (s + 1) k"

primrec copy_down :: "memory \<Rightarrow> addr \<Rightarrow> addr \<Rightarrow> nat \<Rightarrow> memory" where
  "copy_down m d s 0 = m"
| "copy_down m d s (Suc k) = copy_down (m(d - 1 := m (s - 1))) (d - 1) (s - 1) k"

definition memmove :: "memory \<Rightarrow> addr \<Rightarrow> addr \<Rightarrow> uint \<Rightarrow> memory" where
  "memmove m dst src n =
     (if src < dst \<and> src + n > dst
      then copy_down m (dst + n) (src + n) (unat n)
      else copy_up m dst src (unat n))"

definition memcpy :: "memory \<Rightarrow> addr \<Rightarrow> addr \<Rightarrow> uint \<Rightarrow> memory" where
  "memcpy m dst src n = memmove m dst src n"

subsection \<open>Strings\<close>

fun strncmp_from :: "bytes \<Rightarrow> bytes \<Rightarrow> nat \<Rightarrow> nat \<Rightarrow> int" where
  "strncmp_from p q i n =
     (if n > 0 \<and> p i \<noteq> 0 \<and> p i = q i then strncmp_from p q (Suc i) (n - 1)
      else if n = 0 then 0
      else int (unat (p i)) - int (unat (q i)))"

declare strncmp_from.simps [simp del]

definition strncmp :: "bytes \<Rightarrow> bytes \<Rightarrow> nat \<Rightarrow> int" where
  "strncmp p q n = strncmp_from p q 0 n"

text \<open>The two loops of \<open>strncpy\<close>: copy up to and including the NUL, then fill with zeroes.\<close>

primrec strncpy_zero :: "bytes \<Rightarrow> nat \<Rightarrow> nat \<Rightarrow> bytes" where
  "strncpy_zero s i 0 = s"
| "strncpy_zero s i (Suc n) = strncpy_zero (s(i := 0)) (Suc i) n"

primrec strncpy_copy :: "bytes \<Rightarrow> bytes \<Rightarrow> nat \<Rightarrow> nat \<Rightarrow> bytes" where
  "strncpy_copy s t i 0 = s"
| "strncpy_copy s t i (Suc n) =
     (let s' = s(i := t i)
      in if t i \<noteq> 0 then strncpy_copy s' t (Suc i) n else strncpy_zero s' (Suc i) n)"

definition strncpy :: "bytes \<Rightarrow> bytes \<Rightarrow> int \<Rightarrow> bytes" where
  "strncpy s t n = strncpy_copy s t 0 (nat n)"

text \<open>\<open>safestrcpy\<close>: at most \<open>n - 1\<close> bytes, then a NUL where the copy stopped.\<close>

primrec safestrcpy_loop :: "bytes \<Rightarrow> bytes \<Rightarrow> nat \<Rightarrow> nat \<Rightarrow> bytes" where
  "safestrcpy_loop s t i 0 = s(i := 0)"
| "safestrcpy_loop s t i (Suc n) =
     (let s' = s(i := t i)
      in if t i \<noteq> 0 then safestrcpy_loop s' t (Suc i) n else s'(Suc i := 0))"

definition safestrcpy :: "bytes \<Rightarrow> bytes \<Rightarrow> int \<Rightarrow> bytes" where
  "safestrcpy s t n = (if n \<le> 0 then s else safestrcpy_loop s t 0 (nat (n - 1)))"

partial_function (option) strlen_from :: "bytes \<Rightarrow> nat \<Rightarrow> nat option" where
  "strlen_from s n = (if s n \<noteq> 0 then strlen_from s (Suc n) else Some n)"

definition strlen :: "bytes \<Rightarrow> nat option" where
  "strlen s = strlen_from s 0"

subsection \<open>Correctness: words in memory\<close>

lemma load32_store32 [simp]: "load32 (store32 m a w) a = w"
  by (simp add: load32_def store32_def)

text \<open>Two aligned words at different addresses do not overlap.\<close>

lemma load32_other:
  assumes "\<And>i. i < 4 \<Longrightarrow> m' (a + of_nat i) = m (a + of_nat i)"
  shows "load32 m' a = load32 m a"
  using assms [of 0] assms [of 1] assms [of 2] assms [of 3] by (simp add: load32_def)

lemma store32_other: "(\<And>j. j < 4 \<Longrightarrow> x \<noteq> a + of_nat j) \<Longrightarrow> store32 m a w x = m x"
proof -
  assume *: "\<And>j. j < 4 \<Longrightarrow> x \<noteq> a + of_nat j"
  have "x \<noteq> a" "x \<noteq> a + 1" "x \<noteq> a + 2" "x \<noteq> a + 3"
    using * [of 0] * [of 1] * [of 2] * [of 3] by simp_all
  then show ?thesis by (simp add: store32_def)
qed

lemma load32_store32_other:
  assumes "unat a mod 4 = 0" "unat b mod 4 = 0" "a \<noteq> b"
  shows "load32 (store32 m a w) b = load32 m b"
proof (rule load32_other)
  fix i :: nat assume i: "i < 4"
  show "store32 m a w (b + of_nat i) = m (b + of_nat i)"
  proof (rule store32_other)
    fix j :: nat assume "j < 4"
    with i assms show "b + of_nat i \<noteq> a + of_nat j"
      using aligned_add_inj [of b 4 a i j] by auto
  qed
qed

subsection \<open>Correctness: memset and memmove\<close>

lemma offset_Suc:
  fixes a d :: addr
  shows "unat (a - d) < Suc k \<longleftrightarrow> a = d \<or> unat (a - (d + 1)) < k"
proof (cases "a = d")
  case False
  then have "unat (a - d) \<noteq> 0" by (simp add: unat_eq_0)
  moreover have "unat (a - d - 1) = unat (a - d) - 1"
    using False by (intro unat_minus_one) simp
  ultimately show ?thesis by (simp add: diff_diff_eq False) linarith
qed simp

lemma stosb_eq: "stosb m d b k = (\<lambda>a. if unat (a - d) < k then b else m a)"
proof (induction k arbitrary: m d)
  case (Suc k)
  show ?case by (rule ext) (simp add: Suc.IH offset_Suc)
qed simp

lemma stosl_eq_stosb:
  assumes "\<And>i. i < 4 \<Longrightarrow> byte_of i w = b"
  shows "stosl m d w k = stosb m d b (4 * k)"
proof (induction k arbitrary: m d)
  case (Suc k)
  have "store32 m d w = m(d := b, d + 1 := b, d + 2 := b, d + 3 := b)"
    using assms [of 0] assms [of 1] assms [of 2] assms [of 3] by (simp add: store32_def)
  moreover have "4 * Suc k = Suc (Suc (Suc (Suc (4 * k))))" by simp
  ultimately show ?case by (simp only: stosl.simps stosb.simps Suc.IH)
      (auto simp: stosb_eq fun_eq_iff add.assoc)
qed simp

lemma byte_of_quad:
  assumes "i < 4"
  shows "byte_of i (push_bit 24 (c AND 0xFF) OR push_bit 16 (c AND 0xFF) OR
    push_bit 8 (c AND 0xFF) OR (c AND 0xFF :: uint)) = ucast c"
proof -
  have m: "c AND 0xFF = take_bit 8 c"
    using take_bit_eq_mask [of 8 c] by (simp add: mask_eq_exp_minus_1)
  from assms consider "i = 0" | "i = 1" | "i = 2" | "i = 3" by linarith
  then show ?thesis
    unfolding m
    by cases (rule bit_word_eqI; auto simp: byte_of_def bit_simps)+
qed

text \<open>\<open>memset\<close> fills exactly the \<open>n\<close> bytes from \<open>dst\<close>, whichever loop it takes.\<close>

lemma memset_eq: "memset m dst c n = (\<lambda>a. if a - dst < n then ucast c else m a)"
proof (cases "dst mod 4 = 0 \<and> n mod 4 = 0")
  case True
  have "4 * unat (n div 4) = unat n"
  proof -
    have "unat (n mod 4) = 0" using True by simp
    then show ?thesis by (simp add: unat_div unat_mod) presburger
  qed
  moreover have "memset m dst c n = stosb m dst (ucast c) (4 * unat (n div 4))"
    unfolding memset_def Let_def if_P [OF True] by (rule stosl_eq_stosb) (rule byte_of_quad)
  ultimately show ?thesis by (simp add: stosb_eq word_less_nat_alt)
next
  case False
  then show ?thesis by (auto simp: memset_def stosb_eq word_less_nat_alt)
qed

lemma copy_up_eq:
  assumes "\<And>i j. i < j \<Longrightarrow> j < k \<Longrightarrow> d + of_nat i \<noteq> s + of_nat j"
  shows "copy_up m d s k = (\<lambda>a. if unat (a - d) < k then m (s + (a - d)) else m a)"
  using assms
proof (induction k arbitrary: m d s)
  case (Suc k)
  have "copy_up (m(d := m s)) (d + 1) (s + 1) k =
      (\<lambda>a. if unat (a - (d + 1)) < k then (m(d := m s)) (s + 1 + (a - (d + 1)))
           else (m(d := m s)) a)"
    using Suc.prems [of "Suc _" "Suc _"] by (intro Suc.IH) (force simp: algebra_simps)
  moreover have "s + (a - d) \<noteq> d" if "a \<noteq> d" "unat (a - (d + 1)) < k" for a
  proof -
    have "unat (a - d) < Suc k" "0 < unat (a - d)"
      using that by (simp_all add: offset_Suc unat_gt_0)
    from Suc.prems [OF this(2,1)] show ?thesis by auto
  qed
  ultimately have "copy_up m d s (Suc k) a =
      (if unat (a - d) < Suc k then m (s + (a - d)) else m a)" for a
    by (cases "a = d") (simp_all add: offset_Suc)
  then show ?case by (rule ext)
qed simp

lemma copy_down_eq:
  assumes "\<And>i j. j < i \<Longrightarrow> i < k \<Longrightarrow> d + of_nat i \<noteq> s + of_nat j" "k < 2 ^ 32"
  shows "copy_down m (d + of_nat k) (s + of_nat k) k =
    (\<lambda>a. if unat (a - d) < k then m (s + (a - d)) else m a)"
  using assms
proof (induction k arbitrary: m)
  case (Suc k)
  let ?m = "m(d + of_nat k := m (s + of_nat k))"
  have "copy_down ?m (d + of_nat k) (s + of_nat k) k =
      (\<lambda>a. if unat (a - d) < k then ?m (s + (a - d)) else ?m a)"
    using Suc.prems by (intro Suc.IH) auto
  moreover have "s + (a - d) \<noteq> d + of_nat k" if "unat (a - d) < k" for a
    using Suc.prems(1) [OF that] by auto
  moreover have "unat (a - d) = k \<longleftrightarrow> a = d + of_nat k" for a
  proof
    assume "unat (a - d) = k"
    then show "a = d + of_nat k" by auto
  qed (use Suc.prems(2) in \<open>simp add: unat_of_nat\<close>)
  ultimately show ?case by (auto simp: fun_eq_iff less_Suc_eq algebra_simps)
qed simp

text \<open>\<open>memmove\<close> copies the old bytes of the source, also when the two ranges overlap.\<close>

lemma memmove_eq:
  assumes s: "unat src + unat n < 2 ^ 32" and d: "unat dst + unat n < 2 ^ 32"
  shows "memmove m dst src n = (\<lambda>a. if a - dst < n then m (src + (a - dst)) else m a)"
proof -
  have us: "unat (src + of_nat i) = unat src + i" if "i \<le> unat n" for i
    using that s by (simp add: unat_word_ariths unat_of_nat)
  have ud: "unat (dst + of_nat i) = unat dst + i" if "i \<le> unat n" for i
    using that d by (simp add: unat_word_ariths unat_of_nat)
  have sn: "unat (src + n) = unat src + unat n" using us [of "unat n"] by simp
  show ?thesis
  proof (cases "src < dst \<and> src + n > dst")
    case True
    have "dst + of_nat i \<noteq> src + of_nat j" if "j < i" "i < unat n" for i j
      using that True us [of j] ud [of i] by (auto simp: word_less_nat_alt)
    then show ?thesis
      using True copy_down_eq [of "unat n" dst src m] unsigned_less [where w = n]
      by (simp add: memmove_def word_less_nat_alt)
  next
    case False
    have "dst + of_nat i \<noteq> src + of_nat j" if "i < j" "j < unat n" for i j
      using that False us [of j] ud [of i] sn by (auto simp: word_less_nat_alt)
    then show ?thesis
      using False copy_up_eq [of "unat n" dst src m]
      by (auto simp add: memmove_def word_less_nat_alt)
  qed
qed

subsection \<open>Correctness: strings\<close>

text \<open>The string a buffer of \<open>n\<close> bytes holds: the bytes before the first NUL.\<close>

definition cstr :: "nat \<Rightarrow> bytes \<Rightarrow> uchar list" where
  "cstr n p = takeWhile (\<lambda>b. b \<noteq> 0) (map p [0..<n])"

lemma cstr_from_Suc:
  "takeWhile (\<lambda>b. b \<noteq> 0) (map p [i..<i + Suc n]) =
   (if p i \<noteq> 0 then p i # takeWhile (\<lambda>b. b \<noteq> 0) (map p [Suc i..<Suc i + n]) else [])"
  by (simp add: upt_conv_Cons del: upt_Suc)

lemma strncmp_from_0:
  "strncmp_from p q i n = 0 \<longleftrightarrow>
   takeWhile (\<lambda>b. b \<noteq> 0) (map p [i..<i + n]) = takeWhile (\<lambda>b. b \<noteq> 0) (map q [i..<i + n])"
proof (induction n arbitrary: i)
  case 0
  then show ?case by (simp add: strncmp_from.simps)
next
  case (Suc n)
  have "strncmp_from p q i (Suc n) =
      (if p i \<noteq> 0 \<and> p i = q i then strncmp_from p q (Suc i) n
       else int (unat (p i)) - int (unat (q i)))"
    by (subst strncmp_from.simps) simp
  moreover have "int (unat (p i)) - int (unat (q i)) = 0 \<longleftrightarrow> p i = q i"
    by (simp add: word_uint_eq_iff)
  ultimately show ?case
    unfolding cstr_from_Suc using Suc.IH [of "Suc i"] by (auto simp del: upt_Suc)
qed

lemma strncmp_0: "strncmp p q n = 0 \<longleftrightarrow> cstr n p = cstr n q"
  using strncmp_from_0 [of p q 0 n] by (simp add: strncmp_def cstr_def)

lemma strncpy_zero_eq: "strncpy_zero s i n = (\<lambda>j. if i \<le> j \<and> j < i + n then 0 else s j)"
  by (induction n arbitrary: s i) (auto simp: fun_eq_iff)

lemma strncpy_copy_eq:
  "strncpy_copy s t i n =
   (\<lambda>j. if i \<le> j \<and> j < i + n then (if \<exists>k\<in>{i..<j}. t k = 0 then 0 else t j) else s j)"
proof (induction n arbitrary: s i)
  case 0
  then show ?case by (auto simp: fun_eq_iff)
next
  case (Suc n)
  have split: "(\<exists>k\<in>{i..<j}. t k = 0) \<longleftrightarrow> t i = 0 \<or> (\<exists>k\<in>{Suc i..<j}. t k = 0)" if "i < j" for j
  proof -
    have "{i..<j} = insert i {Suc i..<j}" using that by auto
    then show ?thesis by simp
  qed
  show ?case
  proof (rule ext)
    fix j
    show "strncpy_copy s t i (Suc n) j =
      (if i \<le> j \<and> j < i + Suc n then (if \<exists>k\<in>{i..<j}. t k = 0 then 0 else t j) else s j)"
      by (cases "i < j") (auto simp: Let_def Suc.IH strncpy_zero_eq split)
  qed
qed

lemma cstr_eqI:
  assumes "\<And>j. j < n \<Longrightarrow> (\<And>k. k < j \<Longrightarrow> q k \<noteq> 0) \<Longrightarrow> p j = q j"
  shows "cstr n p = cstr n q"
proof -
  have "takeWhile (\<lambda>b. b \<noteq> 0) (map p [i..<i + n]) = takeWhile (\<lambda>b. b \<noteq> 0) (map q [i..<i + n])"
    if "\<And>j. i \<le> j \<Longrightarrow> j < i + n \<Longrightarrow> (\<And>k. i \<le> k \<Longrightarrow> k < j \<Longrightarrow> q k \<noteq> 0) \<Longrightarrow> p j = q j" for i
    using that
  proof (induction n arbitrary: i)
    case (Suc n)
    have "p i = q i" using Suc.prems [of i] by simp
    moreover have "takeWhile (\<lambda>b. b \<noteq> 0) (map p [Suc i..<Suc i + n]) =
        takeWhile (\<lambda>b. b \<noteq> 0) (map q [Suc i..<Suc i + n])" if "q i \<noteq> 0"
    proof (rule Suc.IH)
      fix j assume j: "Suc i \<le> j" "j < Suc i + n" "\<And>k. Suc i \<le> k \<Longrightarrow> k < j \<Longrightarrow> q k \<noteq> 0"
      show "p j = q j"
      proof (rule Suc.prems)
        fix k assume "i \<le> k" "k < j"
        then show "q k \<noteq> 0" using j(3) [of k] that by (cases "k = i") auto
      qed (use j in auto)
    qed
    ultimately show ?case by (simp only: cstr_from_Suc) simp
  qed simp
  from this [of 0] show ?thesis using assms by (simp add: cstr_def)
qed

text \<open>A name stored by \<open>strncpy\<close> reads back as the same name.\<close>

lemma cstr_strncpy: "cstr n (strncpy s t (int n)) = cstr n t"
  by (rule cstr_eqI) (auto simp: strncpy_def strncpy_copy_eq)

lemma strncpy_bounds: "nat n \<le> j \<Longrightarrow> strncpy s t n j = s j"
  by (simp add: strncpy_def strncpy_copy_eq)

lemma safestrcpy_loop_eq:
  "\<exists>k. i \<le> k \<and> k \<le> i + n \<and> safestrcpy_loop s t i n k = 0 \<and>
     (\<forall>j. i \<le> j \<and> j < k \<longrightarrow> safestrcpy_loop s t i n j = t j \<and> t j \<noteq> 0) \<and>
     (k < i + n \<longrightarrow> t k = 0) \<and>
     (\<forall>j. j < i \<or> i + n < j \<longrightarrow> safestrcpy_loop s t i n j = s j)"
proof (induction n arbitrary: s i)
  case 0
  then show ?case by (intro exI [of _ i]) auto
next
  case (Suc n)
  show ?case
  proof (cases "t i = 0")
    case True
    then show ?thesis by (intro exI [of _ i]) (auto simp: Let_def)
  next
    case False
    from Suc.IH [of "Suc i" "s(i := t i)"] obtain k where k: "Suc i \<le> k" "k \<le> Suc i + n"
      "safestrcpy_loop (s(i := t i)) t (Suc i) n k = 0"
      "\<forall>j. Suc i \<le> j \<and> j < k \<longrightarrow>
         safestrcpy_loop (s(i := t i)) t (Suc i) n j = t j \<and> t j \<noteq> 0"
      "k < Suc i + n \<longrightarrow> t k = 0"
      "\<forall>j. j < Suc i \<or> Suc i + n < j \<longrightarrow>
         safestrcpy_loop (s(i := t i)) t (Suc i) n j = (s(i := t i)) j"
      by blast
    have "safestrcpy_loop (s(i := t i)) t (Suc i) n j = t j \<and> t j \<noteq> 0" if "i \<le> j" "j < k" for j
      using that k(4,6) False by (cases "j = i") auto
    then show ?thesis
      using k False by (intro exI [of _ k]) (auto simp: Let_def)
  qed
qed

lemma strlen_from_Some:
  "s (n + k) = 0 \<Longrightarrow> (\<And>j. j < k \<Longrightarrow> s (n + j) \<noteq> 0) \<Longrightarrow> strlen_from s n = Some (n + k)"
proof (induction k arbitrary: n)
  case 0
  then show ?case by (simp add: strlen_from.simps)
next
  case (Suc k)
  have "s n \<noteq> 0" using Suc.prems(2) [of 0] by simp
  moreover have "strlen_from s (Suc n) = Some (Suc n + k)"
    using Suc.prems(1) Suc.prems(2) [of "Suc _"] by (intro Suc.IH) auto
  ultimately show ?case by (simp add: strlen_from.simps [of s n])
qed

lemma strlen_Some:
  assumes "s n = 0"
  shows "strlen s = Some (LEAST k. s k = 0)"
proof -
  let ?k = "LEAST k. s k = 0"
  have "strlen_from s 0 = Some (0 + ?k)"
  proof (rule strlen_from_Some)
    show "s (0 + ?k) = 0" using LeastI [of "\<lambda>k. s k = 0", OF assms] by simp
    show "s (0 + j) \<noteq> 0" if "j < ?k" for j using not_less_Least [OF that] by simp
  qed
  then show ?thesis by (simp add: strlen_def)
qed

subsection \<open>Properties\<close>

text \<open>C26: \<open>memset\<close> sets exactly the \<open>n\<close> bytes from \<open>dst\<close> to the low byte of \<open>c\<close>, both when it takes
  the four-bytes-at-a-time path and when it takes the bytewise one.\<close>

theorem memset_correct:
  "memset m dst c n a = (if unat (a - dst) < unat n then ucast c else m a)"
  by (simp add: memset_eq word_less_nat_alt)

text \<open>C19: \<open>memmove\<close> puts the old bytes of the source range at the destination and changes
  nothing else, also when the two ranges overlap, in either direction.\<close>

theorem memmove_correct:
  assumes "unat src + unat n < 2 ^ 32" "unat dst + unat n < 2 ^ 32"
  shows "(i < unat n \<longrightarrow> memmove m dst src n (dst + of_nat i) = m (src + of_nat i)) \<and>
    (unat n \<le> unat (a - dst) \<longrightarrow> memmove m dst src n a = m a)"
proof -
  have "of_nat i < n" if "i < unat n"
    using that assms(1) by (simp add: word_less_nat_alt unat_of_nat)
  then show ?thesis using assms by (auto simp: memmove_eq word_less_nat_alt)
qed

theorem memmove_correct_witness:
  "memmove ((\<lambda>_. 0)(10 := 1, 11 := 2, 12 := 3)) 11 10 3 (11 + of_nat 2) = 3"
  using memmove_correct [of 10 3 11 2 "(\<lambda>_. 0)(10 := 1, 11 := 2, 12 := 3)" 0] by simp

text \<open>C27: a name that \<open>strncpy\<close> stored in an array of \<open>n\<close> bytes compares equal to the original
  under \<open>strncmp\<close> with the same \<open>n\<close>, and the bytes past the array are untouched; two names
  compare equal only when they agree up to the first NUL.\<close>

theorem strncpy_strncmp_roundtrip:
  "strncmp (strncpy s t (int n)) t n = 0 \<and>
   (\<forall>j. strncpy s t (int n) (n + j) = s (n + j)) \<and>
   (strncmp p q n = 0) = (cstr n p = cstr n q)"
  by (simp add: strncmp_0 cstr_strncpy strncpy_bounds)

text \<open>C28: \<open>safestrcpy\<close> with room for \<open>n > 0\<close> bytes always ends the copy with a NUL inside the
  room, copies the source up to it, and stays inside the room.\<close>

theorem safestrcpy_terminated:
  assumes "0 < n"
  shows "\<exists>k < nat n. safestrcpy s t n k = 0 \<and>
    (\<forall>j. (j < k \<longrightarrow> safestrcpy s t n j = t j \<and> t j \<noteq> 0) \<and>
         (nat n \<le> j \<longrightarrow> safestrcpy s t n j = s j)) \<and>
    (k < nat n - 1 \<longrightarrow> t k = 0)"
proof -
  from safestrcpy_loop_eq [of 0 "nat (n - 1)" s t] obtain k where
    "k \<le> nat (n - 1)" "safestrcpy_loop s t 0 (nat (n - 1)) k = 0"
    "\<forall>j. j < k \<longrightarrow> safestrcpy_loop s t 0 (nat (n - 1)) j = t j \<and> t j \<noteq> 0"
    "k < nat (n - 1) \<longrightarrow> t k = 0"
    "\<forall>j. nat (n - 1) < j \<longrightarrow> safestrcpy_loop s t 0 (nat (n - 1)) j = s j"
    by auto
  with assms show ?thesis by (intro exI [of _ k]) (auto simp: safestrcpy_def nat_diff_distrib)
qed

theorem safestrcpy_terminated_witness:
  "\<exists>k < 3. safestrcpy (\<lambda>_. 7) (\<lambda>_. 9) 3 k = 0"
  using safestrcpy_terminated [of 3 "\<lambda>_. 7" "\<lambda>_. 9"] by auto

end
