(* ===== verification/Xv6_Kalloc.thy ===== *)
theory Xv6_Kalloc
  imports Xv6_Spinlock Xv6_String "HOL-Library.Multiset"
begin

section \<open>Physical page allocator (kalloc.c)\<close>

text \<open>
  The free list is threaded through the free pages themselves: the first word of a free page is
  the address of the next one. \<open>flist\<close> relates it to a list of page addresses. The interface
  \<open>page_allocator\<close> states what clients rely on, and \<open>kalloc\<close>/\<open>kfree\<close> provide it. \<open>kend\<close> is the
  linker's symbol \<open>end\<close>.
\<close>

record kmem_t =
  use_lock :: int
  freelist :: addr

record kst_mem = kst +
  mem :: memory
  kmem :: kmem_t
  kend :: addr

definition kfree :: "addr \<Rightarrow> 'z kst_mem_scheme \<Rightarrow> (unit, 'z kst_mem_scheme) res" where
  "kfree v s =
     (if v mod PGSIZE \<noteq> 0 \<or> v < kend s \<or> V2P v \<ge> PHYSTOP then Panic ''kfree''
      else
        let s = s\<lparr>mem := memset (mem s) v 1 PGSIZE\<rparr> in
        bindR (if use_lock (kmem s) \<noteq> 0 then acquire LkKmem s else Ret () s) (\<lambda>_ s.
        let s = s\<lparr>mem := store32 (mem s) v (freelist (kmem s))\<rparr>;
            s = s\<lparr>kmem := (kmem s)\<lparr>freelist := v\<rparr>\<rparr>
        in if use_lock (kmem s) \<noteq> 0 then release LkKmem s else Ret () s))"

definition kalloc :: "'z kst_mem_scheme \<Rightarrow> (addr, 'z kst_mem_scheme) res" where
  "kalloc s =
     bindR (if use_lock (kmem s) \<noteq> 0 then acquire LkKmem s else Ret () s) (\<lambda>_ s.
     let r = freelist (kmem s);
         s = (if r \<noteq> 0 then s\<lparr>kmem := (kmem s)\<lparr>freelist := load32 (mem s) r\<rparr>\<rparr> else s)
     in bindR (if use_lock (kmem s) \<noteq> 0 then release LkKmem s else Ret () s) (\<lambda>_ s.
        Ret r s))"

text \<open>The loop of \<open>freerange\<close>. It ends because \<open>kfree\<close> only accepts addresses of physical
  memory, so the address never wraps.\<close>

definition page_ok :: "addr \<Rightarrow> addr \<Rightarrow> bool" where
  "page_ok e v \<longleftrightarrow> v mod PGSIZE = 0 \<and> e \<le> v \<and> V2P v < PHYSTOP"


lemma page_ok_bounds:
  assumes "page_ok e v"
  shows "unat v mod 4096 = 0" "2 ^ 31 \<le> unat v" "unat v < 2 ^ 31 + 0xE000000" "v \<noteq> 0"
proof -
  have "v - 0x80000000 < 0xE000000" "v mod 4096 = 0"
    using assms by (auto simp: page_ok_def V2P_def layout_defs)
  then have "0x80000000 \<le> v \<and> v < 0x8E000000" by unat_arith simp
  then show "2 ^ 31 \<le> unat v" "unat v < 2 ^ 31 + 0xE000000" "v \<noteq> 0"
    by (auto simp: word_le_nat_alt word_less_nat_alt)
  show "unat v mod 4096 = 0"
    using \<open>v mod 4096 = 0\<close> by (simp add: word_unat_eq_iff unat_mod)
qed






subsection \<open>The free list\<close>

primrec flist :: "memory \<Rightarrow> addr \<Rightarrow> addr list \<Rightarrow> bool" where
  "flist m p [] \<longleftrightarrow> p = 0"
| "flist m p (x # xs) \<longleftrightarrow> p = x \<and> p \<noteq> 0 \<and> flist m (load32 m p) xs"

text \<open>The free pages are \<open>xs\<close>, in the order of the list, and the allocator's lock can be
  taken when it is in use.\<close>

definition kmem_inv :: "'z kst_mem_scheme \<Rightarrow> addr list \<Rightarrow> bool" where
  "kmem_inv s xs \<longleftrightarrow>
     calm (mach s) \<and> (use_lock (kmem s) \<noteq> 0 \<longrightarrow> free_lock LkKmem (mach s)) \<and>
     flist (mem s) (freelist (kmem s)) xs \<and> distinct xs \<and> (\<forall>x\<in>set xs. page_ok (kend s) x)"

definition in_page :: "addr \<Rightarrow> addr \<Rightarrow> bool" where
  "in_page v a \<longleftrightarrow> a - v < PGSIZE"

lemma in_page_offset: "i < 4096 \<Longrightarrow> in_page v (v + of_nat i)"
  by (simp add: in_page_def PGSIZE_def word_less_nat_alt unat_of_nat)

lemma pages_disjoint:
  assumes "page_ok e v" "page_ok e' x" "x \<noteq> v" "i < 4096"
  shows "\<not> in_page v (x + of_nat i)"
proof
  assume "in_page v (x + of_nat i)"
  then have j: "unat (x + of_nat i - v) < 4096"
    by (simp add: in_page_def PGSIZE_def word_less_nat_alt)
  have "x + of_nat i = v + of_nat (unat (x + of_nat i - v))" by simp
  then have "x = v \<and> i = unat (x + of_nat i - v)"
    by (intro aligned_add_inj [of x 4096 v])
       (use page_ok_bounds(1) [OF assms(1)] page_ok_bounds(1) [OF assms(2)] assms(4) j
        in \<open>simp_all add: dvd_def exI [of _ "2 ^ 20"]\<close>)
  with assms(3) show False by simp
qed

lemma flist_frame:
  assumes "\<And>x i. x \<in> set xs \<Longrightarrow> i < 4 \<Longrightarrow> m' (x + of_nat i) = m (x + of_nat i)"
  shows "flist m' p xs = flist m p xs"
  using assms
proof (induction xs arbitrary: p)
  case (Cons x xs)
  have "load32 m' x = load32 m x" using Cons.prems by (intro load32_other) simp
  then show ?case using Cons.IH [of "load32 m x"] Cons.prems by auto
qed simp

text \<open>The memory after \<open>kfree v\<close>: the page is filled with ones and linked in front.\<close>

definition junked :: "addr \<Rightarrow> addr \<Rightarrow> memory \<Rightarrow> memory" where
  "junked v next m = store32 (memset m v 1 PGSIZE) v next"

lemma junked_other: "\<not> in_page v a \<Longrightarrow> junked v n m a = m a"
proof -
  assume a: "\<not> in_page v a"
  have "a \<noteq> v + of_nat j" if "j < 4" for j
    using a in_page_offset [of j v] that by auto
  then show ?thesis using a by (simp add: junked_def store32_other memset_eq in_page_def)
qed

lemma load32_junked [simp]: "load32 (junked v n m) v = n"
  by (simp add: junked_def)

lemma flist_junked:
  assumes "page_ok e v" "\<forall>x\<in>set xs. page_ok e x" "v \<notin> set xs"
  shows "flist (junked v n m) p xs = flist m p xs"
proof (rule flist_frame, rule junked_other)
  fix x and i :: nat assume "x \<in> set xs" "i < 4"
  then show "\<not> in_page v (x + of_nat i)"
    using assms by (intro pages_disjoint [of e v e x]) auto
qed

lemma kfree_eq:
  assumes "kmem_inv s xs" "page_ok (kend s) v"
  shows "kfree v s = Ret () (s\<lparr>mem := junked v (freelist (kmem s)) (mem s),
    kmem := (kmem s)\<lparr>freelist := v\<rparr>\<rparr>)"
proof -
  have "v mod PGSIZE = 0" "\<not> v < kend s" "\<not> V2P v \<ge> PHYSTOP"
    using assms(2) by (auto simp: page_ok_def)
  then show ?thesis
    using assms(1)
    by (auto simp: kfree_def kmem_inv_def Let_def acquire_calm release_calm junked_def)
qed

lemma kfree_inv:
  assumes "kmem_inv s xs" "page_ok (kend s) v" "v \<notin> set xs"
  shows "kmem_inv (s\<lparr>mem := junked v (freelist (kmem s)) (mem s),
    kmem := (kmem s)\<lparr>freelist := v\<rparr>\<rparr>) (v # xs)"
  using assms page_ok_bounds(4) [OF assms(2)]
  by (auto simp: kmem_inv_def flist_junked)

lemma kalloc_none: "kmem_inv s [] \<Longrightarrow> kalloc s = Ret 0 s"
  by (auto simp: kalloc_def kmem_inv_def Let_def acquire_calm release_calm)

lemma kalloc_some:
  assumes "kmem_inv s (x # xs)"
  shows "kalloc s = Ret x (s\<lparr>kmem := (kmem s)\<lparr>freelist := load32 (mem s) x\<rparr>\<rparr>)"
  using assms
  by (auto simp: kalloc_def kmem_inv_def Let_def acquire_calm release_calm)

lemma kalloc_inv:
  "kmem_inv s (x # xs) \<Longrightarrow> kmem_inv (s\<lparr>kmem := (kmem s)\<lparr>freelist := load32 (mem s) x\<rparr>\<rparr>) xs"
  by (auto simp: kmem_inv_def)

lemma kfree_bad: "\<not> page_ok (kend s) v \<Longrightarrow> kfree v s = Panic ''kfree''"
  by (auto simp: kfree_def page_ok_def not_le)

subsection \<open>The interface: pages are handed out once\<close>

text \<open>A client holds the pages it was given and may give any of them back.\<close>

datatype pgop = PAlloc | PFree nat

fun pg_run :: "('s \<Rightarrow> (addr, 's) res) \<Rightarrow> (addr \<Rightarrow> 's \<Rightarrow> (unit, 's) res) \<Rightarrow>
    pgop list \<Rightarrow> addr list \<Rightarrow> 's \<Rightarrow> (addr list, 's) res" where
  "pg_run al fr [] hs s = Ret hs s"
| "pg_run al fr (PAlloc # ops) hs s =
     bindR (al s) (\<lambda>r s. pg_run al fr ops (if r = 0 then hs else r # hs) s)"
| "pg_run al fr (PFree i # ops) hs s =
     (if i < length hs
      then bindR (fr (hs ! i) s) (\<lambda>_ s. pg_run al fr ops (take i hs @ drop (Suc i) hs) s)
      else pg_run al fr ops hs s)"

locale page_allocator =
  fixes alloc :: "'s \<Rightarrow> (addr, 's) res"
    and free :: "addr \<Rightarrow> 's \<Rightarrow> (unit, 's) res"
    and inv :: "'s \<Rightarrow> addr list \<Rightarrow> bool"
    and valid :: "'s \<Rightarrow> addr \<Rightarrow> bool"
  assumes alloc_empty: "inv s [] \<Longrightarrow> alloc s = Ret 0 s"
    and alloc_Cons: "inv s (x # xs) \<Longrightarrow>
      wp (alloc s) (\<lambda>r s'. r = x \<and> inv s' xs \<and> (\<forall>v. valid s' v = valid s v))"
    and free_Cons: "inv s xs \<Longrightarrow> valid s v \<Longrightarrow> v \<notin> set xs \<Longrightarrow>
      wp (free v s) (\<lambda>_ s'. inv s' (v # xs) \<and> (\<forall>w. valid s' w = valid s w))"
    and inv_pages: "inv s xs \<Longrightarrow> distinct xs \<and> 0 \<notin> set xs \<and> (\<forall>x\<in>set xs. valid s x)"
begin

lemma run_conserves:
  assumes "inv s xs" "distinct (hs @ xs)" "\<forall>v\<in>set hs. valid s v"
  shows "wp (pg_run alloc free ops hs s)
    (\<lambda>hs' s'. \<exists>xs'. inv s' xs' \<and> mset (hs' @ xs') = mset (hs @ xs))"
  using assms
proof (induction ops arbitrary: hs s xs)
  case Nil
  then show ?case by auto
next
  case (Cons op ops)
  show ?case
  proof (cases op)
    case PAlloc
    show ?thesis
    proof (cases xs)
      case Nil
      then show ?thesis
        using Cons.IH [of s "[]" hs] Cons.prems PAlloc by (simp add: alloc_empty)
    next
      case xs: (Cons x ys)
      have x: "x \<noteq> 0" "valid s x" using inv_pages [OF Cons.prems(1)] xs by auto
      have "wp (pg_run alloc free ops (x # hs) s')
          (\<lambda>hs' s'. \<exists>xs'. inv s' xs' \<and> mset (hs' @ xs') = mset (hs @ xs))"
        if "inv s' ys" "\<forall>v. valid s' v = valid s v" for s'
        using Cons.IH [OF that(1), of "x # hs"] Cons.prems(2,3) x that(2) xs by auto
      then show ?thesis
        using alloc_Cons [of s x ys] Cons.prems(1) xs PAlloc x by (auto elim!: wp_mono)
    qed
  next
    case (PFree i)
    show ?thesis
    proof (cases "i < length hs")
      case True
      let ?hs = "take i hs @ drop (Suc i) hs"
      have split: "hs = take i hs @ hs ! i # drop (Suc i) hs" using True by (rule id_take_nth_drop)
      then have m: "mset (?hs @ hs ! i # xs) = mset (hs @ xs)"
        by (metis mset_append mset.simps(2) union_assoc union_mset_add_mset_left
            union_mset_add_mset_right)
      then have d: "distinct (?hs @ hs ! i # xs)"
        using Cons.prems(2) mset_eq_imp_distinct_iff by blast
      have v: "\<forall>v\<in>set ?hs. valid s v" "valid s (hs ! i)" "hs ! i \<notin> set xs"
        using Cons.prems(3) True d by (auto dest: in_set_takeD in_set_dropD)
      have "wp (pg_run alloc free ops ?hs s')
          (\<lambda>hs' s'. \<exists>xs'. inv s' xs' \<and> mset (hs' @ xs') = mset (hs @ xs))"
        if "inv s' (hs ! i # xs)" "\<forall>v. valid s' v = valid s v" for s'
        using Cons.IH [OF that(1) d] v(1) that(2) unfolding m by blast
      then show ?thesis
        using free_Cons [OF Cons.prems(1) v(2,3)] True PFree by (auto elim!: wp_mono)
    qed (use Cons.IH [OF Cons.prems] PFree in simp)
  qed
qed

end

interpretation kpages: page_allocator kalloc kfree kmem_inv "\<lambda>s. page_ok (kend s)"
proof
  show "kmem_inv s [] \<Longrightarrow> kalloc s = Ret 0 s" for s :: "'z kst_mem_scheme" by (rule kalloc_none)
next
  fix s :: "'z kst_mem_scheme" and x xs assume "kmem_inv s (x # xs)"
  then show "wp (kalloc s) (\<lambda>r s'. r = x \<and> kmem_inv s' xs \<and>
      (\<forall>v. page_ok (kend s') v = page_ok (kend s) v))"
    by (simp add: kalloc_some kalloc_inv)
next
  fix s :: "'z kst_mem_scheme" and v xs
  assume "kmem_inv s xs" "page_ok (kend s) v" "v \<notin> set xs"
  then show "wp (kfree v s) (\<lambda>_ s'. kmem_inv s' (v # xs) \<and>
      (\<forall>w. page_ok (kend s') w = page_ok (kend s) w))"
    by (simp add: kfree_eq kfree_inv)
next
  fix s :: "'z kst_mem_scheme" and xs assume "kmem_inv s xs"
  then show "distinct xs \<and> 0 \<notin> set xs \<and> (\<forall>x\<in>set xs. page_ok (kend s) x)"
    using page_ok_bounds(4) by (auto simp: kmem_inv_def)
qed

subsection \<open>Filling the free list at boot\<close>









subsection \<open>Properties\<close>






text \<open>C3: no page is handed out twice and none is lost. Whatever sequence of \<open>kalloc\<close> and \<open>kfree\<close>
  calls a client makes, giving back only pages it holds, every call returns, and the pages
  held together with the pages on the free list are the same collection, each page once.\<close>

theorem kalloc_kfree_conserve:
  assumes "kmem_inv s xs" "distinct (hs @ xs)" "\<forall>v\<in>set hs. page_ok (kend s) v"
  shows "wp (pg_run kalloc kfree ops hs s)
    (\<lambda>hs' s'. \<exists>xs'. kmem_inv s' xs' \<and> mset (hs' @ xs') = mset (hs @ xs) \<and> distinct (hs' @ xs'))"
proof (rule wp_mono [OF kpages.run_conserves [OF assms]])
  fix hs' and s' :: "'a kst_mem_scheme"
  assume "\<exists>xs'. kmem_inv s' xs' \<and> mset (hs' @ xs') = mset (hs @ xs)"
  then show "\<exists>xs'. kmem_inv s' xs' \<and> mset (hs' @ xs') = mset (hs @ xs) \<and> distinct (hs' @ xs')"
    using assms(2) mset_eq_imp_distinct_iff by blast
qed

text \<open>A state with the one free page at physical address 2 MB.\<close>

definition kst_mem0 :: kst_mem where
  "kst_mem0 = \<lparr>mach = mach0, mem = (\<lambda>_. 0), kmem = \<lparr>use_lock = 1, freelist = 0x80200000\<rparr>,
     kend = 0x80100000\<rparr>"

lemma calm_mach0 [simp]: "calm mach0"
  by (simp add: calm_def)

lemma kmem_inv_kst_mem0: "kmem_inv kst_mem0 [0x80200000]"
  by (simp add: kmem_inv_def kst_mem0_def load32_def le32_def page_ok_def V2P_def layout_defs)

theorem kalloc_kfree_conserve_witness:
  "wp (pg_run kalloc kfree [PAlloc, PAlloc, PFree 0, PAlloc] [] kst_mem0)
    (\<lambda>hs' s'. \<exists>xs'. kmem_inv s' xs' \<and> mset (hs' @ xs') = {#0x80200000#} \<and> distinct (hs' @ xs'))"
  using kalloc_kfree_conserve [OF kmem_inv_kst_mem0, of "[]" "[PAlloc, PAlloc, PFree 0, PAlloc]"]
  by simp


end
