(* ===== verification/Xv6_Vm.thy ===== *)
theory Xv6_Vm
  imports Xv6_Kalloc
begin

section \<open>Page tables (vm.c)\<close>

text \<open>
  Page directories and page tables are arrays of 32-bit words in kernel memory, read and written
  through their kernel addresses as in the code. \<open>kdata\<close> is the linker's symbol \<open>data\<close>, \<open>cr3\<close> the
  page-table register. A loop over addresses that would wrap past the top of the address space
  has the outcome \<open>Undef\<close>. The messages \<open>cprintf\<close> prints are not part of the state.
\<close>

record kst_vm = kst_mem +
  kpgdir :: addr
  kdata :: addr
  cr3 :: uint

subsection \<open>Walking and mapping\<close>

definition walkpgdir ::
  "addr \<Rightarrow> addr \<Rightarrow> bool \<Rightarrow> 'z kst_vm_scheme \<Rightarrow> (addr, 'z kst_vm_scheme) res" where
  "walkpgdir pgdir va alloc s =
     (let pde = pgdir + 4 * PDX va;
          w = load32 (mem s) pde
      in if w AND PTE_P \<noteq> 0 then Ret (P2V (PTE_ADDR w) + 4 * PTX va) s
         else if \<not> alloc then Ret 0 s
         else bindR (kalloc s) (\<lambda>pgtab s.
           if pgtab = 0 then Ret 0 s
           else let s = s\<lparr>mem := memset (mem s) pgtab 0 PGSIZE\<rparr>;
                    s = s\<lparr>mem := store32 (mem s) pde (V2P pgtab OR PTE_P OR PTE_W OR PTE_U)\<rparr>
                in Ret (pgtab + 4 * PTX va) s))"

text \<open>The loop ends at \<open>a == last\<close>; both are page addresses, where this is the same as a
  distance of less than a page.\<close>

function mappages_loop ::
  "addr \<Rightarrow> addr \<Rightarrow> addr \<Rightarrow> uint \<Rightarrow> uint \<Rightarrow> 'z kst_vm_scheme \<Rightarrow> (int, 'z kst_vm_scheme) res" where
  "mappages_loop pgdir a lst pa perm s =
     bindR (walkpgdir pgdir a True s) (\<lambda>pte s.
     if pte = 0 then Ret (-1) s
     else if load32 (mem s) pte AND PTE_P \<noteq> 0 then Panic ''remap''
     else let s = s\<lparr>mem := store32 (mem s) pte (pa OR perm OR PTE_P)\<rparr>
          in if lst - a < PGSIZE then Ret 0 s
             else mappages_loop pgdir (a + PGSIZE) lst (pa + PGSIZE) perm s)"
  by pat_completeness auto
termination
proof (relation "measure (\<lambda>(_, a, lst, _). unat (lst - a))", simp, clarsimp)
  fix a lst :: addr assume "\<not> lst - a < PGSIZE"
  then have "unat (lst - a - PGSIZE) = unat (lst - a) - unat PGSIZE" "4096 \<le> unat (lst - a)"
    by (simp_all add: unat_sub PGSIZE_def not_less word_le_nat_alt)
  then show "unat (lst - (a + PGSIZE)) < unat (lst - a)"
    by (simp add: diff_diff_eq [symmetric] PGSIZE_def)
qed

declare mappages_loop.simps [simp del]

definition mappages ::
  "addr \<Rightarrow> addr \<Rightarrow> uint \<Rightarrow> uint \<Rightarrow> uint \<Rightarrow> 'z kst_vm_scheme \<Rightarrow> (int, 'z kst_vm_scheme) res" where
  "mappages pgdir va sz pa perm s =
     mappages_loop pgdir (PGROUNDDOWN va) (PGROUNDDOWN (va + sz - 1)) pa perm s"

subsection \<open>Freeing\<close>

text \<open>The next address: the following page, or the first page of the next page table when this
  one is absent (the code goes one page back first, as the loop adds one).\<close>

function deallocuvm_loop ::
  "addr \<Rightarrow> uint \<Rightarrow> uint \<Rightarrow> 'z kst_vm_scheme \<Rightarrow> (unit, 'z kst_vm_scheme) res" where
  "deallocuvm_loop pgdir a oldsz s =
     (if a < oldsz
      then bindR (walkpgdir pgdir a False s) (\<lambda>pte s.
        bindR (if pte = 0 then Ret (PGADDR (PDX a + 1) 0 0 - PGSIZE) s
               else if load32 (mem s) pte AND PTE_P \<noteq> 0
               then let pa = PTE_ADDR (load32 (mem s) pte)
                    in if pa = 0 then Panic ''kfree''
                       else bindR (kfree (P2V pa) s) (\<lambda>_ s.
                            Ret a (s\<lparr>mem := store32 (mem s) pte 0\<rparr>))
               else Ret a s) (\<lambda>b s.
        if b + PGSIZE \<le> a then Undef
        else deallocuvm_loop pgdir (b + PGSIZE) oldsz s))
      else Ret () s)"
  by pat_completeness auto
termination
  by (relation "measure (\<lambda>(_, a, oldsz, _). 2 ^ 32 - unat a)", simp)
     (use up_measure in \<open>simp only: in_measure split: prod.splits, blast\<close>)

declare deallocuvm_loop.simps [simp del]

definition deallocuvm ::
  "addr \<Rightarrow> uint \<Rightarrow> uint \<Rightarrow> 'z kst_vm_scheme \<Rightarrow> (uint, 'z kst_vm_scheme) res" where
  "deallocuvm pgdir oldsz newsz s =
     (if newsz \<ge> oldsz then Ret oldsz s
      else bindR (deallocuvm_loop pgdir (PGROUNDUP newsz) oldsz s) (\<lambda>_ s. Ret newsz s))"

fun freevm_loop :: "addr \<Rightarrow> nat list \<Rightarrow> 'z kst_vm_scheme \<Rightarrow> (unit, 'z kst_vm_scheme) res" where
  "freevm_loop pgdir [] s = Ret () s"
| "freevm_loop pgdir (i # is) s =
     (let w = load32 (mem s) (pgdir + 4 * of_nat i)
      in bindR (if w AND PTE_P \<noteq> 0 then kfree (P2V (PTE_ADDR w)) s else Ret () s) (\<lambda>_ s.
         freevm_loop pgdir is s))"

definition freevm :: "addr \<Rightarrow> bool \<Rightarrow> 'z kst_vm_scheme \<Rightarrow> (unit, 'z kst_vm_scheme) res" where
  "freevm pgdir dodeallocuvm s =
     (if pgdir = 0 then Panic ''freevm: no pgdir''
      else bindR (if dodeallocuvm then bindR (deallocuvm pgdir KERNBASE 0 s) (\<lambda>_ s. Ret () s)
                  else Ret () s) (\<lambda>_ s.
           bindR (freevm_loop pgdir [0..<NPDENTRIES] s) (\<lambda>_ s.
           kfree pgdir s)))"

subsection \<open>The kernel part of a page table\<close>

record kmap_t =
  virt :: addr
  phys_start :: uint
  phys_end :: uint
  kperm :: uint

definition kmap :: "addr \<Rightarrow> kmap_t list" where
  "kmap kd =
     [\<lparr>virt = KERNBASE, phys_start = 0, phys_end = EXTMEM, kperm = PTE_W\<rparr>,
      \<lparr>virt = KERNLINK, phys_start = V2P KERNLINK, phys_end = V2P kd, kperm = 0\<rparr>,
      \<lparr>virt = kd, phys_start = V2P kd, phys_end = PHYSTOP, kperm = PTE_W\<rparr>,
      \<lparr>virt = DEVSPACE, phys_start = DEVSPACE, phys_end = 0, kperm = PTE_W\<rparr>]"

fun setupkvm_loop :: "addr \<Rightarrow> kmap_t list \<Rightarrow> 'z kst_vm_scheme \<Rightarrow> (addr, 'z kst_vm_scheme) res" where
  "setupkvm_loop pgdir [] s = Ret pgdir s"
| "setupkvm_loop pgdir (k # ks) s =
     bindR (mappages pgdir (virt k) (phys_end k - phys_start k) (phys_start k) (kperm k) s) (\<lambda>r s.
     if r < 0 then bindR (freevm pgdir False s) (\<lambda>_ s. Ret 0 s)
     else setupkvm_loop pgdir ks s)"

definition setupkvm :: "'z kst_vm_scheme \<Rightarrow> (addr, 'z kst_vm_scheme) res" where
  "setupkvm s =
     bindR (kalloc s) (\<lambda>pgdir s.
     if pgdir = 0 then Ret 0 s
     else let s = s\<lparr>mem := memset (mem s) pgdir 0 PGSIZE\<rparr>
          in if P2V PHYSTOP > DEVSPACE then Panic ''PHYSTOP too high''
             else setupkvm_loop pgdir (kmap (kdata s)) s)"

definition switchkvm :: "'z kst_vm_scheme \<Rightarrow> 'z kst_vm_scheme" where
  "switchkvm s = s\<lparr>cr3 := V2P (kpgdir s)\<rparr>"

definition kvmalloc :: "'z kst_vm_scheme \<Rightarrow> (unit, 'z kst_vm_scheme) res" where
  "kvmalloc s = bindR (setupkvm s) (\<lambda>p s. Ret () (switchkvm (s\<lparr>kpgdir := p\<rparr>)))"

subsection \<open>User memory\<close>

definition inituvm :: "addr \<Rightarrow> addr \<Rightarrow> uint \<Rightarrow> 'z kst_vm_scheme \<Rightarrow> (unit, 'z kst_vm_scheme) res" where
  "inituvm pgdir init sz s =
     (if sz \<ge> PGSIZE then Panic ''inituvm: more than a page''
      else bindR (kalloc s) (\<lambda>pg s.
           let s = s\<lparr>mem := memset (mem s) pg 0 PGSIZE\<rparr>
           in bindR (mappages pgdir 0 PGSIZE (V2P pg) (PTE_W OR PTE_U) s) (\<lambda>_ s.
              Ret () (s\<lparr>mem := memmove (mem s) pg init sz\<rparr>))))"

text \<open>The loop body takes the old size for the clean-up on failure.\<close>

function allocuvm_loop ::
  "addr \<Rightarrow> uint \<Rightarrow> uint \<Rightarrow> uint \<Rightarrow> 'z kst_vm_scheme \<Rightarrow> (uint, 'z kst_vm_scheme) res" where
  "allocuvm_loop pgdir a oldsz newsz s =
     (if a < newsz
      then bindR (kalloc s) (\<lambda>pg s.
        if pg = 0 then bindR (deallocuvm pgdir newsz oldsz s) (\<lambda>_ s. Ret 0 s)
        else let s = s\<lparr>mem := memset (mem s) pg 0 PGSIZE\<rparr>
             in bindR (mappages pgdir a PGSIZE (V2P pg) (PTE_W OR PTE_U) s) (\<lambda>r s.
                if r < 0
                then bindR (deallocuvm pgdir newsz oldsz s) (\<lambda>_ s.
                     bindR (kfree pg s) (\<lambda>_ s.
                     Ret 0 s))
                else if a + PGSIZE \<le> a then Undef
                else allocuvm_loop pgdir (a + PGSIZE) oldsz newsz s))
      else Ret newsz s)"
  by pat_completeness auto
termination
  by (relation "measure (\<lambda>(_, a, _). 2 ^ 32 - unat a)", simp)
     (use up_measure in \<open>simp only: in_measure split: prod.splits, blast\<close>)

declare allocuvm_loop.simps [simp del]

definition allocuvm ::
  "addr \<Rightarrow> uint \<Rightarrow> uint \<Rightarrow> 'z kst_vm_scheme \<Rightarrow> (uint, 'z kst_vm_scheme) res" where
  "allocuvm pgdir oldsz newsz s =
     (if newsz \<ge> KERNBASE then Ret 0 s
      else if newsz < oldsz then Ret oldsz s
      else allocuvm_loop pgdir (PGROUNDUP oldsz) oldsz newsz s)"

definition clearpteu :: "addr \<Rightarrow> addr \<Rightarrow> 'z kst_vm_scheme \<Rightarrow> (unit, 'z kst_vm_scheme) res" where
  "clearpteu pgdir uva s =
     bindR (walkpgdir pgdir uva False s) (\<lambda>pte s.
     if pte = 0 then Panic ''clearpteu''
     else Ret () (s\<lparr>mem := store32 (mem s) pte (load32 (mem s) pte AND NOT PTE_U)\<rparr>))"

text \<open>\<open>copyuvm\<close>, with the jump to \<open>bad\<close> in the loop.\<close>

function copyuvm_loop ::
  "addr \<Rightarrow> addr \<Rightarrow> uint \<Rightarrow> uint \<Rightarrow> 'z kst_vm_scheme \<Rightarrow> (addr, 'z kst_vm_scheme) res" where
  "copyuvm_loop pgdir d i sz s =
     (if i < sz
      then bindR (walkpgdir pgdir i False s) (\<lambda>pte s.
        bindR (if pte = 0 \<or> load32 (mem s) pte AND PTE_P = 0 then Ret True s
               else let pa = PTE_ADDR (load32 (mem s) pte);
                        flags = PTE_FLAGS (load32 (mem s) pte)
                    in bindR (kalloc s) (\<lambda>pg s.
                       if pg = 0 then Ret False s
                       else let s = s\<lparr>mem := memmove (mem s) pg (P2V pa) PGSIZE\<rparr>
                            in bindR (mappages d i PGSIZE (V2P pg) flags s) (\<lambda>r s.
                               if r < 0 then bindR (kfree pg s) (\<lambda>_ s. Ret False s)
                               else Ret True s))) (\<lambda>ok s.
        if \<not> ok then bindR (freevm d True s) (\<lambda>_ s. Ret 0 s)
        else if i + PGSIZE \<le> i then Undef
        else copyuvm_loop pgdir d (i + PGSIZE) sz s))
      else Ret d s)"
  by pat_completeness auto
termination
  by (relation "measure (\<lambda>(_, _, i, _). 2 ^ 32 - unat i)", simp)
     (use up_measure in \<open>simp only: in_measure split: prod.splits, blast\<close>)

declare copyuvm_loop.simps [simp del]

definition copyuvm :: "addr \<Rightarrow> uint \<Rightarrow> 'z kst_vm_scheme \<Rightarrow> (addr, 'z kst_vm_scheme) res" where
  "copyuvm pgdir sz s =
     bindR (setupkvm s) (\<lambda>d s. if d = 0 then Ret 0 s else copyuvm_loop pgdir d 0 sz s)"

text \<open>\<open>uva2ka\<close> reads through the result of \<open>walkpgdir\<close> without testing it for null.\<close>

definition uva2ka :: "addr \<Rightarrow> addr \<Rightarrow> 'z kst_vm_scheme \<Rightarrow> (addr, 'z kst_vm_scheme) res" where
  "uva2ka pgdir uva s =
     bindR (walkpgdir pgdir uva False s) (\<lambda>pte s.
     if pte = 0 then Undef
     else if load32 (mem s) pte AND PTE_P = 0 then Ret 0 s
     else if load32 (mem s) pte AND PTE_U = 0 then Ret 0 s
     else Ret (P2V (PTE_ADDR (load32 (mem s) pte))) s)"

lemma page_offset: "va - PGROUNDDOWN va = va mod 4096"
  by (simp add: PGROUNDDOWN_eq)

lemma page_rest: "0 < PGSIZE - (va - PGROUNDDOWN va)"
proof -
  have "va mod 4096 < 4096" by (simp add: word_less_nat_alt unat_mod)
  then have "4096 - va mod 4096 \<noteq> 0" by auto
  then show ?thesis unfolding page_offset PGSIZE_def by (simp only: word_neq_0_conv)
qed

text \<open>The bytes of a buffer stored from an address on.\<close>

primrec put_bytes :: "addr \<Rightarrow> uchar list \<Rightarrow> memory \<Rightarrow> memory" where
  "put_bytes a [] m = m"
| "put_bytes a (b # bs) m = put_bytes (a + 1) bs (m(a := b))"

definition copy_size :: "uint \<Rightarrow> nat \<Rightarrow> nat" where
  "copy_size va len = min (unat (PGSIZE - (va - PGROUNDDOWN va))) len"

lemma copy_size_pos: "0 < len \<Longrightarrow> 0 < copy_size va len"
  using page_rest [of va] by (simp add: copy_size_def word_less_nat_alt)

text \<open>The source of the copy is given by its bytes.\<close>

function copyout ::
  "addr \<Rightarrow> uint \<Rightarrow> uchar list \<Rightarrow> 'z kst_vm_scheme \<Rightarrow> (int, 'z kst_vm_scheme) res" where
  "copyout pgdir va buf s =
     (if buf \<noteq> []
      then let va0 = PGROUNDDOWN va in
        bindR (uva2ka pgdir va0 s) (\<lambda>pa0 s.
        if pa0 = 0 then Ret (-1) s
        else let n = copy_size va (length buf);
                 s = s\<lparr>mem := put_bytes (pa0 + (va - va0)) (take n buf) (mem s)\<rparr>
             in copyout pgdir (va0 + PGSIZE) (drop (copy_size va (length buf)) buf) s)
      else Ret 0 s)"
  by pat_completeness auto
termination
  by (relation "measure (\<lambda>(_, _, buf, _). length buf)") (use copy_size_pos in \<open>auto simp: diff_less\<close>)

declare copyout.simps [simp del]

subsection \<open>Slots of a table\<close>

text \<open>The address of entry \<open>i\<close> of the table in page \<open>p\<close>, and what a write to one entry does to
  another.\<close>

definition slot :: "addr \<Rightarrow> uint \<Rightarrow> addr" where
  "slot p i = p + 4 * i"

lemma slot_offset: "i < 1024 \<Longrightarrow> slot p i = p + of_nat (4 * unat i)"
  by (simp add: slot_def)

lemma slot_aligned: "page_ok e p \<Longrightarrow> i < 1024 \<Longrightarrow> unat (slot p i) mod 4 = 0"
proof -
  assume p: "page_ok e p" and i: "i < 1024"
  have "unat (slot p i) = unat p + 4 * unat i"
    unfolding slot_offset [OF i]
    by (rule unat_add_aligned [of p 4096])
       (use page_ok_bounds(1) [OF p] i in \<open>simp_all add: word_less_nat_alt dvd_def exI [of _ "2 ^ 20"]\<close>)
  moreover have "4 dvd unat p"
    using page_ok_bounds(1) [OF p] dvd_trans [of 4 "4096 :: nat" "unat p"] by (simp add: mod_eq_0_iff_dvd)
  ultimately show ?thesis by simp
qed

lemma slot_inj:
  assumes "page_ok e p" "page_ok e q" "i < 1024" "j < 1024"
  shows "slot p i = slot q j \<longleftrightarrow> p = q \<and> i = j"
proof
  assume "slot p i = slot q j"
  then have "p = q \<and> 4 * unat i = 4 * unat j"
    unfolding slot_offset [OF assms(3)] slot_offset [OF assms(4)]
    by (intro aligned_add_inj [of p 4096 q])
       (use page_ok_bounds(1) [OF assms(1)] page_ok_bounds(1) [OF assms(2)] assms(3,4)
        in \<open>simp_all add: word_less_nat_alt dvd_def exI [of _ "2 ^ 20"]\<close>)
  then show "p = q \<and> i = j" by (simp add: word_unat_eq_iff)
qed simp

lemma load_store_slot:
  assumes "page_ok e p" "page_ok e q" "i < 1024" "j < 1024"
  shows "load32 (store32 m (slot p i) w) (slot q j) =
    (if p = q \<and> i = j then w else load32 m (slot q j))"
proof (cases "slot p i = slot q j")
  case True
  then show ?thesis using slot_inj [OF assms] by simp
next
  case False
  then show ?thesis
    using slot_inj [OF assms] load32_store32_other [OF slot_aligned slot_aligned False] assms by auto
qed

lemma slot_in_page:
  assumes "i < 1024" "k < 4"
  shows "\<exists>j < 4096. slot p i + of_nat k = p + of_nat j"
  using assms by (intro exI [of _ "4 * unat i + k"]) (simp add: slot_def word_less_nat_alt)

lemma store_slot_other:
  assumes "page_ok e p" "page_ok e q" "p \<noteq> q" "i < 1024" "k < 4096"
  shows "store32 m (slot p i) w (q + of_nat k) = m (q + of_nat k)"
proof (rule store32_other)
  fix j :: nat assume "j < 4"
  with slot_in_page [OF assms(4)] obtain l where l: "l < 4096" "slot p i + of_nat j = p + of_nat l"
    by blast
  show "q + of_nat k \<noteq> slot p i + of_nat j"
    unfolding l(2) using pages_disjoint [OF assms(1,2) _ assms(5)] assms(3) in_page_offset [OF l(1), of p]
    by auto
qed

lemma load_memset_slot:
  assumes "page_ok e p" "page_ok e q" "j < 1024"
  shows "load32 (memset m p 0 PGSIZE) (slot q j) = (if p = q then 0 else load32 m (slot q j))"
proof (cases "p = q")
  case True
  have "memset m p 0 PGSIZE (slot p j + of_nat k) = 0" if "k < 4" for k
  proof -
    from slot_in_page [OF assms(3) that] obtain l where "l < 4096" "slot p j + of_nat k = p + of_nat l"
      by blast
    then show ?thesis using in_page_offset [of l p] by (simp add: memset_eq in_page_def)
  qed
  from this [of 0] this [of 1] this [of 2] this [of 3] True show ?thesis
    by (simp add: load32_def le32_def)
next
  case False
  have "load32 (memset m p 0 PGSIZE) (slot q j) = load32 m (slot q j)"
  proof (rule load32_other)
    fix k :: nat assume "k < 4"
    with slot_in_page [OF assms(3)] obtain l where l: "l < 4096" "slot q j + of_nat k = q + of_nat l"
      by blast
    then show "memset m p 0 PGSIZE (slot q j + of_nat k) = m (slot q j + of_nat k)"
      using pages_disjoint [OF assms(1,2) _ l(1)] False by (auto simp: memset_eq in_page_def)
  qed
  then show ?thesis using False by simp
qed

lemma flist_store_slot:
  assumes "page_ok e p" "i < 1024" "\<forall>x\<in>set xs. page_ok e x" "p \<notin> set xs"
  shows "flist (store32 m (slot p i) w) f xs = flist m f xs"
proof (rule flist_frame)
  fix x and k :: nat assume "x \<in> set xs" "k < 4"
  then show "store32 m (slot p i) w (x + of_nat k) = m (x + of_nat k)"
    using assms by (intro store_slot_other [of e]) auto
qed

lemma flist_memset:
  assumes "page_ok e p" "\<forall>x\<in>set xs. page_ok e x" "p \<notin> set xs"
  shows "flist (memset m p c PGSIZE) f xs = flist m f xs"
proof (rule flist_frame)
  fix x and k :: nat assume "x \<in> set xs" "k < 4"
  then show "memset m p c PGSIZE (x + of_nat k) = m (x + of_nat k)"
    using assms pages_disjoint [of e p e x k] by (auto simp: memset_eq in_page_def)
qed

subsection \<open>What a page directory maps\<close>

definition present :: "uint \<Rightarrow> bool" where
  "present w \<longleftrightarrow> w AND PTE_P \<noteq> 0"

definition pde_at :: "memory \<Rightarrow> addr \<Rightarrow> uint \<Rightarrow> uint" where
  "pde_at m d i = load32 m (slot d i)"

definition pgtab_at :: "memory \<Rightarrow> addr \<Rightarrow> uint \<Rightarrow> addr" where
  "pgtab_at m d i = P2V (PTE_ADDR (pde_at m d i))"

text \<open>The page-table entry for an address, when there is a present one: what the hardware
  finds.\<close>

definition mapping :: "memory \<Rightarrow> addr \<Rightarrow> addr \<Rightarrow> uint option" where
  "mapping m d va =
     (if present (pde_at m d (PDX va))
      then let w = load32 m (slot (pgtab_at m d (PDX va)) (PTX va))
           in if present w then Some w else None
      else None)"

text \<open>A page directory in order: it and its page tables are pages of physical memory, all
  different, and none of them is free.\<close>

definition vm_inv :: "'z kst_vm_scheme \<Rightarrow> addr \<Rightarrow> addr list \<Rightarrow> bool" where
  "vm_inv s d xs \<longleftrightarrow> kmem_inv s xs \<and> page_ok (kend s) d \<and> d \<notin> set xs \<and>
     (\<forall>i < 1024. present (pde_at (mem s) d i) \<longrightarrow>
        page_ok (kend s) (pgtab_at (mem s) d i) \<and> pgtab_at (mem s) d i \<noteq> d \<and>
        pgtab_at (mem s) d i \<notin> set xs \<and>
        (\<forall>j < 1024. present (pde_at (mem s) d j) \<longrightarrow>
           pgtab_at (mem s) d i = pgtab_at (mem s) d j \<longrightarrow> i = j))"

lemma vm_invD:
  assumes "vm_inv s d xs"
  shows "kmem_inv s xs" "page_ok (kend s) d" "d \<notin> set xs" "\<forall>x\<in>set xs. page_ok (kend s) x"
    "i < 1024 \<Longrightarrow> present (pde_at (mem s) d i) \<Longrightarrow> page_ok (kend s) (pgtab_at (mem s) d i)"
    "i < 1024 \<Longrightarrow> present (pde_at (mem s) d i) \<Longrightarrow> pgtab_at (mem s) d i \<noteq> d"
    "i < 1024 \<Longrightarrow> present (pde_at (mem s) d i) \<Longrightarrow> pgtab_at (mem s) d i \<notin> set xs"
    "i < 1024 \<Longrightarrow> j < 1024 \<Longrightarrow> present (pde_at (mem s) d i) \<Longrightarrow> present (pde_at (mem s) d j) \<Longrightarrow>
       pgtab_at (mem s) d i = pgtab_at (mem s) d j \<Longrightarrow> i = j"
  using assms by (auto simp: vm_inv_def kmem_inv_def)

lemma present_or_P [simp]: "present (w OR PTE_P)"
proof -
  have "bit ((w OR PTE_P) AND PTE_P) 0" by (simp only: bit_simps) (simp add: PTE_P_def)
  then show ?thesis by (auto simp: present_def)
qed

lemma V2P_aligned:
  assumes "page_ok e p"
  shows "V2P p mod 4096 = 0"
proof -
  note b = page_ok_bounds [OF assms]
  have "unat (V2P p) = unat p - 2147483648"
    unfolding V2P_def KERNBASE_def using b(2) by (subst unat_sub) (simp_all add: word_le_nat_alt)
  moreover have "4096 dvd unat p - 2147483648"
    by (rule dvd_diff_nat) (use b(1) in \<open>simp_all add: mod_eq_0_iff_dvd\<close>)
  ultimately show ?thesis by (simp add: word_unat_eq_iff unat_mod)
qed

text \<open>A directory entry that points at the page table \<open>p\<close>.\<close>

lemma new_pde:
  assumes "page_ok e p"
  shows "present (V2P p OR PTE_P OR PTE_W OR PTE_U)"
    "P2V (PTE_ADDR (V2P p OR PTE_P OR PTE_W OR PTE_U)) = p"
proof -
  have "PTE_P OR PTE_W OR PTE_U = 7" by (simp add: PTE_P_def PTE_W_def PTE_U_def)
  then have o: "V2P p OR PTE_P OR PTE_W OR PTE_U = V2P p OR 7" by (simp add: or.assoc)
  have v: "V2P p mod 4096 = 0" using assms by (rule V2P_aligned)
  then show "P2V (PTE_ADDR (V2P p OR PTE_P OR PTE_W OR PTE_U)) = p"
    unfolding o by (simp add: pte_split(1))
  show "present (V2P p OR PTE_P OR PTE_W OR PTE_U)"
    using present_or_P [of "V2P p OR PTE_W OR PTE_U"] by (simp add: or.commute or.left_commute)
qed

lemma slot_nonzero: "page_ok e p \<Longrightarrow> i < 1024 \<Longrightarrow> slot p i \<noteq> 0"
proof -
  assume p: "page_ok e p" and i: "i < 1024"
  have "unat (slot p i) = unat p + 4 * unat i"
    unfolding slot_offset [OF i]
    by (rule unat_add_aligned [of p 4096])
       (use page_ok_bounds(1) [OF p] i in \<open>simp_all add: word_less_nat_alt dvd_def exI [of _ "2 ^ 20"]\<close>)
  then show "slot p i \<noteq> 0" using page_ok_bounds(2) [OF p] by auto
qed

text \<open>The memory after \<open>walkpgdir\<close> has added the page table \<open>x\<close> for directory index \<open>i\<close>.\<close>

definition tabled :: "addr \<Rightarrow> addr \<Rightarrow> uint \<Rightarrow> memory \<Rightarrow> memory" where
  "tabled d x i m =
     store32 (memset m x 0 PGSIZE) (slot d i) (V2P x OR PTE_P OR PTE_W OR PTE_U)"

lemma load_tabled:
  assumes "page_ok e d" "page_ok e x" "page_ok e q" "x \<noteq> d" "i < 1024" "j < 1024"
  shows "load32 (tabled d x i m) (slot q j) =
    (if q = d \<and> j = i then V2P x OR PTE_P OR PTE_W OR PTE_U
     else if q = x then 0 else load32 m (slot q j))"
  using assms
  by (auto simp: tabled_def load_store_slot [where e = e] load_memset_slot [where e = e])

lemma pde_tabled:
  assumes "page_ok e d" "page_ok e x" "x \<noteq> d" "i < 1024" "j < 1024"
  shows "pde_at (tabled d x i m) d j =
    (if j = i then V2P x OR PTE_P OR PTE_W OR PTE_U else pde_at m d j)"
  using assms by (auto simp: pde_at_def load_tabled [where e = e])

lemma pgtab_tabled:
  assumes "page_ok e d" "page_ok e x" "x \<noteq> d" "i < 1024" "j < 1024"
  shows "pgtab_at (tabled d x i m) d j = (if j = i then x else pgtab_at m d j)"
  using assms by (simp add: pgtab_at_def pde_tabled [where e = e] new_pde)

lemma flist_tabled:
  assumes "page_ok e d" "page_ok e x" "i < 1024" "\<forall>y\<in>set xs. page_ok e y" "d \<notin> set xs" "x \<notin> set xs"
  shows "flist (tabled d x i m) f xs = flist m f xs"
  unfolding tabled_def using assms
  by (simp add: flist_store_slot [where e = e] flist_memset [where e = e])

lemma walkpgdir_alloc:
  assumes "vm_inv s d xs"
  shows "wp (walkpgdir d va True s) (\<lambda>pte s'. \<exists>xs'. vm_inv s' d xs' \<and> set xs' \<subseteq> set xs \<and>
    kend s' = kend s \<and> mapping (mem s') d = mapping (mem s) d \<and>
    (pte = 0 \<longleftrightarrow> xs = [] \<and> \<not> present (pde_at (mem s) d (PDX va))) \<and>
    (pte \<noteq> 0 \<longrightarrow> pte = slot (pgtab_at (mem s') d (PDX va)) (PTX va)) \<and>
    (\<forall>i < 1024. present (pde_at (mem s') d i) \<longleftrightarrow>
       present (pde_at (mem s) d i) \<or> pte \<noteq> 0 \<and> i = PDX va) \<and>
    length xs = length xs' + (if present (pde_at (mem s) d (PDX va)) \<or> pte = 0 then 0 else 1))"
proof (cases "present (pde_at (mem s) d (PDX va))")
  case True
  then have "walkpgdir d va True s = Ret (slot (pgtab_at (mem s) d (PDX va)) (PTX va)) s"
    by (simp add: walkpgdir_def pde_at_def pgtab_at_def slot_def present_def Let_def)
  with assms True show ?thesis
    using slot_nonzero [OF vm_invD(5) [OF assms _ True]] by auto
next
  case False
  note I = vm_invD [OF assms]
  have w: "\<not> load32 (mem s) (d + 4 * PDX va) AND PTE_P \<noteq> 0"
    using False by (simp add: pde_at_def slot_def present_def)
  show ?thesis
  proof (cases xs)
    case Nil
    then show ?thesis using assms I(1) w False by (auto simp: walkpgdir_def kalloc_none Let_def)
  next
    case (Cons x ys)
    let ?i = "PDX va" and ?m = "tabled d x (PDX va) (mem s)"
    let ?s = "s\<lparr>kmem := (kmem s)\<lparr>freelist := load32 (mem s) x\<rparr>, mem := ?m\<rparr>"
    have x: "page_ok (kend s) x" "x \<noteq> d" "x \<notin> set ys" "x \<noteq> 0"
      using I(1,3,4) Cons page_ok_bounds(4) by (auto simp: kmem_inv_def)
    have step: "walkpgdir d va True s = Ret (slot x (PTX va)) ?s"
      using I(1) Cons w x(4)
      by (simp add: walkpgdir_def kalloc_some Let_def tabled_def slot_def)
    have k: "kmem_inv ?s ys"
      using kalloc_inv [of s x ys] I Cons x flist_tabled [of "kend s" d x ?i ys]
      by (auto simp: kmem_inv_def)
    note t = pde_tabled [OF I(2) x(1,2), of ?i] pgtab_tabled [OF I(2) x(1,2), of ?i]
    have "vm_inv ?s d ys"
      unfolding vm_inv_def
      using k I x False Cons by (auto simp: t new_pde split: if_splits)
    moreover have "mapping ?m d v = mapping (mem s) d v" for v
    proof (cases "PDX v = ?i")
      case True
      then show ?thesis
        using False load_tabled [OF I(2) x(1,1,2)]
        by (simp add: mapping_def t new_pde [OF x(1)] x(2)) (simp add: present_def)
    next
      case F: False
      show ?thesis
      proof (cases "present (pde_at (mem s) d (PDX v))")
        case True
        then have "pgtab_at (mem s) d (PDX v) \<noteq> x" "pgtab_at (mem s) d (PDX v) \<noteq> d"
            "page_ok (kend s) (pgtab_at (mem s) d (PDX v))"
          using I(5-7) [of "PDX v"] Cons by auto
        with F show ?thesis
          using load_tabled [OF I(2) x(1) _ x(2)] by (simp add: mapping_def t)
      qed (use F in \<open>simp add: mapping_def t\<close>)
    qed
    ultimately show ?thesis
      using Cons x False slot_nonzero [OF x(1), of "PTX va"]
      by (auto simp: step t new_pde fun_eq_iff intro!: exI [of _ ys])
  qed
qed

lemma store_pte:
  fixes w :: uint
  assumes "vm_inv s d xs" "present (pde_at (mem s) d (PDX va))"
  defines "m \<equiv> store32 (mem s) (slot (pgtab_at (mem s) d (PDX va)) (PTX va)) w"
  shows "vm_inv (s\<lparr>mem := m\<rparr>) d xs"
    "mapping m d v = (if PGROUNDDOWN v = PGROUNDDOWN va
       then if present w then Some w else None else mapping (mem s) d v)"
    "i < 1024 \<Longrightarrow> pde_at m d i = pde_at (mem s) d i"
proof -
  note I = vm_invD [OF assms(1)]
  let ?t = "pgtab_at (mem s) d (PDX va)"
  have t: "page_ok (kend s) ?t" "?t \<noteq> d" "?t \<notin> set xs"
    using I(5-7) [of "PDX va"] assms(2) by auto
  show pde: "pde_at m d i = pde_at (mem s) d i" if "i < 1024" for i
    using load_store_slot [OF t(1) I(2), of "PTX va" i] that t(2)
    by (simp add: pde_at_def m_def)
  then have tab: "pgtab_at m d i = pgtab_at (mem s) d i" if "i < 1024" for i
    using that by (simp add: pgtab_at_def)
  have "kmem_inv (s\<lparr>mem := m\<rparr>) xs"
    using I(1,4) t flist_store_slot [OF t(1), of "PTX va" xs]
    by (auto simp: kmem_inv_def m_def)
  then show "vm_inv (s\<lparr>mem := m\<rparr>) d xs"
    using assms(1) by (simp add: vm_inv_def pde tab)
  have l: "load32 m (slot (pgtab_at (mem s) d (PDX v)) (PTX v)) =
      (if PDX v = PDX va \<and> PTX v = PTX va then w
       else load32 (mem s) (slot (pgtab_at (mem s) d (PDX v)) (PTX v)))"
    if "present (pde_at (mem s) d (PDX v))"
    using load_store_slot [OF t(1) I(5) [OF _ that], of "PTX va" "PTX v"]
      I(8) [of "PDX v" "PDX va"] that assms(2)
    by (auto simp: m_def)
  show "mapping m d v = (if PGROUNDDOWN v = PGROUNDDOWN va
       then if present w then Some w else None else mapping (mem s) d v)"
  proof (cases "present (pde_at (mem s) d (PDX v))")
    case True
    then show ?thesis by (auto simp: mapping_def pde tab l page_index_eq [symmetric])
  next
    case False
    then have "PDX v \<noteq> PDX va" using assms(2) by auto
    with False show ?thesis by (auto simp: mapping_def pde page_index_eq [symmetric])
  qed
qed

text \<open>The page addresses from \<open>a\<close> to \<open>last\<close>.\<close>

lemma page_interval_step:
  fixes a q lst :: addr
  assumes "unat a mod 4096 = 0" "unat lst mod 4096 = 0" "unat q mod 4096 = 0" "a < lst"
  shows "a \<le> q \<and> q \<le> lst \<longleftrightarrow> q = a \<or> a + PGSIZE \<le> q \<and> q \<le> lst"
    "unat (a + PGSIZE) = unat a + 4096" "a + PGSIZE \<le> lst" "\<not> lst - a < PGSIZE"
proof -
  obtain i j k where k: "unat a = 4096 * i" "unat lst = 4096 * j" "unat q = 4096 * k"
    using assms(1-3) by (metis mod_eq_0_iff_dvd dvdE)
  have ij: "i < j" using assms(4) k by (simp add: word_less_nat_alt)
  show u: "unat (a + PGSIZE) = unat a + 4096"
    using ij k unat32_less [of lst] by (simp add: PGSIZE_def unat_word_ariths)
  then show "a + PGSIZE \<le> lst" using ij k by (simp add: word_le_nat_alt)
  have "unat (lst - a) = unat lst - unat a" using assms(4) by (intro unat_sub) simp
  then show "\<not> lst - a < PGSIZE" using ij k by (simp add: word_less_nat_alt PGSIZE_def)
  show "a \<le> q \<and> q \<le> lst \<longleftrightarrow> q = a \<or> a + PGSIZE \<le> q \<and> q \<le> lst"
    unfolding word_le_nat_alt u word_unat_eq_iff k using ij by auto
qed

lemma PGROUNDDOWN_mod_nat [simp]: "unat (PGROUNDDOWN v) mod 4096 = 0"
  by (simp add: unat_PGROUNDDOWN)

text \<open>The pages from \<open>a\<close> to \<open>last\<close> are mapped to the physical pages from \<open>pa\<close> on when \<open>mappages\<close>
  returned 0; every other address keeps its entry in any case.\<close>

definition range_mapped ::
  "addr \<Rightarrow> addr \<Rightarrow> addr \<Rightarrow> uint \<Rightarrow> uint \<Rightarrow> memory \<Rightarrow> int \<Rightarrow> memory \<Rightarrow> bool" where
  "range_mapped d a lst pa perm m r m' \<longleftrightarrow> (\<forall>v.
     if a \<le> PGROUNDDOWN v \<and> PGROUNDDOWN v \<le> lst
     then r = 0 \<longrightarrow> mapping m' d v = Some (pa + (PGROUNDDOWN v - a) OR perm OR PTE_P)
     else mapping m' d v = mapping m d v)"

lemma range_mapped_step:
  assumes "range_mapped d (a + PGSIZE) lst (pa + PGSIZE) perm m1 r m'"
    "unat a mod 4096 = 0" "unat lst mod 4096 = 0" "a < lst"
    "\<And>v. mapping m1 d v =
       (if PGROUNDDOWN v = a then Some (pa OR perm OR PTE_P) else mapping m d v)"
  shows "range_mapped d a lst pa perm m r m'"
proof -
  have up: "\<not> a + PGSIZE \<le> a"
    using page_interval_step(2) [OF assms(2,3) assms(2,4)] by (simp add: word_le_nat_alt)
  have e: "pa + PGSIZE + (q - (a + PGSIZE)) = pa + (q - a)" for q by simp
  show ?thesis
    unfolding range_mapped_def
  proof
    fix v
    show "if a \<le> PGROUNDDOWN v \<and> PGROUNDDOWN v \<le> lst
      then r = 0 \<longrightarrow> mapping m' d v = Some (pa + (PGROUNDDOWN v - a) OR perm OR PTE_P)
      else mapping m' d v = mapping m d v"
      using assms(1) [unfolded range_mapped_def e, THEN spec, of v] assms(5) [of v] up
        page_interval_step(1) [OF assms(2,3) PGROUNDDOWN_mod_nat assms(4), of v]
      by (cases "PGROUNDDOWN v = a") auto
  qed
qed

text \<open>The page tables the range from \<open>a\<close> to \<open>last\<close> needs and the directory does not have.\<close>

definition missing_tables :: "memory \<Rightarrow> addr \<Rightarrow> addr \<Rightarrow> addr \<Rightarrow> uint set" where
  "missing_tables m d a lst = {i. PDX a \<le> i \<and> i \<le> PDX lst \<and> \<not> present (pde_at m d i)}"

lemma PDX_mono: "a \<le> b \<Longrightarrow> PDX a \<le> PDX b"
  by (simp add: word_le_nat_alt unat_PDX div_le_mono)

lemma missing_tables_last:
  "present (pde_at m d (PDX a)) \<Longrightarrow> missing_tables m d a a = {}"
  by (auto simp: missing_tables_def)

lemma missing_tables_first:
  assumes "a \<le> lst" "\<not> present (pde_at m d (PDX a))"
  shows "PDX a \<in> missing_tables m d a lst"
  using assms PDX_mono by (simp add: missing_tables_def)

lemma missing_tables_step:
  assumes "unat a mod 4096 = 0" "unat lst mod 4096 = 0" "a < lst"
    "\<And>i. i < 1024 \<Longrightarrow> present (pde_at m' d i) \<longleftrightarrow> present (pde_at m d i) \<or> i = PDX a"
  shows "missing_tables m' d (a + PGSIZE) lst = missing_tables m d a lst - {PDX a}"
proof -
  have u: "unat (a + PGSIZE) = unat a + 4096"
    by (rule page_interval_step(2) [OF assms(1,2) assms(1,3)])
  have "unat (PDX (a + PGSIZE)) \<le> unat (PDX a) + 1" "unat (PDX a) \<le> unat (PDX (a + PGSIZE))"
    by (simp_all add: unat_PDX u)
  then have "PDX (a + PGSIZE) \<le> i \<and> i \<noteq> PDX a \<longleftrightarrow> PDX a \<le> i \<and> i \<noteq> PDX a" for i
    unfolding word_le_nat_alt word_unat_eq_iff by linarith
  moreover have "i < 1024" if "i \<le> PDX lst" for i
    using that index_less(1) by (rule order_le_less_trans)
  ultimately show ?thesis
    unfolding missing_tables_def using assms(4) by blast
qed

text \<open>What \<open>mappages\<close> takes from the free list: one page per missing table, or all of them.\<close>

definition tables_taken :: "nat \<Rightarrow> addr list \<Rightarrow> int \<Rightarrow> addr list \<Rightarrow> bool" where
  "tables_taken n xs r xs' \<longleftrightarrow>
     set xs' \<subseteq> set xs \<and>
     (if n \<le> length xs then r = 0 \<and> length xs = length xs' + n else r = -1 \<and> xs' = [])"

lemma mappages_loop_ok:
  assumes "vm_inv s d xs" "unat a mod 4096 = 0" "unat lst mod 4096 = 0" "a \<le> lst"
    "\<And>v. a \<le> PGROUNDDOWN v \<Longrightarrow> PGROUNDDOWN v \<le> lst \<Longrightarrow> mapping (mem s) d v = None"
  shows "wp (mappages_loop d a lst pa perm s) (\<lambda>r s'. \<exists>xs'. vm_inv s' d xs' \<and> kend s' = kend s \<and>
    tables_taken (card (missing_tables (mem s) d a lst)) xs r xs' \<and>
    range_mapped d a lst pa perm (mem s) r (mem s'))"
  using assms
proof (induction d a lst pa perm s arbitrary: xs rule: mappages_loop.induct)
  case (1 d a lst pa perm s)
  let ?w = "pa OR perm OR PTE_P" and ?M = "missing_tables (mem s) d a lst"
  have pw: "present ?w" by (simp flip: or.assoc)
  have a: "PGROUNDDOWN a = a"
    using "1.prems"(2) by (intro PGROUNDDOWN_aligned) (simp add: word_unat_eq_iff unat_mod)
  note first = missing_tables_first [OF "1.prems"(4), of "mem s" d]
  from walkpgdir_alloc [OF "1.prems"(1), of a] obtain pte s1 xs1 where
    W: "walkpgdir d a True s = Ret pte s1" "vm_inv s1 d xs1" "set xs1 \<subseteq> set xs" "kend s1 = kend s"
      "mapping (mem s1) d = mapping (mem s) d"
      "pte = 0 \<longleftrightarrow> xs = [] \<and> \<not> present (pde_at (mem s) d (PDX a))"
      "\<forall>i < 1024. present (pde_at (mem s1) d i) \<longleftrightarrow>
         present (pde_at (mem s) d i) \<or> pte \<noteq> 0 \<and> i = PDX a"
      "length xs = length xs1 + (if present (pde_at (mem s) d (PDX a)) \<or> pte = 0 then 0 else 1)"
    and slot: "pte \<noteq> 0 \<Longrightarrow> pte = slot (pgtab_at (mem s1) d (PDX a)) (PTX a)"
    by (elim wpE exE conjE) blast
  show ?case
  proof (cases "pte = 0")
    case True
    moreover have "0 < card ?M" "xs = []" "xs1 = []"
      using True W(6,8) first by (auto simp: card_gt_0_iff)
    ultimately show ?thesis
      using W by (subst mappages_loop.simps) (auto simp: range_mapped_def tables_taken_def)
  next
    case False
    let ?m = "store32 (mem s1) pte ?w" and ?s = "s1\<lparr>mem := store32 (mem s1) pte ?w\<rparr>"
    have pte: "present (pde_at (mem s1) d (PDX a))" using W(7) False by simp
    have np: "load32 (mem s1) pte AND PTE_P = 0"
      using "1.prems"(4) "1.prems"(5) [of a] W(5) pte slot [OF False] a
      by (auto simp: mapping_def present_def Let_def fun_eq_iff split: if_splits dest!: spec [of _ a])
    have S: "vm_inv ?s d xs1" "mapping ?m d v =
        (if PGROUNDDOWN v = a then Some ?w else mapping (mem s) d v)" for v
      using store_pte(1,2) [OF W(2) pte, of ?w] slot [OF False] pw a W(5) by auto
    have P: "present (pde_at ?m d i) \<longleftrightarrow> present (pde_at (mem s) d i) \<or> i = PDX a" if "i < 1024" for i
      using store_pte(3) [OF W(2) pte that, of ?w] slot [OF False] W(7) False that by simp
    have n: "length xs = length xs1 + (if PDX a \<in> ?M then 1 else 0)"
      using W(8) False first by (auto simp: missing_tables_def)
    show ?thesis
    proof (cases "a = lst")
      case True
      have "mappages_loop d a lst pa perm s = Ret 0 ?s"
        using W(1) False np True by (subst mappages_loop.simps) (simp add: PGSIZE_def)
      moreover have "range_mapped d a lst pa perm (mem s) 0 ?m"
        using S(2) True by (auto simp: range_mapped_def)
      moreover have "?M \<subseteq> {PDX a}" using True by (auto simp: missing_tables_def)
      then have "tables_taken (card ?M) xs 0 xs1"
        using n W(3) by (auto simp: tables_taken_def subset_singleton_iff)
      ultimately show ?thesis using S(1) W(4) by auto
    next
      case neq: False
      then have lt: "a < lst" using "1.prems"(4) by simp
      note I = page_interval_step [OF "1.prems"(2,3) _ lt]
      have up: "a < a + PGSIZE" using I(2) [OF "1.prems"(2)] by (simp add: word_less_nat_alt)
      have step: "mappages_loop d a lst pa perm s =
          mappages_loop d (a + PGSIZE) lst (pa + PGSIZE) perm ?s"
        using W(1) False np I(4) [OF "1.prems"(2)] by (subst mappages_loop.simps) simp
      have none: "mapping (mem ?s) d v = None" if "a + PGSIZE \<le> PGROUNDDOWN v" "PGROUNDDOWN v \<le> lst" for v
        using up that S(2) [of v] "1.prems"(5) [of v] I(1) [of "PGROUNDDOWN v"] by auto
      have c: "card ?M = card (missing_tables ?m d (a + PGSIZE) lst) + (if PDX a \<in> ?M then 1 else 0)"
        using missing_tables_step [OF "1.prems"(2,3) lt, of ?m d "mem s"] P
        by (auto simp: card_Suc_Diff1 simp del: card_Diff_insert)
      have "wp (mappages_loop d (a + PGSIZE) lst (pa + PGSIZE) perm ?s) (\<lambda>r s'. \<exists>xs'.
        vm_inv s' d xs' \<and> kend s' = kend ?s \<and>
        tables_taken (card (missing_tables (mem ?s) d (a + PGSIZE) lst)) xs1 r xs' \<and>
        range_mapped d (a + PGSIZE) lst (pa + PGSIZE) perm (mem ?s) r (mem s'))"
        by (rule "1.IH" [OF W(1) False _ refl _ S(1)])
           (use none np I [OF "1.prems"(2)] "1.prems"(2,3) in auto)
      moreover have "tables_taken (card ?M) xs r ys"
        if "tables_taken (card (missing_tables ?m d (a + PGSIZE) lst)) xs1 r ys" for r ys
        using that W(3) n c by (auto simp: tables_taken_def split: if_splits)
      ultimately show ?thesis
        unfolding step
        using W(4) S(2) range_mapped_step [of d a lst pa perm ?m _ _ "mem s", OF _ "1.prems"(2,3) lt]
        by (elim wp_mono) fastforce
    qed
  qed
qed

subsection \<open>Properties\<close>

text \<open>C4: \<open>mappages\<close> on a range of unmapped addresses always returns, and it returns 0 exactly
  when there are as many free pages as page tables to add. Then every page of the range is
  mapped to its physical page with the permissions asked for and the free list is shorter by
  the added tables; otherwise it returns -1 with no free page left. In both cases no address
  outside the range changes its mapping, and the directory, its page tables and the free pages
  stay apart.\<close>

theorem mappages_correct:
  assumes "vm_inv s d xs" "0 < sz" "unat va + unat sz \<le> 2 ^ 32"
    "\<And>v. PGROUNDDOWN va \<le> PGROUNDDOWN v \<Longrightarrow> PGROUNDDOWN v \<le> PGROUNDDOWN (va + sz - 1) \<Longrightarrow>
       mapping (mem s) d v = None"
  defines "n \<equiv> card (missing_tables (mem s) d (PGROUNDDOWN va) (PGROUNDDOWN (va + sz - 1)))"
  shows "wp (mappages d va sz pa perm s) (\<lambda>r s'. \<exists>xs'. vm_inv s' d xs' \<and> set xs' \<subseteq> set xs \<and>
    r = (if n \<le> length xs then 0 else -1) \<and> length xs' = length xs - n \<and>
    range_mapped d (PGROUNDDOWN va) (PGROUNDDOWN (va + sz - 1)) pa perm (mem s) r (mem s'))"
proof -
  have "unat (sz - 1) = unat sz - 1" using assms(2) by (intro unat_minus_one) auto
  then have "unat (va + (sz - 1)) = unat va + (unat sz - 1)"
    using assms(2,3) by (subst unat_add_lem [THEN iffD1]) (simp_all add: word_less_nat_alt)
  then have "unat va \<le> unat (va + sz - 1)" by (simp add: add_diff_eq)
  then have "PGROUNDDOWN va \<le> PGROUNDDOWN (va + sz - 1)"
    by (simp add: word_le_nat_alt unat_PGROUNDDOWN div_le_mono)
  from mappages_loop_ok [OF assms(1) PGROUNDDOWN_mod_nat PGROUNDDOWN_mod_nat this assms(4)]
  show ?thesis unfolding mappages_def n_def
    by (rule wp_mono) (auto simp: tables_taken_def split: if_splits)
qed

text \<open>A page directory with nothing mapped, and one free page beside it.\<close>

definition kst_vm0 :: kst_vm where
  "kst_vm0 = \<lparr>mach = mach0, mem = (\<lambda>_. 0), kmem = \<lparr>use_lock = 1, freelist = 0x80201000\<rparr>,
     kend = 0x80100000, kpgdir = 0, kdata = 0x80108000, cr3 = 0\<rparr>"

lemma vm_inv_kst_vm0: "vm_inv kst_vm0 0x80200000 [0x80201000]"
  by (simp add: vm_inv_def kmem_inv_def kst_vm0_def load32_def le32_def page_ok_def V2P_def
      layout_defs pde_at_def present_def)

lemma mapping_kst_vm0: "mapping (mem kst_vm0) d v = None"
  by (simp add: mapping_def kst_vm0_def pde_at_def load32_def le32_def present_def)

lemma missing_tables_kst_vm0: "missing_tables (mem kst_vm0) d 0 0 = {0}"
  by (auto simp: missing_tables_def kst_vm0_def pde_at_def load32_def le32_def present_def PDX_def)

theorem mappages_correct_witness:
  "\<exists>s'. mappages 0x80200000 0 PGSIZE 0x300000 (PTE_W OR PTE_U) kst_vm0 = Ret 0 s' \<and>
    vm_inv s' 0x80200000 [] \<and>
    range_mapped 0x80200000 0 0 0x300000 (PTE_W OR PTE_U) (mem kst_vm0) 0 (mem s')"
  using mappages_correct [OF vm_inv_kst_vm0, where sz = PGSIZE and va = 0 and pa = "0x300000"
      and perm = "PTE_W OR PTE_U"] mapping_kst_vm0
  by (simp add: wp_iff PGSIZE_def PGROUNDDOWN_def missing_tables_kst_vm0)

end
