(* ===== verification/Xv6_Proc.thy ===== *)
theory Xv6_Proc
  imports Xv6_Vm
begin

section \<open>Processes and scheduling (proc.c, proc.h)\<close>

text \<open>
  The process table as a function from slots to \<open>struct proc\<close>. Pointers to processes, files and
  inodes are indices into their tables. The trap frame and the saved context live on the kernel
  stack in the code and are records here.

  A context switch: \<open>sched\<close> ends in the outcome \<open>Swtch\<close>, and what runs when the process is chosen
  again is a function of its own (\<open>sched_return\<close>, \<open>sleep_return\<close>, \<open>yield_return\<close>). For the
  scheduler, what a process does from the moment it is switched to until it switches back is
  the parameter \<open>run\<close>. \<open>fork\<close>, \<open>exit\<close>, \<open>wait\<close> and \<open>userinit\<close> use the file system and are in a
  later theory. Process identifiers are unbounded integers.
\<close>

subsection \<open>Data\<close>

record trapframe =
  tf_edi :: uint
  tf_esi :: uint
  tf_ebp :: uint
  tf_oesp :: uint
  tf_ebx :: uint
  tf_edx :: uint
  tf_ecx :: uint
  tf_eax :: uint
  tf_gs :: ushort
  tf_fs :: ushort
  tf_es :: ushort
  tf_ds :: ushort
  tf_trapno :: uint
  tf_err :: uint
  tf_eip :: uint
  tf_cs :: ushort
  tf_eflags :: uint
  tf_esp :: uint
  tf_ss :: ushort

record kcontext =
  ctx_edi :: uint
  ctx_esi :: uint
  ctx_ebx :: uint
  ctx_ebp :: uint
  ctx_eip :: uint

datatype procstate = UNUSED | EMBRYO | SLEEPING | RUNNABLE | RUNNING | ZOMBIE

text \<open>\<open>enum proc_prio\<close>; C lets any integer be stored in it.\<close>

definition NORM_PRIO :: uint where "NORM_PRIO = 0"
definition HI_PRIO :: uint where "HI_PRIO = 1"

record proc =
  p_sz :: uint
  p_pgdir :: addr
  p_kstack :: addr
  p_state :: procstate
  p_pid :: int
  p_parent :: "nat option"
  p_tf :: trapframe
  p_context :: kcontext
  p_chan :: "chan option"
  p_killed :: bool
  p_ofile :: "nat \<Rightarrow> nat option"
  p_cwd :: "nat option"
  p_name :: bytes
  p_exit_status :: uint
  p_guard_page :: uint
  p_prio :: uint

record kst_proc = kst_vm +
  procs :: "nat \<Rightarrow> proc"
  nextpid :: int
  initproc :: "nat option"
  forkret_addr :: uint
  trapret_addr :: uint

definition upd_proc :: "nat \<Rightarrow> (proc \<Rightarrow> proc) \<Rightarrow> 'z kst_proc_scheme \<Rightarrow> 'z kst_proc_scheme" where
  "upd_proc p f s = s\<lparr>procs := (procs s)(p := f (procs s p))\<rparr>"

definition pinit :: "'z kst_proc_scheme \<Rightarrow> 'z kst_proc_scheme" where
  "pinit s = initlock LkPtable ''ptable'' s"

subsection \<open>Creating a process\<close>

definition context0 :: kcontext where
  "context0 = \<lparr>ctx_edi = 0, ctx_esi = 0, ctx_ebx = 0, ctx_ebp = 0, ctx_eip = 0\<rparr>"

text \<open>The trap frame is at the top of the kernel stack, below it the return address into
  \<open>trapret\<close> and the context: 76 = \<open>sizeof(struct trapframe)\<close>.\<close>

definition allocproc :: "'z kst_proc_scheme \<Rightarrow> (nat option, 'z kst_proc_scheme) res" where
  "allocproc s =
     bindR (acquire LkPtable s) (\<lambda>_ s.
     case find (\<lambda>p. p_state (procs s p) = UNUSED) [0..<NPROC] of
       None \<Rightarrow> bindR (release LkPtable s) (\<lambda>_ s. Ret None s)
     | Some p \<Rightarrow>
         let s = upd_proc p (\<lambda>q. q\<lparr>p_state := EMBRYO, p_pid := nextpid s\<rparr>) s;
             s = s\<lparr>nextpid := nextpid s + 1\<rparr>;
             s = upd_proc p (\<lambda>q. q\<lparr>p_prio := NORM_PRIO\<rparr>) s
         in bindR (release LkPtable s) (\<lambda>_ s.
            bindR (kalloc s) (\<lambda>k s.
            let s = upd_proc p (\<lambda>q. q\<lparr>p_kstack := k\<rparr>) s
            in if k = 0 then Ret None (upd_proc p (\<lambda>q. q\<lparr>p_state := UNUSED\<rparr>) s)
               else let sp = k + KSTACKSIZE - 76 - 4;
                        s = s\<lparr>mem := store32 (mem s) sp (trapret_addr s)\<rparr>;
                        s = upd_proc p (\<lambda>q. q\<lparr>p_context := context0\<lparr>ctx_eip := forkret_addr s\<rparr>\<rparr>) s
                    in Ret (Some p) s)))"

definition growproc :: "int \<Rightarrow> 'z kst_proc_scheme \<Rightarrow> (int, 'z kst_proc_scheme) res" where
  "growproc n s =
     bindR (myproc s) (\<lambda>cp s.
     case cp of None \<Rightarrow> Undef | Some cp \<Rightarrow>
       let p = procs s cp; sz = p_sz p
       in bindR (if n > 0 then bindR (allocuvm (p_pgdir p) sz (sz + of_int n) s) (\<lambda>r s. Ret (Some r) s)
                 else if n < 0 then bindR (deallocuvm (p_pgdir p) sz (sz + of_int n) s) (\<lambda>r s. Ret (Some r) s)
                 else Ret None s) (\<lambda>r s.
          if r = Some 0 then Ret (-1) s
          else let s = upd_proc cp (\<lambda>q. q\<lparr>p_sz := (case r of Some v \<Rightarrow> v | None \<Rightarrow> sz)\<rparr>) s
               in Ret 0 (s\<lparr>cr3 := V2P (p_pgdir p)\<rparr>)))"

subsection \<open>Giving up the processor\<close>

definition sched :: "'z kst_proc_scheme \<Rightarrow> (unit, 'z kst_proc_scheme) res" where
  "sched s =
     bindR (myproc s) (\<lambda>p s.
     bindR (holding LkPtable s) (\<lambda>h s.
     if \<not> h then Panic ''sched ptable.lock''
     else bindR (mycpu s) (\<lambda>c s.
     if ncli (cpus (mach s) c) \<noteq> 1 then Panic ''sched locks''
     else case p of None \<Rightarrow> Undef
     | Some p \<Rightarrow>
         if p_state (procs s p) = RUNNING then Panic ''sched running''
         else if iflag (mach s) then Panic ''sched interruptible''
         else Swtch s)))"

definition sched_return :: "bool \<Rightarrow> 'z kst_proc_scheme \<Rightarrow> (unit, 'z kst_proc_scheme) res" where
  "sched_return ie s =
     bindR (mycpu s) (\<lambda>c s. Ret () (s\<lparr>mach := upd_cpu c (\<lambda>k. k\<lparr>intena := ie\<rparr>) (mach s)\<rparr>))"

definition yield :: "'z kst_proc_scheme \<Rightarrow> (unit, 'z kst_proc_scheme) res" where
  "yield s =
     bindR (acquire LkPtable s) (\<lambda>_ s.
     bindR (myproc s) (\<lambda>p s.
     case p of None \<Rightarrow> Undef
     | Some p \<Rightarrow> sched (upd_proc p (\<lambda>q. q\<lparr>p_state := RUNNABLE\<rparr>) s)))"

definition yield_return :: "bool \<Rightarrow> 'z kst_proc_scheme \<Rightarrow> (unit, 'z kst_proc_scheme) res" where
  "yield_return ie s = bindR (sched_return ie s) (\<lambda>_ s. release LkPtable s)"

definition wakeup1 :: "chan \<Rightarrow> 'z kst_proc_scheme \<Rightarrow> 'z kst_proc_scheme" where
  "wakeup1 ch s = s\<lparr>procs := (\<lambda>p.
     if p < NPROC \<and> p_state (procs s p) = SLEEPING \<and> p_chan (procs s p) = Some ch
     then (procs s p)\<lparr>p_state := RUNNABLE\<rparr> else procs s p)\<rparr>"

text \<open>
  \<open>sleep\<close> and \<open>wakeup\<close> as the sequences of the steps that another processor can observe, so that the
  executions in which the steps of several processors alternate can be stated over the same
  definitions.
\<close>

datatype pact = AAcquire lockid | ARelease lockid | AChan nat chan | AState nat procstate | AWakeup1 chan | ASched

primrec do_act :: "pact \<Rightarrow> 'z kst_proc_scheme \<Rightarrow> (unit, 'z kst_proc_scheme) res" where
  "do_act (AAcquire l) s = acquire l s"
| "do_act (ARelease l) s = release l s"
| "do_act (AChan p ch) s = Ret () (upd_proc p (\<lambda>q. q\<lparr>p_chan := Some ch\<rparr>) s)"
| "do_act (AState p st) s = Ret () (upd_proc p (\<lambda>q. q\<lparr>p_state := st\<rparr>) s)"
| "do_act (AWakeup1 ch) s = Ret () (wakeup1 ch s)"
| "do_act ASched s = sched s"

primrec do_acts :: "pact list \<Rightarrow> 'z kst_proc_scheme \<Rightarrow> (unit, 'z kst_proc_scheme) res" where
  "do_acts [] s = Ret () s"
| "do_acts (a # as) s = bindR (do_act a s) (\<lambda>_ s. do_acts as s)"

definition sleep_acts :: "nat \<Rightarrow> chan \<Rightarrow> lockid \<Rightarrow> pact list" where
  "sleep_acts p ch lk =
     (if lk \<noteq> LkPtable then [AAcquire LkPtable, ARelease lk] else []) @
     [AChan p ch, AState p SLEEPING, ASched]"

definition wakeup_acts :: "chan \<Rightarrow> pact list" where
  "wakeup_acts ch = [AAcquire LkPtable, AWakeup1 ch, ARelease LkPtable]"

text \<open>The code also panics on a null lock, which has no counterpart among the lock names.\<close>

definition sleep :: "chan \<Rightarrow> lockid \<Rightarrow> 'z kst_proc_scheme \<Rightarrow> (unit, 'z kst_proc_scheme) res" where
  "sleep ch lk s =
     bindR (myproc s) (\<lambda>p s.
     case p of None \<Rightarrow> Panic ''sleep''
     | Some p \<Rightarrow> do_acts (sleep_acts p ch lk) s)"

definition sleep_return ::
  "bool \<Rightarrow> nat \<Rightarrow> lockid \<Rightarrow> 'z kst_proc_scheme \<Rightarrow> (unit, 'z kst_proc_scheme) res" where
  "sleep_return ie p lk s =
     bindR (sched_return ie s) (\<lambda>_ s.
     let s = upd_proc p (\<lambda>q. q\<lparr>p_chan := None\<rparr>) s
     in if lk \<noteq> LkPtable
        then bindR (release LkPtable s) (\<lambda>_ s. acquire lk s)
        else Ret () s)"

definition wakeup :: "chan \<Rightarrow> 'z kst_proc_scheme \<Rightarrow> (unit, 'z kst_proc_scheme) res" where
  "wakeup ch s = do_acts (wakeup_acts ch) s"

subsection \<open>Operations by process identifier\<close>

definition pid_slot :: "int \<Rightarrow> 'z kst_proc_scheme \<Rightarrow> nat option" where
  "pid_slot n s = find (\<lambda>p. p_pid (procs s p) = n) [0..<NPROC]"

definition kill :: "int \<Rightarrow> 'z kst_proc_scheme \<Rightarrow> (int, 'z kst_proc_scheme) res" where
  "kill n s =
     bindR (acquire LkPtable s) (\<lambda>_ s.
     case pid_slot n s of
       Some p \<Rightarrow>
         let s = upd_proc p (\<lambda>q. q\<lparr>p_killed := True\<rparr>) s;
             s = (if p_state (procs s p) = SLEEPING
                  then upd_proc p (\<lambda>q. q\<lparr>p_state := RUNNABLE\<rparr>) s else s)
         in bindR (release LkPtable s) (\<lambda>_ s. Ret 0 s)
     | None \<Rightarrow> bindR (release LkPtable s) (\<lambda>_ s. Ret (-1) s))"

definition getprio :: "int \<Rightarrow> 'z kst_proc_scheme \<Rightarrow> (uint, 'z kst_proc_scheme) res" where
  "getprio n s =
     bindR (acquire LkPtable s) (\<lambda>_ s.
     case pid_slot n s of
       Some p \<Rightarrow> bindR (release LkPtable s) (\<lambda>_ s. Ret (p_prio (procs s p)) s)
     | None \<Rightarrow> bindR (release LkPtable s) (\<lambda>_ s. Ret (-1) s))"

definition setprio :: "int \<Rightarrow> uint \<Rightarrow> 'z kst_proc_scheme \<Rightarrow> (int, 'z kst_proc_scheme) res" where
  "setprio n pr s =
     bindR (acquire LkPtable s) (\<lambda>_ s.
     case pid_slot n s of
       Some p \<Rightarrow>
         let s = upd_proc p (\<lambda>q. q\<lparr>p_prio := pr\<rparr>) s
         in bindR (release LkPtable s) (\<lambda>_ s. Ret 0 s)
     | None \<Rightarrow> bindR (release LkPtable s) (\<lambda>_ s. Ret (-1) s))"

subsection \<open>The scheduler\<close>

definition SEG_KDATA :: ushort where "SEG_KDATA = 2"

definition switchuvm :: "nat option \<Rightarrow> 'z kst_proc_scheme \<Rightarrow> (unit, 'z kst_proc_scheme) res" where
  "switchuvm po s =
     (case po of None \<Rightarrow> Panic ''switchuvm: no process''
      | Some p \<Rightarrow>
          if p_kstack (procs s p) = 0 then Panic ''switchuvm: no kstack''
          else if p_pgdir (procs s p) = 0 then Panic ''switchuvm: no pgdir''
          else bindR (pushcli s) (\<lambda>_ s.
               bindR (mycpu s) (\<lambda>c s.
               let t = \<lparr>esp0 = p_kstack (procs s p) + KSTACKSIZE, ss0 = push_bit 3 SEG_KDATA,
                         iomb = 0xFFFF\<rparr>;
                   s = s\<lparr>mach := upd_cpu c (\<lambda>k. k\<lparr>ts := t\<rparr>) (mach s)\<rparr>;
                   s = s\<lparr>cr3 := V2P (p_pgdir (procs s p))\<rparr>
               in popcli s)))"

definition set_cproc :: "nat \<Rightarrow> nat option \<Rightarrow> 'z kst_proc_scheme \<Rightarrow> 'z kst_proc_scheme" where
  "set_cproc c po s = s\<lparr>mach := upd_cpu c (\<lambda>k. k\<lparr>cproc := po\<rparr>) (mach s)\<rparr>"

text \<open>Switch to process \<open>p\<close>, let it run until it switches back, and return to the scheduler's
  own page table.\<close>

definition dispatch ::
  "(nat \<Rightarrow> 'z kst_proc_scheme \<Rightarrow> 'z kst_proc_scheme) \<Rightarrow> nat \<Rightarrow> nat \<Rightarrow>
   'z kst_proc_scheme \<Rightarrow> (unit, 'z kst_proc_scheme) res" where
  "dispatch run c p s =
     (let s = set_cproc c (Some p) s
      in bindR (switchuvm (Some p) s) (\<lambda>_ s.
         let s = upd_proc p (\<lambda>q. q\<lparr>p_state := RUNNING\<rparr>) s;
             s = run p s;
             s = switchkvm s
         in Ret () (set_cproc c None s)))"

text \<open>The two loops over the table. They also give the list of the processes they hist, latest
  first; the flag \<open>flagHI\<close> says whether that list is empty.\<close>

fun scheduler_hi ::
  "(nat \<Rightarrow> 'z kst_proc_scheme \<Rightarrow> 'z kst_proc_scheme) \<Rightarrow> nat \<Rightarrow> nat list \<Rightarrow> nat list \<Rightarrow>
   'z kst_proc_scheme \<Rightarrow> (nat list, 'z kst_proc_scheme) res" where
  "scheduler_hi run c [] hist s = Ret hist s"
| "scheduler_hi run c (p # ps) hist s =
     (if p_prio (procs s p) \<noteq> HI_PRIO \<or> p_state (procs s p) \<noteq> RUNNABLE
      then scheduler_hi run c ps hist s
      else bindR (dispatch run c p s) (\<lambda>_ s. scheduler_hi run c ps (p # hist) s))"

definition scheduler_norm ::
  "(nat \<Rightarrow> 'z kst_proc_scheme \<Rightarrow> 'z kst_proc_scheme) \<Rightarrow> nat \<Rightarrow> nat option \<Rightarrow>
   'z kst_proc_scheme \<Rightarrow> (nat option \<times> nat list, 'z kst_proc_scheme) res" where
  "scheduler_norm run c ultimo s =
     (let start = (case ultimo of Some u \<Rightarrow> u + 1 | None \<Rightarrow> 0)
      in case find (\<lambda>p. p_prio (procs s p) = NORM_PRIO \<and> p_state (procs s p) = RUNNABLE)
               [start..<NPROC] of
           Some p \<Rightarrow> bindR (dispatch run c p s) (\<lambda>_ s.
             Ret (if p + 1 \<ge> NPROC then None else Some p, [p]) s)
         | None \<Rightarrow> Ret (None, []) s)"

definition scheduler_pass ::
  "(nat \<Rightarrow> 'z kst_proc_scheme \<Rightarrow> 'z kst_proc_scheme) \<Rightarrow> nat \<Rightarrow> nat option \<Rightarrow>
   'z kst_proc_scheme \<Rightarrow> (nat option \<times> nat list, 'z kst_proc_scheme) res" where
  "scheduler_pass run c ultimo s =
     bindR (acquire LkPtable (sti s)) (\<lambda>_ s.
     bindR (scheduler_hi run c [0..<NPROC] [] s) (\<lambda>hist s.
     bindR (if hist = [] then scheduler_norm run c ultimo s else Ret (ultimo, hist) s) (\<lambda>r s.
     bindR (release LkPtable s) (\<lambda>_ s.
     Ret r s))))"

text \<open>The endless loop, cut after \<open>n\<close> passes; the result lists what each pass hist.\<close>

primrec scheduler_loop ::
  "nat \<Rightarrow> (nat \<Rightarrow> 'z kst_proc_scheme \<Rightarrow> 'z kst_proc_scheme) \<Rightarrow> nat \<Rightarrow> nat option \<Rightarrow>
   'z kst_proc_scheme \<Rightarrow> (nat list list, 'z kst_proc_scheme) res" where
  "scheduler_loop 0 run c ultimo s = Ret [] s"
| "scheduler_loop (Suc n) run c ultimo s =
     bindR (scheduler_pass run c ultimo s) (\<lambda>r s.
     bindR (scheduler_loop n run c (fst r) s) (\<lambda>rs s.
     Ret (snd r # rs) s))"

definition scheduler ::
  "nat \<Rightarrow> (nat \<Rightarrow> 'z kst_proc_scheme \<Rightarrow> 'z kst_proc_scheme) \<Rightarrow>
   'z kst_proc_scheme \<Rightarrow> (nat list list, 'z kst_proc_scheme) res" where
  "scheduler n run s =
     bindR (mycpu s) (\<lambda>c s. scheduler_loop n run c None (set_cproc c None s))"

subsection \<open>Effects\<close>

lemma upd_proc_simps [simp]:
  "mach (upd_proc p f s) = mach s" "mem (upd_proc p f s) = mem s" "kmem (upd_proc p f s) = kmem s"
  "kend (upd_proc p f s) = kend s" "nextpid (upd_proc p f s) = nextpid s"
  "initproc (upd_proc p f s) = initproc s" "cr3 (upd_proc p f s) = cr3 s"
  "procs (upd_proc p f s) = (procs s)(p := f (procs s p))"
  "upd_proc p f (s\<lparr>mach := m\<rparr>) = (upd_proc p f s)\<lparr>mach := m\<rparr>"
  "(upd_proc p f s)\<lparr>mach := mach s\<rparr> = upd_proc p f s"
  by (simp_all add: upd_proc_def)

lemma wakeup1_simps [simp]:
  "mach (wakeup1 ch s) = mach s" "mem (wakeup1 ch s) = mem s" "kmem (wakeup1 ch s) = kmem s"
  "kend (wakeup1 ch s) = kend s" "initproc (wakeup1 ch s) = initproc s"
  "wakeup1 ch (s\<lparr>mach := m\<rparr>) = (wakeup1 ch s)\<lparr>mach := m\<rparr>"
  "(wakeup1 ch s)\<lparr>mach := mach s\<rparr> = wakeup1 ch s"
  by (simp_all add: wakeup1_def cong: if_cong)

lemma wakeup_calm:
  "calm (mach s) \<Longrightarrow> free_lock LkPtable (mach s) \<Longrightarrow> wakeup ch s = Ret () (wakeup1 ch s)"
  by (simp add: wakeup_def wakeup_acts_def acquire_calm release_calm)

lemma pid_slot_mach [simp]: "pid_slot n (s\<lparr>mach := m\<rparr>) = pid_slot n s"
  by (simp add: pid_slot_def)

lemma pid_slot_Some:
  "pid_slot n s = Some p \<Longrightarrow> p < NPROC \<and> p_pid (procs s p) = n"
  by (auto simp: pid_slot_def find_Some_iff)

lemma pid_slot_None:
  "pid_slot n s = None \<longleftrightarrow> (\<forall>p<NPROC. p_pid (procs s p) \<noteq> n)"
  by (auto simp: pid_slot_def find_None_iff)

lemma setprio_calm:
  assumes "calm (mach s)" "free_lock LkPtable (mach s)"
  shows "setprio n pr s = (case pid_slot n s of
    Some p \<Rightarrow> Ret 0 (upd_proc p (\<lambda>q. q\<lparr>p_prio := pr\<rparr>) s) | None \<Rightarrow> Ret (-1) s)"
  using assms by (simp add: setprio_def acquire_calm release_calm Let_def split: option.split)

lemma getprio_calm:
  assumes "calm (mach s)" "free_lock LkPtable (mach s)"
  shows "getprio n s = (case pid_slot n s of
    Some p \<Rightarrow> Ret (p_prio (procs s p)) s | None \<Rightarrow> Ret (-1) s)"
  using assms by (simp add: getprio_def acquire_calm release_calm split: option.split)

lemma kill_calm:
  assumes "calm (mach s)" "free_lock LkPtable (mach s)"
  shows "kill n s = (case pid_slot n s of
    Some p \<Rightarrow> Ret 0 (upd_proc p (\<lambda>q. q\<lparr>p_killed := True,
        p_state := (if p_state q = SLEEPING then RUNNABLE else p_state q)\<rparr>) s)
  | None \<Rightarrow> Ret (-1) s)"
  using assms
  by (auto simp: kill_def acquire_calm release_calm Let_def upd_proc_def split: option.split)

text \<open>A process that holds exactly \<open>ptable.lock\<close> and is no longer marked running switches to the
  scheduler.\<close>

lemma sched_swtch:
  assumes "calm (mach s)" "held LkPtable (mach s)" "mycli (mach s) = 1"
    "curproc (mach s) = Some p" "p_state (procs s p) \<noteq> RUNNING"
  shows "sched s = Swtch s"
proof -
  have ok: "cpu_ok (mach s)" "settle (mach s) = mach s" using assms(1) by (simp_all add: calm_def)
  then have fl: "\<not> iflag (mach s)" using assms(3) cpu_okD(4) [OF ok(1)] by simp
  have "ncli (cpus (mach s) (me (mach s))) = 1" using assms(3) by (simp add: mycli_def)
  then show ?thesis
    using assms ok fl
    by (simp add: sched_def myproc_calm holding_ok mycpu_ok held_def)
qed

lemma sched_not_alone:
  assumes "calm (mach s)" "held LkPtable (mach s)" "mycli (mach s) \<noteq> 1" "curproc (mach s) = Some p"
    "0 < mycli (mach s)"
  shows "sched s = Panic ''sched locks''"
proof -
  have ok: "cpu_ok (mach s)" "settle (mach s) = mach s" using assms(1) by (simp_all add: calm_def)
  then have fl: "\<not> iflag (mach s)" using assms(5) cpu_okD(4) [OF ok(1)] by simp
  have "ncli (cpus (mach s) (me (mach s))) \<noteq> 1" using assms(3) by (simp add: mycli_def)
  then show ?thesis
    using assms ok fl by (simp add: sched_def myproc_calm holding_ok mycpu_ok held_def)
qed

text \<open>\<open>sleep\<close> inside the section of another lock: at the switch the other lock is free again, and
  the process is asleep on its channel.\<close>

lemma upd_proc_twice: "upd_proc p f (upd_proc p g s) = upd_proc p (\<lambda>q. f (g q)) s"
  by (simp add: upd_proc_def)

lemma sleep_swtch:
  assumes m: "calm m" "mycli m = 0" "curproc m = Some p" and f: "free_lock lk m" "free_lock LkPtable m"
    and lk: "lk \<noteq> LkPtable" "mach s = acq lk m"
  shows "sleep ch lk s = Swtch (upd_proc p (\<lambda>q. q\<lparr>p_chan := Some ch, p_state := SLEEPING\<rparr>)
    (s\<lparr>mach := acq LkPtable m\<rparr>))"
proof -
  let ?s = "upd_proc p (\<lambda>q. q\<lparr>p_chan := Some ch, p_state := SLEEPING\<rparr>) (s\<lparr>mach := acq LkPtable m\<rparr>)"
  have "rel lk (acq LkPtable (acq lk m)) = acq LkPtable m"
    using m f lk by (intro rel_acq_other) (simp_all add: calm_cpu_ok)
  moreover have "sched ?s = Swtch ?s"
    using m by (intro sched_swtch [where p = p]) simp_all
  ultimately show ?thesis
    using assms by (simp add: sleep_def sleep_acts_def upd_proc_twice myproc_calm acquire_calm release_calm del: upd_proc_simps(9))
qed

subsection \<open>The scheduler's processor\<close>

text \<open>Processor \<open>c\<close> outside the scheduler's critical section, and inside it.\<close>

definition sched_idle :: "nat \<Rightarrow> mach \<Rightarrow> bool" where
  "sched_idle c m \<longleftrightarrow> cpu_ok m \<and> me m = c \<and> free_lock LkPtable m \<and> mycli m = 0"

definition sched_held :: "nat \<Rightarrow> mach \<Rightarrow> bool" where
  "sched_held c m \<longleftrightarrow> cpu_ok m \<and> me m = c \<and> held LkPtable m \<and> mycli m = 1"

lemma sched_held_calm: "sched_held c m \<Longrightarrow> calm m"
  by (simp add: sched_held_def calm_def settle_id)

lemma me_upd_cpu [simp]:
  "(\<And>k. apicid (f k) = apicid k) \<Longrightarrow> me (upd_cpu c f m) = me m"
  "(\<And>k. apicid (f k) = apicid k) \<Longrightarrow> cpu_index (upd_cpu c f m) = cpu_index m"
  by (simp_all add: me_def upd_cpu_def)

lemma sched_held_upd_cpu [simp]:
  "sched_held c (upd_cpu d (\<lambda>k. k\<lparr>cproc := x\<rparr>) m) = sched_held c m"
  "sched_held c (upd_cpu d (\<lambda>k. k\<lparr>ts := t\<rparr>) m) = sched_held c m"
  by (auto simp: sched_held_def cpu_ok_def held_def mycli_def)
     (auto simp: upd_cpu_def split: if_splits)

lemma acquire_sched:
  assumes "sched_idle c (mach s)"
  shows "\<exists>m. acquire LkPtable (sti s) = Ret () (s\<lparr>mach := m\<rparr>) \<and> sched_held c m"
proof -
  have ok: "cpu_ok (mach (sti s))" "free_lock LkPtable (mach (sti s))" "mycli (mach (sti s)) = 0"
    "me (mach (sti s)) = c"
    using assms by (auto simp: sched_idle_def sti_def cpu_ok_def mycli_def me_def free_lock_def)
  have "acquire LkPtable (sti s) = Ret () ((sti s)\<lparr>mach := acq LkPtable (mach (sti s))\<rparr>)"
    by (rule acquire_ok) (use ok in simp_all)
  moreover have "sched_held c (acq LkPtable (mach (sti s)))"
    using ok by (simp add: sched_held_def)
  ultimately show ?thesis by (auto simp: sti_def)
qed

lemma release_sched:
  assumes "sched_held c (mach s)"
  shows "release LkPtable s = Ret () (s\<lparr>mach := rel LkPtable (mach s)\<rparr>)"
    "sched_idle c (rel LkPtable (mach s))"
proof -
  show "release LkPtable s = Ret () (s\<lparr>mach := rel LkPtable (mach s)\<rparr>)"
    using assms by (intro release_ok) (simp_all add: sched_held_def)
  have "cpu_ok (rel LkPtable (mach s))"
    using assms by (simp add: rel_def sched_held_def)
  moreover have "free_lock LkPtable (rel LkPtable (mach s))"
    by (simp add: rel_def free_lock_def) (simp add: dropped_def)
  ultimately show "sched_idle c (rel LkPtable (mach s))"
    using assms by (simp add: sched_idle_def sched_held_def)
qed

lemma upd_ts_simps [simp]:
  "mycli (upd_cpu c (\<lambda>k. k\<lparr>ts := t\<rparr>) m) = mycli m"
  "iflag (upd_cpu c f m) = iflag m"
  "curproc (upd_cpu c (\<lambda>k. k\<lparr>ts := t\<rparr>) m) = curproc m"
  "cpu_ok (upd_cpu c (\<lambda>k. k\<lparr>ts := t\<rparr>) m) = cpu_ok m"
  by (simp_all add: mycli_def curproc_def cpu_ok_def) (simp_all add: upd_cpu_def)

lemma popped_upd_ts:
  "c = me m \<Longrightarrow> popped (upd_cpu c (\<lambda>k. k\<lparr>ts := t\<rparr>) m) = upd_cpu c (\<lambda>k. k\<lparr>ts := t\<rparr>) (popped m)"
proof -
  have comm: "k\<lparr>ts := t, ncli := n\<rparr> = k\<lparr>ncli := n, ts := t\<rparr>" for k :: cpu and n by simp
  show "c = me m \<Longrightarrow> ?thesis"
    by (simp add: popped_def [of "upd_cpu (me m) _ m"]) (simp add: popped_def upd_cpu_def, subst comm, rule refl)
qed

lemma switchuvm_ok:
  assumes "sched_held c (mach s)" "p_kstack (procs s p) \<noteq> 0" "p_pgdir (procs s p) \<noteq> 0"
  shows "switchuvm (Some p) s = Ret () (s\<lparr>mach := upd_cpu c (\<lambda>k. k\<lparr>ts :=
      \<lparr>esp0 = p_kstack (procs s p) + KSTACKSIZE, ss0 = push_bit 3 SEG_KDATA, iomb = 0xFFFF\<rparr>\<rparr>) (mach s),
    cr3 := V2P (p_pgdir (procs s p))\<rparr>)"
proof -
  have m: "cpu_ok (mach s)" "me (mach s) = c" "settle (mach s) = mach s"
    using assms(1) sched_held_calm [OF assms(1)] by (simp_all add: sched_held_def calm_def)
  then show ?thesis
    using assms(2,3)
    by (simp add: switchuvm_def pushcli_ok mycpu_ok popcli_ok cpu_okD Let_def popped_upd_ts
        popped_pushed)
qed

text \<open>What is asked of a process while it runs: it comes back to the scheduler on the same
  processor with exactly \<open>ptable.lock\<close> held, and it keeps the table invariant \<open>K\<close>. A runnable
  process has a kernel stack and a page table.\<close>

definition run_contract ::
  "(nat \<Rightarrow> 'z kst_proc_scheme \<Rightarrow> 'z kst_proc_scheme) \<Rightarrow> nat \<Rightarrow> ((nat \<Rightarrow> proc) \<Rightarrow> bool) \<Rightarrow> bool" where
  "run_contract run c K \<longleftrightarrow>
     (\<forall>t p. K t \<and> p < NPROC \<and> p_state (t p) = RUNNABLE \<longrightarrow> p_kstack (t p) \<noteq> 0 \<and> p_pgdir (t p) \<noteq> 0) \<and>
     (\<forall>s p. p < NPROC \<and> sched_held c (mach s) \<and> p_state (procs s p) = RUNNING \<and>
        K ((procs s)(p := (procs s p)\<lparr>p_state := RUNNABLE\<rparr>)) \<longrightarrow>
        sched_held c (mach (run p s)) \<and> K (procs (run p s)))"

lemma dispatch_ok:
  assumes "run_contract run c K" "sched_held c (mach s)" "K (procs s)" "p < NPROC"
    "p_state (procs s p) = RUNNABLE"
  shows "wp (dispatch run c p s) (\<lambda>_ s'. sched_held c (mach s') \<and> K (procs s'))"
proof -
  have k: "p_kstack (procs s p) \<noteq> 0" "p_pgdir (procs s p) \<noteq> 0"
    using assms by (auto simp: run_contract_def)
  let ?s = "set_cproc c (Some p) s"
  have h: "sched_held c (mach ?s)" "procs ?s = procs s" using assms(2) by (simp_all add: set_cproc_def)
  let ?u = "s\<lparr>mach := upd_cpu c (\<lambda>k. k\<lparr>ts :=
      \<lparr>esp0 = p_kstack (procs s p) + KSTACKSIZE, ss0 = push_bit 3 SEG_KDATA, iomb = 0xFFFF\<rparr>\<rparr>) (mach ?s),
    cr3 := V2P (p_pgdir (procs s p))\<rparr>"
  let ?v = "upd_proc p (\<lambda>q. q\<lparr>p_state := RUNNING\<rparr>) ?u"
  have "(procs s p)\<lparr>p_state := RUNNABLE\<rparr> = procs s p" using assms(5) by (cases "procs s p") simp
  then have "(procs ?v)(p := (procs ?v p)\<lparr>p_state := RUNNABLE\<rparr>) = procs s"
    by (simp add: fun_upd_idem)
  then have "sched_held c (mach (run p ?v)) \<and> K (procs (run p ?v))"
    using assms(1,3,4) h(1) unfolding run_contract_def by simp
  moreover have "switchuvm (Some p) ?s = Ret () ?u"
    using switchuvm_ok [OF h(1), of p] k h(2) by (simp add: set_cproc_def)
  ultimately show ?thesis
    by (simp add: dispatch_def Let_def del: upd_proc_simps(9)) (simp add: set_cproc_def switchkvm_def)
qed

lemma scheduler_hi_ok:
  assumes "run_contract run c K" "sched_held c (mach s)" "K (procs s)" "set ps \<subseteq> {..<NPROC}"
  shows "wp (scheduler_hi run c ps hist s) (\<lambda>h s'. sched_held c (mach s') \<and> K (procs s') \<and>
    (\<exists>new. h = new @ hist \<and> set new \<subseteq> set ps \<and>
      (\<forall>pr. (\<forall>t q. K t \<longrightarrow> p_prio (t q) = pr q) \<longrightarrow> (\<forall>q\<in>set new. pr q = HI_PRIO)) \<and>
      ((\<exists>p\<in>set ps. p_prio (procs s p) = HI_PRIO \<and> p_state (procs s p) = RUNNABLE) \<longrightarrow> new \<noteq> [])))"
  using assms
proof (induction ps arbitrary: hist s)
  case (Cons p ps)
  show ?case
  proof (cases "p_prio (procs s p) \<noteq> HI_PRIO \<or> p_state (procs s p) \<noteq> RUNNABLE")
    case True
    then show ?thesis using Cons.IH [of s hist] Cons.prems by (auto elim!: wp_mono)
  next
    case False
    let ?pr = "\<lambda>new. \<forall>pr. (\<forall>t q. K t \<longrightarrow> p_prio (t q) = pr q) \<longrightarrow> (\<forall>q\<in>set new. pr q = HI_PRIO)"
    let ?new = "\<lambda>new. set new \<subseteq> set ps \<and> ?pr new"
    have "wp (dispatch run c p s) (\<lambda>_ s'. sched_held c (mach s') \<and> K (procs s'))"
      using Cons.prems False by (intro dispatch_ok) auto
    then have "wp (dispatch run c p s) (\<lambda>_ s'. wp (scheduler_hi run c ps (p # hist) s')
        (\<lambda>h s''. sched_held c (mach s'') \<and> K (procs s'') \<and> (\<exists>new. h = new @ p # hist \<and> ?new new)))"
    proof (rule wp_mono)
      fix s' :: "'a kst_proc_scheme" assume "sched_held c (mach s') \<and> K (procs s')"
      then show "wp (scheduler_hi run c ps (p # hist) s') (\<lambda>h s''. sched_held c (mach s'') \<and>
          K (procs s'') \<and> (\<exists>new. h = new @ p # hist \<and> ?new new))"
        using Cons.IH [of s' "p # hist"] Cons.prems by (auto elim!: wp_mono)
    qed
    moreover have "\<exists>new'. new @ p # hist = new' @ hist \<and> set new' \<subseteq> set (p # ps) \<and> ?pr new' \<and> new' \<noteq> []"
      if "?new new" for new
      using that False Cons.prems(3) by (intro exI [of _ "new @ [p]"]) auto
    ultimately show ?thesis using False by (auto elim!: wp_mono)
  qed
qed simp

lemma scheduler_hi_none:
  assumes "\<And>p. p \<in> set ps \<Longrightarrow> p_prio (procs s p) = HI_PRIO \<Longrightarrow> p_state (procs s p) \<noteq> RUNNABLE"
  shows "scheduler_hi run c ps hist s = Ret hist s"
  using assms by (induction ps) auto

subsection \<open>Round robin\<close>

definition norm_start :: "nat option \<Rightarrow> nat" where
  "norm_start ultimo = (case ultimo of Some u \<Rightarrow> u + 1 | None \<Rightarrow> 0)"

text \<open>How many passes it takes at most until the scan for normal processes reaches slot \<open>p\<close>.\<close>

definition norm_dist :: "nat \<Rightarrow> nat \<Rightarrow> nat" where
  "norm_dist p st = (if st \<le> p then p - st else NPROC - st + 1 + p)"

lemma scheduler_norm_ok:
  assumes "run_contract run c K" "sched_held c (mach s)" "K (procs s)" "norm_start u \<le> NPROC"
    and p: "p < NPROC" "p_prio (procs s p) = NORM_PRIO" "p_state (procs s p) = RUNNABLE"
  shows "wp (scheduler_norm run c u s) (\<lambda>r s'. sched_held c (mach s') \<and> K (procs s') \<and>
    norm_start (fst r) \<le> NPROC \<and>
    (snd r = [p] \<or> norm_dist p (norm_start (fst r)) < norm_dist p (norm_start u)))"
proof -
  let ?P = "\<lambda>p. p_prio (procs s p) = NORM_PRIO \<and> p_state (procs s p) = RUNNABLE"
  have st: "scheduler_norm run c u s = (case find ?P [norm_start u..<NPROC] of
      Some p \<Rightarrow> bindR (dispatch run c p s) (\<lambda>_ s. Ret (if p + 1 \<ge> NPROC then None else Some p, [p]) s)
    | None \<Rightarrow> Ret (None, []) s)"
    by (simp add: scheduler_norm_def norm_start_def Let_def)
  show ?thesis
  proof (cases "find ?P [norm_start u..<NPROC]")
    case None
    then have "\<not> norm_start u \<le> p" using p by (auto simp: find_upt_None)
    then show ?thesis
      using None assms by (simp add: st norm_dist_def) (simp add: norm_start_def)
  next
    case (Some q)
    then have q: "norm_start u \<le> q" "q < NPROC" "?P q" "\<forall>j. norm_start u \<le> j \<and> j < q \<longrightarrow> \<not> ?P j"
      by (simp_all add: find_upt_Some)
    have "q \<le> p" if "norm_start u \<le> p" using q(4) p that by (meson not_le)
    then have d: "q = p \<or> norm_dist p (norm_start (if NPROC \<le> q + 1 then None else Some q)) <
        norm_dist p (norm_start u)"
      using q(1,2) p(1) assms(4) by (auto simp: norm_dist_def norm_start_def)
    have "wp (dispatch run c q s) (\<lambda>_ s'. sched_held c (mach s') \<and> K (procs s'))"
      by (rule dispatch_ok [OF assms(1-3) q(2)]) (use q(3) in simp)
    then show ?thesis
      using Some d q(2) unfolding st
      by (auto simp: norm_start_def elim!: wp_mono split: if_splits)
  qed
qed

lemma scheduler_norm_total:
  assumes "run_contract run c K" "sched_held c (mach s)" "K (procs s)"
  shows "wp (scheduler_norm run c u s) (\<lambda>r s'. sched_held c (mach s') \<and> K (procs s'))"
proof (cases "find (\<lambda>p. p_prio (procs s p) = NORM_PRIO \<and> p_state (procs s p) = RUNNABLE)
    [case u of Some u \<Rightarrow> u + 1 | None \<Rightarrow> 0..<NPROC]")
  case (Some q)
  then have "wp (dispatch run c q s) (\<lambda>_ s'. sched_held c (mach s') \<and> K (procs s'))"
    using assms by (intro dispatch_ok) (auto simp: find_upt_Some)
  then show ?thesis using Some by (auto simp: scheduler_norm_def Let_def elim!: wp_mono)
qed (use assms in \<open>simp add: scheduler_norm_def Let_def\<close>)

text \<open>A pass when a high-priority process is runnable, a pass in general, and a pass without
  any.\<close>

lemma scheduler_pass_hi:
  assumes "run_contract run c K" "sched_idle c (mach s)" "K (procs s)"
  shows "wp (scheduler_pass run c u s) (\<lambda>r s'. sched_idle c (mach s') \<and> K (procs s') \<and>
    ((\<exists>p<NPROC. p_prio (procs s p) = HI_PRIO \<and> p_state (procs s p) = RUNNABLE) \<longrightarrow>
       snd r \<noteq> [] \<and> fst r = u \<and>
       (\<forall>pr. (\<forall>t q. K t \<longrightarrow> p_prio (t q) = pr q) \<longrightarrow> (\<forall>q\<in>set (snd r). pr q = HI_PRIO))))"
proof -
  from acquire_sched [OF assms(2)] obtain m where
    m: "acquire LkPtable (sti s) = Ret () (s\<lparr>mach := m\<rparr>)" "sched_held c m" by blast
  have "wp (scheduler_hi run c [0..<NPROC] [] (s\<lparr>mach := m\<rparr>)) (\<lambda>h s'. sched_held c (mach s') \<and> K (procs s') \<and>
      (\<forall>pr. (\<forall>t q. K t \<longrightarrow> p_prio (t q) = pr q) \<longrightarrow> (\<forall>q\<in>set h. pr q = HI_PRIO)) \<and>
      ((\<exists>p<NPROC. p_prio (procs s p) = HI_PRIO \<and> p_state (procs s p) = RUNNABLE) \<longrightarrow> h \<noteq> []))"
    by (rule wp_mono [OF scheduler_hi_ok [OF assms(1)]]) (use assms(3) m(2) in auto)
  then show ?thesis
    unfolding scheduler_pass_def using m(1)
    by (auto simp: release_sched elim!: wp_mono intro!: wp_mono [OF scheduler_norm_total [OF assms(1)]])
qed

lemma scheduler_pass_norm:
  assumes "run_contract run c K" "sched_idle c (mach s)" "K (procs s)" "norm_start u \<le> NPROC"
    "\<And>q. q < NPROC \<Longrightarrow> p_prio (procs s q) = HI_PRIO \<Longrightarrow> p_state (procs s q) \<noteq> RUNNABLE"
    "p < NPROC" "p_prio (procs s p) = NORM_PRIO" "p_state (procs s p) = RUNNABLE"
  shows "wp (scheduler_pass run c u s) (\<lambda>r s'. sched_idle c (mach s') \<and> K (procs s') \<and>
    norm_start (fst r) \<le> NPROC \<and>
    (snd r = [p] \<or> norm_dist p (norm_start (fst r)) < norm_dist p (norm_start u)))"
proof -
  from acquire_sched [OF assms(2)] obtain m where
    m: "acquire LkPtable (sti s) = Ret () (s\<lparr>mach := m\<rparr>)" "sched_held c m" by blast
  let ?s = "s\<lparr>mach := m\<rparr>"
  have "scheduler_hi run c [0..<NPROC] [] ?s = Ret [] ?s"
    by (rule scheduler_hi_none) (use assms(5) in auto)
  moreover have "wp (scheduler_norm run c u ?s) (\<lambda>r s'. sched_held c (mach s') \<and> K (procs s') \<and>
    norm_start (fst r) \<le> NPROC \<and>
    (snd r = [p] \<or> norm_dist p (norm_start (fst r)) < norm_dist p (norm_start u)))"
    by (rule scheduler_norm_ok [OF assms(1)]) (use m assms in simp_all)
  ultimately show ?thesis
    using m(1) by (auto simp: scheduler_pass_def release_sched elim!: wp_mono)
qed

lemma scheduler_loop_total:
  assumes "run_contract run c K"
  shows "sched_idle c (mach s) \<Longrightarrow> K (procs s) \<Longrightarrow> wp (scheduler_loop n run c u s) (\<lambda>_ _. True)"
proof (induction n arbitrary: u s)
  case (Suc n)
  then show ?case using scheduler_pass_hi [OF assms, of s u] by (auto elim!: wp_mono)
qed simp

lemma scheduler_loop_reaches:
  assumes "run_contract run c K" "sched_idle c (mach s)" "K (procs s)" "norm_start u \<le> NPROC"
    and hi: "\<And>t q. K t \<Longrightarrow> q < NPROC \<Longrightarrow> p_prio (t q) = HI_PRIO \<Longrightarrow> p_state (t q) \<noteq> RUNNABLE"
    and p: "p < NPROC" "\<And>t. K t \<Longrightarrow> p_prio (t p) = NORM_PRIO \<and> p_state (t p) = RUNNABLE"
    and n: "norm_dist p (norm_start u) < n"
  shows "wp (scheduler_loop n run c u s) (\<lambda>rs s'. [p] \<in> set rs)"
  using assms(2-4) n
proof (induction n arbitrary: u s)
  case (Suc n)
  have "wp (scheduler_pass run c u s) (\<lambda>r s'. sched_idle c (mach s') \<and> K (procs s') \<and>
      norm_start (fst r) \<le> NPROC \<and>
      (snd r = [p] \<or> norm_dist p (norm_start (fst r)) < norm_dist p (norm_start u)))"
    by (rule scheduler_pass_norm [OF assms(1)])
       (use Suc.prems hi p(1) p(2) [OF Suc.prems(2)] in auto)
  then have "wp (scheduler_pass run c u s) (\<lambda>r s'.
      wp (scheduler_loop n run c (fst r) s') (\<lambda>rs _. snd r = [p] \<or> [p] \<in> set rs))"
  proof (rule wp_mono, elim conjE disjE)
    fix r :: "nat option \<times> nat list" and s' :: "'a kst_proc_scheme"
    assume "sched_idle c (mach s')" "K (procs s')" "snd r = [p]"
    then show "wp (scheduler_loop n run c (fst r) s') (\<lambda>rs _. snd r = [p] \<or> [p] \<in> set rs)"
      using scheduler_loop_total [OF assms(1)] by simp
  next
    fix r :: "nat option \<times> nat list" and s' :: "'a kst_proc_scheme"
    assume "sched_idle c (mach s')" "K (procs s')" "norm_start (fst r) \<le> NPROC"
      "norm_dist p (norm_start (fst r)) < norm_dist p (norm_start u)"
    with Suc.IH [of s' "fst r"] Suc.prems(4)
    show "wp (scheduler_loop n run c (fst r) s') (\<lambda>rs _. snd r = [p] \<or> [p] \<in> set rs)"
      by (auto elim!: wp_mono)
  qed
  then show ?case by (auto elim!: wp_mono)
qed simp

text \<open>Whatever a pass runs has one of the two priorities.\<close>

lemma scheduler_pass_prio:
  assumes "run_contract run c K" "sched_idle c (mach s)" "K (procs s)"
    and pr: "\<And>t q. K t \<Longrightarrow> p_prio (t q) = pr q"
  shows "wp (scheduler_pass run c u s) (\<lambda>r s'. sched_idle c (mach s') \<and> K (procs s') \<and>
    (\<forall>q\<in>set (snd r). pr q = HI_PRIO \<or> pr q = NORM_PRIO))"
proof -
  from acquire_sched [OF assms(2)] obtain m where
    m: "acquire LkPtable (sti s) = Ret () (s\<lparr>mach := m\<rparr>)" "sched_held c m" by blast
  have hi: "wp (scheduler_hi run c [0..<NPROC] [] (s\<lparr>mach := m\<rparr>)) (\<lambda>h s'. sched_held c (mach s') \<and>
      K (procs s') \<and> (\<forall>q\<in>set h. pr q = HI_PRIO))"
    by (rule wp_mono [OF scheduler_hi_ok [OF assms(1)]]) (use assms(3) m(2) pr in auto)
  have norm: "wp (scheduler_norm run c u t) (\<lambda>r s'. sched_held c (mach s') \<and> K (procs s') \<and>
      (\<forall>q\<in>set (snd r). pr q = NORM_PRIO))" if t: "sched_held c (mach t)" "K (procs t)" for t
  proof (cases "find (\<lambda>p. p_prio (procs t p) = NORM_PRIO \<and> p_state (procs t p) = RUNNABLE)
      [case u of Some u \<Rightarrow> u + 1 | None \<Rightarrow> 0..<NPROC]")
    case (Some q)
    then have "wp (dispatch run c q t) (\<lambda>_ s'. sched_held c (mach s') \<and> K (procs s'))"
      using assms(1) t by (intro dispatch_ok) (auto simp: find_upt_Some)
    moreover have "pr q = NORM_PRIO" using Some pr [OF t(2), of q] by (simp add: find_upt_Some)
    ultimately show ?thesis using Some by (auto simp: scheduler_norm_def Let_def elim!: wp_mono)
  qed (use t in \<open>simp add: scheduler_norm_def Let_def\<close>)
  show ?thesis
    unfolding scheduler_pass_def using m(1) hi
    by (auto simp: release_sched elim!: wp_mono intro!: wp_mono [OF norm])
qed

subsection \<open>Properties\<close>

text \<open>C11: high priority goes first. If a process of priority \<open>HI_PRIO\<close> is runnable when a pass of
  \<open>scheduler\<close> begins, the pass runs at least one process, every process it runs is of priority
  \<open>HI_PRIO\<close>, and the place of the round robin among the normal processes is kept. The running
  processes are asked to come back as \<open>run_contract\<close> says, and to change no priority (\<open>setprio\<close>)
  while the pass lasts.\<close>

theorem hi_priority_first:
  assumes "run_contract run c K" "sched_idle c (mach s)" "K (procs s)"
    "\<And>t q. K t \<Longrightarrow> p_prio (t q) = pr q"
    "p < NPROC" "pr p = HI_PRIO" "p_state (procs s p) = RUNNABLE"
  shows "wp (scheduler_pass run c u s) (\<lambda>r s'. snd r \<noteq> [] \<and> (\<forall>q\<in>set (snd r). pr q = HI_PRIO) \<and>
    fst r = u \<and> sched_idle c (mach s'))"
proof (rule wp_mono [OF scheduler_pass_hi [OF assms(1-3), of u]])
  have "p_prio (procs s p) = HI_PRIO" using assms(3,4,6) by simp
  then show "sched_idle c (mach s') \<and> K (procs s') \<and>
      ((\<exists>p<NPROC. p_prio (procs s p) = HI_PRIO \<and> p_state (procs s p) = RUNNABLE) \<longrightarrow>
        snd r \<noteq> [] \<and> fst r = u \<and>
        (\<forall>pr. (\<forall>t q. K t \<longrightarrow> p_prio (t q) = pr q) \<longrightarrow> (\<forall>q\<in>set (snd r). pr q = HI_PRIO))) \<Longrightarrow>
      snd r \<noteq> [] \<and> (\<forall>q\<in>set (snd r). pr q = HI_PRIO) \<and> fst r = u \<and> sched_idle c (mach s')" for r s'
    using assms(4,5,7) by blast
qed

text \<open>C12: round robin among normal processes. As long as no high-priority process is runnable,
  a runnable process of priority \<open>NORM_PRIO\<close> in slot \<open>p\<close> gets the processor within \<open>NPROC\<close> + 1 passes
  of \<open>scheduler\<close>, wherever the previous pass had stopped.\<close>

theorem norm_round_robin:
  assumes "run_contract run c K" "sched_idle c (mach s)" "K (procs s)"
    "\<And>v. u = Some v \<Longrightarrow> v < NPROC"
    "\<And>t q. K t \<Longrightarrow> q < NPROC \<Longrightarrow> p_prio (t q) = HI_PRIO \<Longrightarrow> p_state (t q) \<noteq> RUNNABLE"
    "p < NPROC" "\<And>t. K t \<Longrightarrow> p_prio (t p) = NORM_PRIO \<and> p_state (t p) = RUNNABLE"
  shows "wp (scheduler_loop (NPROC + 1) run c u s) (\<lambda>rs s'. [p] \<in> set rs)"
proof -
  have "norm_start u \<le> NPROC" using assms(4) by (auto simp: norm_start_def split: option.split)
  moreover from this assms(6) have "norm_dist p (norm_start u) < NPROC + 1"
    by (auto simp: norm_dist_def)
  ultimately show ?thesis
    using assms(5-7) by (intro scheduler_loop_reaches [OF assms(1-3)]) auto
qed

text \<open>C29: priorities read back as written. \<open>setprio\<close> on an existing process returns 0, the next
  \<open>getprio\<close> returns the value, and no other slot changes; on an unknown process both return -1
  and change nothing.\<close>

theorem setprio_getprio:
  assumes "calm (mach s)" "free_lock LkPtable (mach s)"
  shows "(case pid_slot n s of
     Some p \<Rightarrow> \<exists>s'. setprio n pr s = Ret 0 s' \<and> getprio n s' = Ret pr s' \<and>
       (\<forall>q. q \<noteq> p \<longrightarrow> procs s' q = procs s q)
   | None \<Rightarrow> setprio n pr s = Ret (-1) s \<and> getprio n s = Ret (-1) s)"
proof (cases "pid_slot n s")
  case (Some p)
  let ?s = "upd_proc p (\<lambda>q. q\<lparr>p_prio := pr\<rparr>) s"
  have "p_pid (procs ?s q) = p_pid (procs s q)" for q by simp
  then have "pid_slot n ?s = Some p" using Some unfolding pid_slot_def by simp
  then have "getprio n ?s = Ret pr ?s" using assms by (simp add: getprio_calm)
  then show ?thesis using assms Some by (simp add: setprio_calm)
qed (use assms in \<open>simp add: setprio_calm getprio_calm\<close>)

text \<open>C31: only the two priorities are ever scheduled. A process whose priority is set to any other
  value, which \<open>setprio\<close> does not refuse, is run by no pass of the scheduler while it keeps
  that value.\<close>

theorem unknown_prio_never_runs:
  assumes "run_contract run c K" "sched_idle c (mach s)" "K (procs s)"
    "\<And>t q. K t \<Longrightarrow> p_prio (t q) = pr q" "pr p \<noteq> NORM_PRIO" "pr p \<noteq> HI_PRIO"
  shows "wp (scheduler_loop n run c u s) (\<lambda>rs s'. p \<notin> (\<Union>h\<in>set rs. set h))"
  using assms(2,3)
proof (induction n arbitrary: u s)
  case (Suc n)
  have "wp (scheduler_pass run c u s) (\<lambda>r s'. sched_idle c (mach s') \<and> K (procs s') \<and> p \<notin> set (snd r))"
    by (rule wp_mono [OF scheduler_pass_prio [of run c K s pr u]])
       (use assms(1,4-6) Suc.prems in auto)
  then show ?case using Suc.IH by (auto elim!: wp_mono)
qed simp

subsection \<open>A concrete table\<close>

definition tf0 :: trapframe where
  "tf0 = \<lparr>tf_edi = 0, tf_esi = 0, tf_ebp = 0, tf_oesp = 0, tf_ebx = 0, tf_edx = 0, tf_ecx = 0,
     tf_eax = 0, tf_gs = 0, tf_fs = 0, tf_es = 0, tf_ds = 0, tf_trapno = 0, tf_err = 0, tf_eip = 0,
     tf_cs = 0, tf_eflags = 0, tf_esp = 0, tf_ss = 0\<rparr>"

definition proc0 :: proc where
  "proc0 = \<lparr>p_sz = 0, p_pgdir = 0, p_kstack = 0, p_state = UNUSED, p_pid = 0, p_parent = None,
     p_tf = tf0, p_context = context0, p_chan = None, p_killed = False, p_ofile = (\<lambda>_. None),
     p_cwd = None, p_name = (\<lambda>_. 0), p_exit_status = 0, p_guard_page = 0, p_prio = 0\<rparr>"

definition proc1 :: proc where
  "proc1 = proc0\<lparr>p_state := RUNNABLE, p_pid := 7, p_kstack := 0x80300000, p_pgdir := 0x80301000\<rparr>"

text \<open>Slot 3 is runnable with priority \<open>pr\<close>, every other slot is unused.\<close>

definition table3 :: "uint \<Rightarrow> nat \<Rightarrow> proc" where
  "table3 pr = (\<lambda>_. proc0)(3 := proc1\<lparr>p_prio := pr\<rparr>)"

definition kst_proc3 :: "uint \<Rightarrow> kst_proc" where
  "kst_proc3 pr = \<lparr>mach = mach0, mem = (\<lambda>_. 0), kmem = \<lparr>use_lock = 1, freelist = 0\<rparr>, kend = 0x80100000,
     kpgdir = 0, kdata = 0x80108000, cr3 = 0, procs = table3 pr, nextpid = 8, initproc = Some 3,
     forkret_addr = 0, trapret_addr = 0\<rparr>"

text \<open>A process that gives the processor back at once.\<close>

definition run_yield :: "nat \<Rightarrow> 'z kst_proc_scheme \<Rightarrow> 'z kst_proc_scheme" where
  "run_yield p s = upd_proc p (\<lambda>q. q\<lparr>p_state := RUNNABLE\<rparr>) s"

lemma run_yield_contract: "run_contract run_yield 0 (\<lambda>t. t = table3 pr)"
  by (auto simp: run_contract_def run_yield_def table3_def proc0_def proc1_def)

lemma sched_idle_mach0 [simp]: "sched_idle 0 mach0"
  by (simp add: sched_idle_def mycli_def) (simp add: mach0_def)

lemma kst_proc3_simps [simp]: "mach (kst_proc3 pr) = mach0" "procs (kst_proc3 pr) = table3 pr"
  by (simp_all add: kst_proc3_def)

lemma table3_simps [simp]:
  "p_prio (table3 pr 3) = pr" "p_state (table3 pr 3) = RUNNABLE" "q \<noteq> 3 \<Longrightarrow> table3 pr q = proc0"
  by (simp_all add: table3_def proc1_def)

theorem hi_priority_first_witness:
  "wp (scheduler_pass run_yield 0 None (kst_proc3 HI_PRIO)) (\<lambda>r s'. snd r \<noteq> [])"
  by (rule wp_mono [OF hi_priority_first [OF run_yield_contract [of HI_PRIO], where p = 3 and
        pr = "\<lambda>q. p_prio (table3 HI_PRIO q)"]]) (simp_all add: NPROC_def)

theorem norm_round_robin_witness:
  "wp (scheduler_loop (NPROC + 1) run_yield 0 (Some 5) (kst_proc3 NORM_PRIO)) (\<lambda>rs s'. [3] \<in> set rs)"
  by (rule norm_round_robin [OF run_yield_contract [of NORM_PRIO]])
     (auto simp: NPROC_def table3_def proc0_def proc1_def NORM_PRIO_def HI_PRIO_def)

theorem unknown_prio_never_runs_witness:
  "wp (scheduler_loop 5 run_yield 0 None (kst_proc3 2)) (\<lambda>rs s'. 3 \<notin> (\<Union>h\<in>set rs. set h))"
  by (rule unknown_prio_never_runs [OF run_yield_contract [of 2], where
        pr = "\<lambda>q. p_prio (table3 2 q)"]) (simp_all add: NORM_PRIO_def HI_PRIO_def)

theorem setprio_getprio_witness:
  "\<exists>s'. setprio 7 HI_PRIO (kst_proc3 NORM_PRIO) = Ret 0 s' \<and> getprio 7 s' = Ret HI_PRIO s'"
proof -
  have "pid_slot 7 (kst_proc3 NORM_PRIO) = Some 3"
    by (auto simp: pid_slot_def find_upt_Some NPROC_def table3_def proc0_def proc1_def)
  then show ?thesis using setprio_getprio [of "kst_proc3 NORM_PRIO" 7 HI_PRIO] by auto
qed

text \<open>The machine with process 3 running on its processor.\<close>

definition mach3 :: mach where
  "mach3 = mach0\<lparr>cpus := (\<lambda>_. (cpus mach0 0)\<lparr>cproc := Some 3\<rparr>)\<rparr>"

lemma mach3_simps [simp]: "cpu_index mach3 = Some 0" "me mach3 = 0" "cpu_ok mach3" "free_lock l mach3"
  "mycli mach3 = 0" "curproc mach3 = Some 3" "calm mach3"
proof -
  show i: "cpu_index mach3 = Some 0" by (simp add: mach3_def mach0_def cpu_index_def)
  then show m: "me mach3 = 0" by (simp add: me_def)
  show c: "mycli mach3 = 0" "curproc mach3 = Some 3"
    unfolding mycli_def curproc_def m by (simp_all add: mach3_def mach0_def)
  show "free_lock l mach3" by (simp add: free_lock_def mach3_def mach0_def)
  show ok: "cpu_ok mach3" using i c by (simp add: cpu_ok_def)
  have "settle mach3 = mach3"
    unfolding settle_def m c(1) by (simp add: mach3_def mach0_def fun_upd_idem)
  with ok show "calm mach3" by (simp add: calm_def)
qed

end
