(* ===== verification/Xv6_Multi.thy ===== *)
theory Xv6_Multi
  imports Xv6_Proc
begin

section \<open>Several processors: no wakeup is lost (proc.c: sleep, wakeup)\<close>

text \<open>
  The steps of \<open>sleep\<close> and \<open>wakeup\<close> on several processors that share the kernel state. A processor works on
  the shared state with its own identifier and its own interrupt flag; the processors take turns in any order, one
  step each, and a processor whose next step is \<open>acquire\<close> of a lock that is held waits. When \<open>sched\<close> switches
  away from a process, the scheduler of that processor goes on and releases \<open>ptable.lock\<close>.
\<close>

record 'z multi =
  kern :: "'z kst_proc_scheme"
  mflag :: "nat \<Rightarrow> bool"
  prog :: "nat \<Rightarrow> pact list"

definition on_cpu :: "nat \<Rightarrow> 'z multi \<Rightarrow> 'z kst_proc_scheme" where
  "on_cpu c g = (kern g)\<lparr>mach := (mach (kern g))\<lparr>lapicid := apicid (cpus (mach (kern g)) c), iflag := mflag g c\<rparr>\<rparr>"

definition off_cpu :: "nat \<Rightarrow> 'z kst_proc_scheme \<Rightarrow> pact list \<Rightarrow> 'z multi \<Rightarrow> 'z multi" where
  "off_cpu c s as g = g\<lparr>kern := s, mflag := (mflag g)(c := iflag (mach s)), prog := (prog g)(c := as)\<rparr>"

inductive multi_step :: "'z multi \<Rightarrow> 'z multi \<Rightarrow> bool" where
  act: "prog g c = a # as \<Longrightarrow> do_act a (on_cpu c g) = Ret () s \<Longrightarrow> multi_step g (off_cpu c s as g)"
| switch: "prog g c = a # as \<Longrightarrow> do_act a (on_cpu c g) = Swtch s \<Longrightarrow> multi_step g (off_cpu c s [ARelease LkPtable] g)"

text \<open>A process that wakes sleepers up inside the section of the lock \<open>lk\<close>, as \<open>pipewrite\<close> or \<open>releasesleep\<close> do.\<close>

definition waker_acts :: "chan \<Rightarrow> lockid \<Rightarrow> pact list" where
  "waker_acts ch lk = [AAcquire lk] @ wakeup_acts ch @ [ARelease lk]"

subsection \<open>Who holds which lock\<close>

definition cpu_at :: "nat \<Rightarrow> mach \<Rightarrow> bool" where
  "cpu_at c m \<longleftrightarrow> find (\<lambda>i. apicid (cpus m i) = apicid (cpus m c)) [0..<ncpu m] = Some c"

definition owned :: "nat option \<Rightarrow> spinlock \<Rightarrow> bool" where
  "owned w k \<longleftrightarrow> (case w of None \<Rightarrow> locked k = 0 \<and> lkcpu k = None | Some c \<Rightarrow> locked k = 1 \<and> lkcpu k = Some c)"

text \<open>Processor \<open>c\<close> has the nesting depth \<open>N c\<close>, and the locks in \<open>L\<close> are held as \<open>W\<close> says.\<close>

definition good :: "nat set \<Rightarrow> lockid set \<Rightarrow> (lockid \<Rightarrow> nat option) \<Rightarrow> (nat \<Rightarrow> int) \<Rightarrow> 'z multi \<Rightarrow> bool" where
  "good C L W N g \<longleftrightarrow>
     (\<forall>c \<in> C. cpu_at c (mach (kern g)) \<and> ncli (cpus (mach (kern g)) c) = N c \<and> 0 \<le> N c \<and> (0 < N c \<longrightarrow> \<not> mflag g c)) \<and>
     (\<forall>l \<in> L. owned (W l) (locks (mach (kern g)) l))"

lemma on_cpu_simps [simp]:
  "procs (on_cpu c g) = procs (kern g)" "cpus (mach (on_cpu c g)) = cpus (mach (kern g))"
  "locks (mach (on_cpu c g)) = locks (mach (kern g))" "iflag (mach (on_cpu c g)) = mflag g c"
  "ncpu (mach (on_cpu c g)) = ncpu (mach (kern g))"
  by (simp_all add: on_cpu_def)

lemma off_cpu_simps [simp]:
  "kern (off_cpu c s as g) = s" "prog (off_cpu c s as g) = (prog g)(c := as)"
  "mflag (off_cpu c s as g) = (mflag g)(c := iflag (mach s))"
  by (simp_all add: off_cpu_def)

lemma good_cpu:
  assumes "good C L W N g" "c \<in> C"
  shows "me (mach (on_cpu c g)) = c" "mycli (mach (on_cpu c g)) = N c" "cpu_ok (mach (on_cpu c g))"
proof -
  have i: "cpu_index (mach (on_cpu c g)) = Some c"
    using assms by (auto simp: good_def cpu_at_def cpu_index_def on_cpu_def)
  then show m: "me (mach (on_cpu c g)) = c" by (simp add: me_def)
  then show n: "mycli (mach (on_cpu c g)) = N c" using assms by (simp add: mycli_def good_def)
  show "cpu_ok (mach (on_cpu c g))" using i n assms by (auto simp: cpu_ok_def good_def)
qed

lemma cpu_at_cong: "(\<And>i. apicid (cpus m i) = apicid (cpus m' i)) \<Longrightarrow> ncpu m = ncpu m' \<Longrightarrow> cpu_at c m = cpu_at c m'"
  by (simp add: cpu_at_def)

text \<open>The steps, by who holds the locks.\<close>

lemma acquire_step:
  assumes "good C L W N g" "c \<in> C" "l \<in> L" "W l = None"
  shows "\<exists>s. do_act (AAcquire l) (on_cpu c g) = Ret () s \<and> procs s = procs (kern g) \<and>
    (\<forall>d. cproc (cpus (mach s) d) = cproc (cpus (mach (kern g)) d)) \<and>
    good C L (W(l := Some c)) (N(c := N c + 1)) (off_cpu c s as g)"
proof -
  note G = good_cpu [OF assms(1,2)]
  let ?m = "mach (on_cpu c g)" and ?s = "(on_cpu c g)\<lparr>mach := acq l (mach (on_cpu c g))\<rparr>"
  have f: "free_lock l ?m" using assms by (auto simp: good_def owned_def free_lock_def)
  have a: "do_act (AAcquire l) (on_cpu c g) = Ret () ?s" using acquire_ok [OF G(3) f] by simp
  have c: "cpus (acq l ?m) = (cpus ?m)(c := (cpus ?m c)\<lparr>intena := (if N c = 0 then iflag ?m else intena (cpus ?m c)), ncli := N c + 1\<rparr>)"
    "locks (acq l ?m) = (locks ?m)(l := (locks ?m l)\<lparr>locked := 1, lkcpu := Some c\<rparr>)" "ncpu (acq l ?m) = ncpu ?m" "\<not> iflag (acq l ?m)"
    using G by (simp_all add: acq_def taken_def cpus_eq) (simp add: pushed_def)
  have "cpu_at d (acq l ?m) = cpu_at d (mach (kern g))" for d by (rule cpu_at_cong) (simp_all add: c)
  then have "good C L (W(l := Some c)) (N(c := N c + 1)) (off_cpu c ?s as g)"
    using assms(1,2) by (auto simp: good_def c owned_def split: option.splits)
  then show ?thesis using a c by (intro exI [of _ ?s]) auto
qed

lemma acquire_waits:
  assumes "good C L W N g" "c \<in> C" "l \<in> L" "W l = Some d" "d \<noteq> c"
  shows "\<exists>s. do_act (AAcquire l) (on_cpu c g) = Spin l s"
proof -
  note G = good_cpu [OF assms(1,2)]
  have "locked (locks (mach (kern g)) l) = 1" "lkcpu (locks (mach (kern g)) l) = Some d"
    using assms(1,3,4) by (auto simp: good_def owned_def)
  then show ?thesis using G assms(5)
    by (simp add: acquire_def pushcli_ok holding_ok xchg_def Let_def upd_lock_def)
qed

lemma release_step:
  assumes "good C L W N g" "c \<in> C" "l \<in> L" "W l = Some c" "0 < N c"
  shows "\<exists>s. do_act (ARelease l) (on_cpu c g) = Ret () s \<and> procs s = procs (kern g) \<and>
    (\<forall>d. cproc (cpus (mach s) d) = cproc (cpus (mach (kern g)) d)) \<and>
    good C L (W(l := None)) (N(c := N c - 1)) (off_cpu c s as g)"
proof -
  note G = good_cpu [OF assms(1,2)]
  let ?m = "mach (on_cpu c g)" and ?s = "(on_cpu c g)\<lparr>mach := rel l (mach (on_cpu c g))\<rparr>"
  have f: "held l ?m" using assms G by (auto simp: good_def owned_def held_def)
  have a: "do_act (ARelease l) (on_cpu c g) = Ret () ?s" using release_ok [OF G(3) f] G assms(5) by simp
  have c: "cpus (rel l ?m) = (cpus ?m)(c := (cpus ?m c)\<lparr>ncli := N c - 1\<rparr>)"
    "locks (rel l ?m) = (locks ?m)(l := (locks ?m l)\<lparr>lkcpu := None, locked := 0\<rparr>)" "ncpu (rel l ?m) = ncpu ?m"
    using G by (simp_all add: rel_def cpus_eq) (simp_all add: dropped_def popped_def)
  have "iflag (rel l ?m) \<Longrightarrow> mycli (dropped l ?m) = 1" by (simp add: rel_def popped_def)
  then have i: "iflag (rel l ?m) \<Longrightarrow> N c = 1" using G(2) by simp
  have "cpu_at d (rel l ?m) = cpu_at d (mach (kern g))" for d by (rule cpu_at_cong) (simp_all add: c)
  then have "good C L (W(l := None)) (N(c := N c - 1)) (off_cpu c ?s as g)"
    using assms(1,2,5) i by (auto simp: good_def c owned_def split: option.splits)
  then show ?thesis using a c by (intro exI [of _ ?s]) auto
qed

lemma good_procs: "mach s = mach (on_cpu c g) \<Longrightarrow> good C L W N (off_cpu c s as g) = good C L W N g"
proof -
  assume m: "mach s = mach (on_cpu c g)"
  have "cpu_at d (mach s) = cpu_at d (mach (kern g))" for d by (rule cpu_at_cong) (simp_all add: m)
  then show ?thesis by (auto simp: good_def m)
qed

lemma good_cong:
  "good C L W N g \<Longrightarrow> (\<And>l. l \<in> L \<Longrightarrow> W' l = W l) \<Longrightarrow> (\<And>c. c \<in> C \<Longrightarrow> N' c = N c) \<Longrightarrow> good C L W' N' g"
  by (simp add: good_def)

lemma sched_step:
  assumes "good C L W N g" "c \<in> C" "LkPtable \<in> L" "W LkPtable = Some c" "N c = 1"
    "cproc (cpus (mach (kern g)) c) = Some p" "p_state (procs (kern g) p) \<noteq> RUNNING"
  shows "do_act ASched (on_cpu c g) = Swtch (on_cpu c g)"
proof -
  note G = good_cpu [OF assms(1,2)]
  have h: "held LkPtable (mach (on_cpu c g))" using assms G by (auto simp: good_def owned_def held_def)
  have "settle (mach (on_cpu c g)) = mach (on_cpu c g)" unfolding settle_def using G assms(5) by (simp add: fun_upd_idem)
  then have "calm (mach (on_cpu c g))" using G(3) by (simp add: calm_def)
  then show ?thesis using sched_swtch [OF _ h, of p] G assms(5-7) by (simp add: curproc_def)
qed

subsection \<open>A sleeper and a waker\<close>

text \<open>What processor \<open>c\<close> does next, if it can.\<close>

definition exec :: "nat \<Rightarrow> 'z multi \<Rightarrow> 'z multi option" where
  "exec c g = (case prog g c of [] \<Rightarrow> None
     | a # as \<Rightarrow> (case do_act a (on_cpu c g) of
         Ret _ s \<Rightarrow> Some (off_cpu c s as g) | Swtch s \<Rightarrow> Some (off_cpu c s [ARelease LkPtable] g) | _ \<Rightarrow> None))"

definition panics :: "nat \<Rightarrow> 'z multi \<Rightarrow> bool" where
  "panics c g = (case prog g c of [] \<Rightarrow> False
     | a # as \<Rightarrow> (case do_act a (on_cpu c g) of Panic _ \<Rightarrow> True | Undef \<Rightarrow> True | _ \<Rightarrow> False))"

lemma multi_step_iff: "multi_step g h \<longleftrightarrow> (\<exists>c. exec c g = Some h)"
proof
  assume "multi_step g h"
  then show "\<exists>c. exec c g = Some h"
  proof cases
    case (act c a as s)
    then have "exec c g = Some h" by (simp add: exec_def)
    then show ?thesis ..
  next
    case (switch c a as s)
    then have "exec c g = Some h" by (simp add: exec_def)
    then show ?thesis ..
  qed
next
  assume "\<exists>c. exec c g = Some h"
  then obtain c where c: "exec c g = Some h" ..
  then obtain a as where p: "prog g c = a # as" by (cases "prog g c") (auto simp: exec_def)
  show "multi_step g h"
    using c p multi_step.intros [OF p] by (cases "do_act a (on_cpu c g)") (auto simp: exec_def)
qed

text \<open>
  How far the sleeper on processor \<open>c1\<close> and the waker on \<open>c2\<close> have come: \<open>i\<close> and \<open>j\<close> steps. From the two positions
  follow the holders of the two locks, the nesting depths, and the state of the sleeping process \<open>p\<close>.
\<close>

definition sleeper_prog :: "nat \<Rightarrow> chan \<Rightarrow> lockid \<Rightarrow> nat \<Rightarrow> pact list" where
  "sleeper_prog p ch lk i = (if i \<le> 4 then drop i (sleep_acts p ch lk) else drop (i - 5) [ARelease LkPtable])"

definition holder :: "nat \<Rightarrow> nat \<Rightarrow> nat \<Rightarrow> nat \<Rightarrow> lockid \<Rightarrow> nat option" where
  "holder c1 c2 i j l =
     (if l = LkPtable
      then if i \<in> {1..5} then Some c1 else if j \<in> {2, 3} then Some c2 else None
      else if i \<le> 1 then Some c1 else if j \<in> {1..4} then Some c2 else None)"

definition depth :: "nat \<Rightarrow> nat \<Rightarrow> nat \<Rightarrow> nat \<Rightarrow> int" where
  "depth c1 i j c =
     (if c = c1 then if i = 1 then 2 else if i \<le> 5 then 1 else 0
      else if j \<in> {2, 3} then 2 else if j \<in> {1, 4} then 1 else 0)"

definition slept :: "chan \<Rightarrow> nat \<Rightarrow> nat \<Rightarrow> proc \<Rightarrow> bool" where
  "slept ch i j q \<longleftrightarrow> (i \<le> 3 \<longrightarrow> p_state q = RUNNING) \<and> (3 \<le> i \<longrightarrow> p_chan q = Some ch) \<and>
     (4 \<le> i \<longrightarrow> p_state q = (if j \<le> 2 then SLEEPING else RUNNABLE))"

definition sw_inv :: "nat \<Rightarrow> nat \<Rightarrow> nat \<Rightarrow> chan \<Rightarrow> lockid \<Rightarrow> nat \<Rightarrow> nat \<Rightarrow> 'z multi \<Rightarrow> bool" where
  "sw_inv c1 c2 p ch lk i j g \<longleftrightarrow> i \<le> 6 \<and> j \<le> 5 \<and> (i \<le> 1 \<longrightarrow> j = 0) \<and> (i \<le> 5 \<longrightarrow> j \<le> 1) \<and>
     prog g = (\<lambda>_. [])(c1 := sleeper_prog p ch lk i, c2 := drop j (waker_acts ch lk)) \<and>
     good {c1, c2} {lk, LkPtable} (holder c1 c2 i j) (depth c1 i j) g \<and>
     cproc (cpus (mach (kern g)) c1) = Some p \<and> slept ch i j (procs (kern g) p)"

lemma sw_invI:
  assumes "i \<le> 6" "j \<le> 5" "i \<le> 1 \<longrightarrow> j = 0" "i \<le> 5 \<longrightarrow> j \<le> 1"
    "prog g = (\<lambda>_. [])(c1 := sleeper_prog p ch lk i, c2 := drop j (waker_acts ch lk))"
    "good {c1, c2} {lk, LkPtable} W N g" "\<And>l. l \<in> {lk, LkPtable} \<Longrightarrow> holder c1 c2 i j l = W l"
    "\<And>c. c \<in> {c1, c2} \<Longrightarrow> depth c1 i j c = N c"
    "cproc (cpus (mach (kern g)) c1) = Some p" "slept ch i j (procs (kern g) p)"
  shows "sw_inv c1 c2 p ch lk i j g"
  unfolding sw_inv_def using assms good_cong [OF assms(6-8)] by simp


lemma sw_invD:
  assumes "sw_inv c1 c2 p ch lk i j g" "c1 \<noteq> c2"
  shows "prog g c1 = sleeper_prog p ch lk i" "prog g c2 = drop j (waker_acts ch lk)" "c \<noteq> c1 \<Longrightarrow> c \<noteq> c2 \<Longrightarrow> prog g c = []"
    "good {c1, c2} {lk, LkPtable} (holder c1 c2 i j) (depth c1 i j) g"
    "cproc (cpus (mach (kern g)) c1) = Some p" "slept ch i j (procs (kern g) p)"
    "i \<le> 6" "j \<le> 5" "i \<le> 1 \<Longrightarrow> j = 0" "i \<le> 5 \<Longrightarrow> j \<le> 1"
  using assms by (auto simp: sw_inv_def)

text \<open>One step of the sleeper, and one of the waker: the next positions.\<close>

lemma sleeper_next:
  assumes I: "sw_inv c1 c2 p ch lk i j g" "c1 \<noteq> c2" "i < 6"
    and a: "do_act a (on_cpu c1 g) = Ret () s \<and> sleeper_prog p ch lk i = a # sleeper_prog p ch lk (Suc i) \<or>
      do_act a (on_cpu c1 g) = Swtch s \<and> sleeper_prog p ch lk i = [a] \<and> sleeper_prog p ch lk (Suc i) = [ARelease LkPtable]"
    and g: "good {c1, c2} {lk, LkPtable} W N (off_cpu c1 s (sleeper_prog p ch lk (Suc i)) g)"
      "\<And>l. l \<in> {lk, LkPtable} \<Longrightarrow> holder c1 c2 (Suc i) j l = W l" "\<And>c. c \<in> {c1, c2} \<Longrightarrow> depth c1 (Suc i) j c = N c"
    and k: "cproc (cpus (mach s) c1) = Some p" "slept ch (Suc i) j (procs s p)"
  shows "\<exists>h. exec c1 g = Some h \<and> sw_inv c1 c2 p ch lk (Suc i) j h"
proof -
  note D = sw_invD [OF I(1,2)]
  let ?h = "off_cpu c1 s (sleeper_prog p ch lk (Suc i)) g"
  have "exec c1 g = Some ?h" using a D(1) by (auto simp: exec_def)
  moreover have "sw_inv c1 c2 p ch lk (Suc i) j ?h"
    by (rule sw_invI [OF _ _ _ _ _ g]) (use I D(2,3,8-10) k in \<open>auto simp: fun_eq_iff\<close>)
  ultimately show ?thesis by blast
qed

lemma waker_next:
  assumes I: "sw_inv c1 c2 p ch lk i j g" "c1 \<noteq> c2" "j < 5" "2 \<le> i" "j = 0 \<or> i = 6"
    and a: "do_act (waker_acts ch lk ! j) (on_cpu c2 g) = Ret () s"
    and g: "good {c1, c2} {lk, LkPtable} W N (off_cpu c2 s (drop (Suc j) (waker_acts ch lk)) g)"
      "\<And>l. l \<in> {lk, LkPtable} \<Longrightarrow> holder c1 c2 i (Suc j) l = W l" "\<And>c. c \<in> {c1, c2} \<Longrightarrow> depth c1 i (Suc j) c = N c"
    and k: "cproc (cpus (mach s) c1) = Some p" "slept ch i (Suc j) (procs s p)"
  shows "\<exists>h. exec c2 g = Some h \<and> sw_inv c1 c2 p ch lk i (Suc j) h"
proof -
  note D = sw_invD [OF I(1,2)]
  let ?h = "off_cpu c2 s (drop (Suc j) (waker_acts ch lk)) g"
  have "drop j (waker_acts ch lk) = waker_acts ch lk ! j # drop (Suc j) (waker_acts ch lk)"
    using I(3) by (intro Cons_nth_drop_Suc [symmetric]) (simp add: waker_acts_def wakeup_acts_def)
  then have "exec c2 g = Some ?h" using a D(2) by (simp add: exec_def)
  moreover have "sw_inv c1 c2 p ch lk i (Suc j) ?h"
    by (rule sw_invI [OF _ _ _ _ _ g]) (use I D(1,3,7) k in \<open>auto simp: fun_eq_iff\<close>)
  ultimately show ?thesis by blast
qed

lemma sleeper_exec:
  assumes I: "sw_inv c1 c2 p ch lk i j g" and c: "c1 \<noteq> c2" and lk: "lk \<noteq> LkPtable" and i: "i < 6"
  shows "\<exists>h. exec c1 g = Some h \<and> sw_inv c1 c2 p ch lk (Suc i) j h"
proof -
  note D = sw_invD [OF I c] and G = sw_invD(4) [OF I c]
  note defs = sleeper_prog_def sleep_acts_def holder_def depth_def slept_def
  consider "i = 0" | "i = 1 \<or> i = 5" | "i = 2 \<or> i = 3" | "i = 4" using i by linarith
  then show ?thesis
  proof cases
    case 1
    from acquire_step [OF G, of c1 LkPtable "sleeper_prog p ch lk (Suc i)"] 1 D(9)
    obtain s where s: "do_act (AAcquire LkPtable) (on_cpu c1 g) = Ret () s" "procs s = procs (kern g)"
      "\<forall>d. cproc (cpus (mach s) d) = cproc (cpus (mach (kern g)) d)"
      "good {c1, c2} {lk, LkPtable} ((holder c1 c2 i j)(LkPtable := Some c1)) ((depth c1 i j)(c1 := depth c1 i j c1 + 1))
        (off_cpu c1 s (sleeper_prog p ch lk (Suc i)) g)"
      by (auto simp: holder_def)
    show ?thesis
      by (rule sleeper_next [OF I c i _ s(4), where a = "AAcquire LkPtable"]) (use s D lk 1 in \<open>auto simp: defs\<close>)
  next
    case 2
    let ?l = "if i = 1 then lk else LkPtable"
    from release_step [OF G, of c1 ?l "sleeper_prog p ch lk (Suc i)"] 2 lk
    obtain s where s: "do_act (ARelease ?l) (on_cpu c1 g) = Ret () s" "procs s = procs (kern g)"
      "\<forall>d. cproc (cpus (mach s) d) = cproc (cpus (mach (kern g)) d)"
      "good {c1, c2} {lk, LkPtable} ((holder c1 c2 i j)(?l := None)) ((depth c1 i j)(c1 := depth c1 i j c1 - 1))
        (off_cpu c1 s (sleeper_prog p ch lk (Suc i)) g)"
      by (auto simp: holder_def depth_def)
    show ?thesis
      by (rule sleeper_next [OF I c i _ s(4), where a = "ARelease ?l"]) (use s D lk c 2 in \<open>auto simp: defs\<close>)
  next
    case 3
    let ?a = "if i = 2 then AChan p ch else AState p SLEEPING"
    obtain s where s: "do_act ?a (on_cpu c1 g) = Ret () s" "mach s = mach (on_cpu c1 g)"
        "procs s p = (if i = 2 then (procs (kern g) p)\<lparr>p_chan := Some ch\<rparr> else (procs (kern g) p)\<lparr>p_state := SLEEPING\<rparr>)"
      by (cases "i = 2") (auto simp: upd_proc_def)
    show ?thesis
      by (rule sleeper_next [OF I c i, where a = ?a and s = s and W = "holder c1 c2 i j" and N = "depth c1 i j"])
        (use s D lk c 3 in \<open>auto simp: defs good_procs\<close>)
  next
    case 4
    have "do_act ASched (on_cpu c1 g) = Swtch (on_cpu c1 g)"
      using sched_step [OF G, of c1 p] D(5,6,10) 4 by (auto simp: defs)
    then show ?thesis
      by (intro sleeper_next [OF I c i, where a = ASched and s = "on_cpu c1 g" and W = "holder c1 c2 i j" and N = "depth c1 i j"])
        (use D lk c 4 in \<open>auto simp: defs good_procs\<close>)
  qed
qed


lemma waker_waits:
  assumes I: "sw_inv c1 c2 p ch lk i j g" and c: "c1 \<noteq> c2" and lk: "lk \<noteq> LkPtable"
    and w: "i \<le> 1 \<and> j = 0 \<or> i \<le> 5 \<and> j = 1"
  shows "exec c2 g = None \<and> \<not> panics c2 g"
proof -
  note D = sw_invD [OF I c]
  let ?l = "if j = 0 then lk else LkPtable"
  have h: "?l \<in> {lk, LkPtable}" "holder c1 c2 i j ?l = Some c1" using w D(9) lk by (auto simp: holder_def)
  obtain s where "do_act (AAcquire ?l) (on_cpu c2 g) = Spin ?l s"
    using acquire_waits [OF D(4) _ h c] by blast
  then show ?thesis using D(2) w by (auto simp: exec_def panics_def waker_acts_def wakeup_acts_def)
qed

lemma waker_exec:
  assumes I: "sw_inv c1 c2 p ch lk i j g" and c: "c1 \<noteq> c2" and lk: "lk \<noteq> LkPtable" and p: "p < NPROC"
    and j: "j < 5" "\<not> (i \<le> 1 \<and> j = 0 \<or> i \<le> 5 \<and> j = 1)"
  shows "\<exists>h. exec c2 g = Some h \<and> sw_inv c1 c2 p ch lk i (Suc j) h"
proof -
  note D = sw_invD [OF I c] and G = sw_invD(4) [OF I c]
  have ij: "2 \<le> i" "j = 0 \<or> i = 6" using D(7,9,10) j by linarith+
  note N = waker_next [OF I c j(1) ij]
  note defs = waker_acts_def wakeup_acts_def holder_def depth_def slept_def
  consider "j \<le> 1" | "j = 2" | "j = 3 \<or> j = 4" using j(1) by linarith
  then show ?thesis
  proof cases
    case 1
    let ?l = "if j = 0 then lk else LkPtable"
    have h: "?l \<in> {lk, LkPtable}" "holder c1 c2 i j ?l = None" using 1 ij lk by (auto simp: holder_def)
    from acquire_step [OF G _ h, of c2 "drop (Suc j) (waker_acts ch lk)"]
    obtain s where s: "do_act (AAcquire ?l) (on_cpu c2 g) = Ret () s" "procs s = procs (kern g)"
      "\<forall>d. cproc (cpus (mach s) d) = cproc (cpus (mach (kern g)) d)"
      "good {c1, c2} {lk, LkPtable} ((holder c1 c2 i j)(?l := Some c2)) ((depth c1 i j)(c2 := depth c1 i j c2 + 1))
        (off_cpu c2 s (drop (Suc j) (waker_acts ch lk)) g)"
      by blast
    show ?thesis by (rule N [OF _ s(4)]) (use s D lk c 1 ij in \<open>auto simp: defs le_Suc_eq\<close>)
  next
    case 2
    let ?s = "wakeup1 ch (on_cpu c2 g)"
    show ?thesis
      by (rule N [where s = ?s and W = "holder c1 c2 i j" and N = "depth c1 i j"])
        (use D lk c p 2 ij in \<open>auto simp: defs good_procs wakeup1_def\<close>)
  next
    case 3
    let ?l = "if j = 3 then LkPtable else lk"
    have h: "?l \<in> {lk, LkPtable}" "holder c1 c2 i j ?l = Some c2" "0 < depth c1 i j c2"
      using 3 ij lk c by (auto simp: holder_def depth_def)
    from release_step [OF G _ h, of "drop (Suc j) (waker_acts ch lk)"]
    obtain s where s: "do_act (ARelease ?l) (on_cpu c2 g) = Ret () s" "procs s = procs (kern g)"
      "\<forall>d. cproc (cpus (mach s) d) = cproc (cpus (mach (kern g)) d)"
      "good {c1, c2} {lk, LkPtable} ((holder c1 c2 i j)(?l := None)) ((depth c1 i j)(c2 := depth c1 i j c2 - 1))
        (off_cpu c2 s (drop (Suc j) (waker_acts ch lk)) g)"
      by blast
    show ?thesis by (rule N [OF _ s(4)]) (use s D lk c 3 ij in \<open>auto simp: defs\<close>)
  qed
qed

text \<open>Every run stays on these positions, and from every one of them both can go on to the end.\<close>

lemma sw_reachable:
  assumes "multi_step\<^sup>*\<^sup>* g h" "sw_inv c1 c2 p ch lk 0 0 g" "c1 \<noteq> c2" "lk \<noteq> LkPtable" "p < NPROC"
  shows "\<exists>i j. sw_inv c1 c2 p ch lk i j h"
  using assms(1)
proof (induction rule: rtranclp_induct)
  case base
  then show ?case using assms(2) by blast
next
  case (step h k)
  then obtain i j c where I: "sw_inv c1 c2 p ch lk i j h" and e: "exec c h = Some k" by (auto simp: multi_step_iff)
  note D = sw_invD [OF I assms(3)]
  consider "c = c1" "i < 6" | "c = c2" "j < 5"
  proof -
    have "prog h c \<noteq> []" using e by (auto simp: exec_def)
    moreover have "prog h c1 = []" if "i = 6" using D(1) that by (simp add: sleeper_prog_def)
    moreover have "prog h c2 = []" if "j = 5" using D(2) that by (simp add: waker_acts_def wakeup_acts_def)
    ultimately show ?thesis using that D(3) [of c] D(7,8) by (metis le_neq_implies_less)
  qed
  then show ?case
  proof cases
    case 1
    then show ?thesis using sleeper_exec [OF I assms(3,4)] e by auto
  next
    case 2
    then show ?thesis using waker_exec [OF I assms(3-5)] waker_waits [OF I assms(3,4)] e by (metis option.distinct(1) option.inject)
  qed
qed

lemma sw_finishes:
  assumes "sw_inv c1 c2 p ch lk i j g" "c1 \<noteq> c2" "lk \<noteq> LkPtable" "p < NPROC"
  shows "\<exists>h. multi_step\<^sup>*\<^sup>* g h \<and> sw_inv c1 c2 p ch lk 6 5 h"
  using assms(1)
proof (induction "11 - (i + j)" arbitrary: i j g rule: less_induct)
  case less
  note D = sw_invD [OF less.prems assms(2)]
  have more: "\<exists>h. multi_step\<^sup>*\<^sup>* g h \<and> sw_inv c1 c2 p ch lk 6 5 h"
    if "exec c g = Some k" "sw_inv c1 c2 p ch lk i' j' k" "i' + j' = Suc (i + j)" "i + j < 11" for c k i' j'
  proof -
    have "multi_step g k" using that(1) by (auto simp: multi_step_iff)
    moreover have lt: "11 - (i' + j') < 11 - (i + j)" using that(3,4) by simp
    obtain h where "multi_step\<^sup>*\<^sup>* k h" "sw_inv c1 c2 p ch lk 6 5 h"
      using less.hyps [OF lt \<open>sw_inv c1 c2 p ch lk i' j' k\<close>] by blast
    ultimately show ?thesis by (meson converse_rtranclp_into_rtranclp)
  qed
  consider "i < 6" | "i = 6" "j < 5" | "i = 6" "j = 5" using D(7,8) by linarith
  then show ?case
  proof cases
    case 1
    then show ?thesis using sleeper_exec [OF less.prems assms(2,3)] more D(8) by fastforce
  next
    case 2
    then show ?thesis using waker_exec [OF less.prems assms(2-4)] more by fastforce
  qed (use less.prems in blast)
qed


lemma exec_not_panics: "exec c g = Some h \<Longrightarrow> \<not> panics c g"
  by (auto simp: exec_def panics_def split: list.splits res.splits)

lemma sw_no_panic:
  assumes "sw_inv c1 c2 p ch lk i j g" "c1 \<noteq> c2" "lk \<noteq> LkPtable" "p < NPROC"
  shows "\<not> panics c g"
proof -
  note D = sw_invD [OF assms(1,2)]
  have idle: "\<not> panics d g" if "prog g d = []" for d using that by (simp add: panics_def)
  have "\<not> panics c1 g"
    using sleeper_exec [OF assms(1-3)] exec_not_panics D(1,7) idle [of c1]
    by (cases "i < 6") (auto simp: sleeper_prog_def)
  moreover have "\<not> panics c2 g"
  proof (cases "j < 5")
    case True
    then show ?thesis using waker_exec [OF assms] waker_waits [OF assms(1-3)] exec_not_panics by blast
  qed (use D(2,8) idle [of c2] in \<open>simp add: waker_acts_def wakeup_acts_def\<close>)
  ultimately show ?thesis using D(3) [of c] idle by blast
qed

subsection \<open>Properties\<close>

text \<open>
  C9: no wakeup is lost. A process that runs on processor \<open>c1\<close> and holds the lock \<open>lk\<close> calls \<open>sleep\<close> on a channel; at the same
  time processor \<open>c2\<close> takes \<open>lk\<close>, calls \<open>wakeup\<close> on that channel and releases \<open>lk\<close>. However their steps alternate,
  neither processor ever panics, when the waker is through the process is runnable and not asleep, and from every
  state on the way both can go on until they are through: there is no deadlock.
\<close>

theorem sleep_wakeup_not_lost:
  assumes "c1 \<noteq> c2" "lk \<noteq> LkPtable" "p < NPROC"
    "good {c1, c2} {lk, LkPtable} ((\<lambda>_. None)(lk := Some c1)) ((\<lambda>_. 0)(c1 := 1)) g"
    "cproc (cpus (mach (kern g)) c1) = Some p" "p_state (procs (kern g) p) = RUNNING"
    "prog g = (\<lambda>_. [])(c1 := sleep_acts p ch lk, c2 := waker_acts ch lk)" "multi_step\<^sup>*\<^sup>* g h"
  shows "(prog h c2 = [] \<longrightarrow> p_state (procs (kern h) p) = RUNNABLE) \<and> (\<forall>c. \<not> panics c h) \<and>
    (\<exists>k. multi_step\<^sup>*\<^sup>* h k \<and> prog k c1 = [] \<and> prog k c2 = [] \<and> p_state (procs (kern k) p) = RUNNABLE)"
proof -
  have "sw_inv c1 c2 p ch lk 0 0 g"
    by (rule sw_invI [OF _ _ _ _ _ assms(4)])
      (use assms(1,2,5-7) in \<open>auto simp: holder_def depth_def slept_def sleeper_prog_def\<close>)
  then obtain i j where I: "sw_inv c1 c2 p ch lk i j h" using sw_reachable [OF assms(8) _ assms(1-3)] by blast
  note D = sw_invD [OF I assms(1)]
  have "p_state (procs (kern h) p) = RUNNABLE" if "prog h c2 = []"
  proof -
    have "j = 5" using D(2,8) that by (auto simp: waker_acts_def wakeup_acts_def)
    then show ?thesis using D(6,7,10) by (cases "i \<le> 5") (auto simp: slept_def)
  qed
  moreover obtain k where k: "multi_step\<^sup>*\<^sup>* h k" "sw_inv c1 c2 p ch lk 6 5 k" using sw_finishes [OF I assms(1-3)] by blast
  moreover note E = sw_invD [OF k(2) assms(1)]
  moreover have "prog k c1 = []" "prog k c2 = []" "p_state (procs (kern k) p) = RUNNABLE"
    using E(1,2,6) by (simp_all add: sleeper_prog_def waker_acts_def wakeup_acts_def slept_def)
  ultimately show ?thesis using sw_no_panic [OF I assms(1-3)] by blast
qed

text \<open>Two processors; process 3 runs on the first one and holds the lock of the clock.\<close>

definition multi2 :: "unit multi" where
  "multi2 = \<lparr>kern = (kst_proc3 NORM_PRIO)\<lparr>
     mach := mach3\<lparr>ncpu := 2, cpus := (\<lambda>i. (cpus mach3 i)\<lparr>apicid := i, ncli := (if i = 0 then 1 else 0), cproc := (if i = 0 then Some 3 else None)\<rparr>),
       locks := (locks mach3)(LkTicks := (locks mach3 LkTicks)\<lparr>locked := 1, lkcpu := Some 0\<rparr>)\<rparr>,
     procs := (\<lambda>p. (table3 NORM_PRIO p)\<lparr>p_state := RUNNING\<rparr>)\<rparr>,
     mflag = (\<lambda>_. False), prog = (\<lambda>_. [])(0 := sleep_acts 3 ChTicks LkTicks, 1 := waker_acts ChTicks LkTicks)\<rparr>"

theorem sleep_wakeup_not_lost_witness:
  "\<exists>k. multi_step\<^sup>*\<^sup>* multi2 k \<and> prog k 0 = [] \<and> prog k 1 = [] \<and> p_state (procs (kern k) 3) = RUNNABLE"
proof -
  have f: "[0..<2] = [0, 1]" by (simp add: upt_rec)
  have "free_lock LkPtable mach3" by simp
  then have g: "good {0, 1} {LkTicks, LkPtable} ((\<lambda>_. None)(LkTicks := Some 0)) ((\<lambda>_. 0)(0 := 1)) multi2"
    by (auto simp: good_def multi2_def cpu_at_def owned_def free_lock_def f)
  show ?thesis
    using sleep_wakeup_not_lost [OF _ _ _ g, of 3 ChTicks multi2] by (auto simp: multi2_def NPROC_def)
qed


end
