(* ===== verification/Xv6_Sleeplock.thy ===== *)
theory Xv6_Sleeplock
  imports Xv6_Proc
begin

section \<open>Sleep-locks (sleeplock.c)\<close>

text \<open>
  A lock a process may hold while it sleeps. \<open>acquiresleep\<close> waits in a loop around \<open>sleep\<close>; the body
  of the loop is \<open>acquiresleep_loop\<close>, which runs at the first call and, through
  \<open>acquiresleep_return\<close>, each time the process is woken. Exclusion is stated over arbitrary
  interleavings of the sections that the inner spin-lock makes atomic.
\<close>

record sleeplock =
  sl_locked :: uint
  sl_name :: string
  sl_pid :: int

record kst_slp = kst_proc +
  slocks :: "sleepid \<Rightarrow> sleeplock"

definition upd_slock ::
  "sleepid \<Rightarrow> (sleeplock \<Rightarrow> sleeplock) \<Rightarrow> 'z kst_slp_scheme \<Rightarrow> 'z kst_slp_scheme" where
  "upd_slock k f s = s\<lparr>slocks := (slocks s)(k := f (slocks s k))\<rparr>"

definition initsleeplock :: "sleepid \<Rightarrow> string \<Rightarrow> 'z kst_slp_scheme \<Rightarrow> 'z kst_slp_scheme" where
  "initsleeplock k name s =
     upd_slock k (\<lambda>_. \<lparr>sl_locked = 0, sl_name = name, sl_pid = 0\<rparr>)
       (initlock (LkSleep k) ''sleep lock'' s)"

definition acquiresleep_loop :: "sleepid \<Rightarrow> 'z kst_slp_scheme \<Rightarrow> (unit, 'z kst_slp_scheme) res" where
  "acquiresleep_loop k s =
     (if sl_locked (slocks s k) \<noteq> 0 then sleep (ChSleep k) (LkSleep k) s
      else let s = upd_slock k (\<lambda>l. l\<lparr>sl_locked := 1\<rparr>) s in
           bindR (myproc s) (\<lambda>p s.
           case p of None \<Rightarrow> Undef
           | Some p \<Rightarrow>
               release (LkSleep k) (upd_slock k (\<lambda>l. l\<lparr>sl_pid := p_pid (procs s p)\<rparr>) s)))"

definition acquiresleep :: "sleepid \<Rightarrow> 'z kst_slp_scheme \<Rightarrow> (unit, 'z kst_slp_scheme) res" where
  "acquiresleep k s = bindR (acquire (LkSleep k) s) (\<lambda>_ s. acquiresleep_loop k s)"

definition acquiresleep_return ::
  "bool \<Rightarrow> nat \<Rightarrow> sleepid \<Rightarrow> 'z kst_slp_scheme \<Rightarrow> (unit, 'z kst_slp_scheme) res" where
  "acquiresleep_return ie p k s =
     bindR (sleep_return ie p (LkSleep k) s) (\<lambda>_ s. acquiresleep_loop k s)"

definition releasesleep :: "sleepid \<Rightarrow> 'z kst_slp_scheme \<Rightarrow> (unit, 'z kst_slp_scheme) res" where
  "releasesleep k s =
     bindR (acquire (LkSleep k) s) (\<lambda>_ s.
     let s = upd_slock k (\<lambda>l. l\<lparr>sl_locked := 0, sl_pid := 0\<rparr>) s in
     bindR (wakeup (ChSleep k) s) (\<lambda>_ s.
     release (LkSleep k) s))"

definition holdingsleep :: "sleepid \<Rightarrow> 'z kst_slp_scheme \<Rightarrow> (bool, 'z kst_slp_scheme) res" where
  "holdingsleep k s =
     bindR (acquire (LkSleep k) s) (\<lambda>_ s.
     bindR (if sl_locked (slocks s k) \<noteq> 0
            then bindR (myproc s) (\<lambda>p s.
                 case p of None \<Rightarrow> Undef
                 | Some p \<Rightarrow> Ret (sl_pid (slocks s k) = p_pid (procs s p)) s)
            else Ret False s) (\<lambda>r s.
     bindR (release (LkSleep k) s) (\<lambda>_ s.
     Ret r s)))"

subsection \<open>Effects\<close>

text \<open>
  Code of process \<open>p\<close> that runs alone in the file system: it is the current process of a
  processor in order, no spin-lock is taken, and no process sleeps on a channel of the file
  system, so a \<open>wakeup\<close> there finds nobody.
\<close>

definition fs_chan :: "chan \<Rightarrow> bool" where
  "fs_chan ch \<longleftrightarrow> (case ch of ChLog \<Rightarrow> True | ChBuf _ \<Rightarrow> True | ChSleep _ \<Rightarrow> True | _ \<Rightarrow> False)"

definition alone :: "nat \<Rightarrow> mach \<Rightarrow> (nat \<Rightarrow> proc) \<Rightarrow> bool" where
  "alone p m t \<longleftrightarrow> calm m \<and> curproc m = Some p \<and> (\<forall>l. free_lock l m) \<and>
     (\<forall>q < NPROC. p_state (t q) = SLEEPING \<longrightarrow> (\<forall>ch. p_chan (t q) = Some ch \<longrightarrow> \<not> fs_chan ch))"

lemma aloneD:
  assumes "alone p m t"
  shows "calm m" "curproc m = Some p" "free_lock l m"
  using assms by (simp_all add: alone_def)

lemma wakeup1_alone: "alone p m (procs s) \<Longrightarrow> fs_chan ch \<Longrightarrow> wakeup1 ch s = s"
proof -
  assume *: "alone p m (procs s)" "fs_chan ch"
  have "(\<lambda>q. if q < NPROC \<and> p_state (procs s q) = SLEEPING \<and> p_chan (procs s q) = Some ch
      then (procs s q)\<lparr>p_state := RUNNABLE\<rparr> else procs s q) = procs s"
    using * by (auto simp: alone_def fun_eq_iff)
  then show ?thesis by (simp add: wakeup1_def)
qed

lemma upd_slock_simps [simp]:
  "mach (upd_slock k f s) = mach s" "procs (upd_slock k f s) = procs s"
  "slocks (upd_slock k f s) = (slocks s)(k := f (slocks s k))"
  "upd_slock k f (s\<lparr>mach := m\<rparr>) = (upd_slock k f s)\<lparr>mach := m\<rparr>"
  "(upd_slock k f s)\<lparr>mach := mach s\<rparr> = upd_slock k f s"
  by (simp_all add: upd_slock_def)

lemma acquiresleep_alone:
  assumes "alone p (mach s) (procs s)" "sl_locked (slocks s k) = 0"
  shows "acquiresleep k s =
    Ret () (upd_slock k (\<lambda>l. l\<lparr>sl_locked := 1, sl_pid := p_pid (procs s p)\<rparr>) s)"
  using assms(2) aloneD [OF assms(1)]
  by (simp add: acquiresleep_def acquiresleep_loop_def acquire_calm release_calm myproc_calm Let_def
      upd_slock_def)

lemma releasesleep_alone:
  assumes "alone p (mach s) (procs s)"
  shows "releasesleep k s = Ret () (upd_slock k (\<lambda>l. l\<lparr>sl_locked := 0, sl_pid := 0\<rparr>) s)"
proof -
  let ?s = "upd_slock k (\<lambda>l. l\<lparr>sl_locked := 0, sl_pid := 0\<rparr>) s"
  have "wakeup1 (ChSleep k) ?s = ?s"
    by (rule wakeup1_alone) (use assms in \<open>auto simp: fs_chan_def\<close>)
  then show ?thesis
    using aloneD [OF assms]
    by (simp add: releasesleep_def acquire_calm release_calm wakeup_calm Let_def)
qed

lemma holdingsleep_alone:
  assumes "alone p (mach s) (procs s)"
  shows "holdingsleep k s =
    Ret (sl_locked (slocks s k) \<noteq> 0 \<and> sl_pid (slocks s k) = p_pid (procs s p)) s"
  using aloneD [OF assms]
  by (simp add: holdingsleep_def acquire_calm release_calm myproc_calm)

text \<open>A lock that is taken puts the caller to sleep on the lock's channel.\<close>

lemma acquiresleep_taken:
  assumes "alone p (mach s) (procs s)" "sl_locked (slocks s k) \<noteq> 0" "mycli (mach s) = 0"
  shows "\<exists>s'. acquiresleep k s = Swtch s' \<and> slocks s' = slocks s \<and>
    p_state (procs s' p) = SLEEPING \<and> p_chan (procs s' p) = Some (ChSleep k)"
  using assms(2,3) aloneD [OF assms(1)]
    sleep_swtch [of "mach s" p "LkSleep k" "s\<lparr>mach := acq (LkSleep k) (mach s)\<rparr>" "ChSleep k"]
  by (auto simp: acquiresleep_def acquiresleep_loop_def acquire_calm) (simp add: upd_proc_def)

subsection \<open>Properties\<close>

lemma releasesleep_calm:
  assumes "calm (mach s)" "free_lock (LkSleep k) (mach s)" "free_lock LkPtable (mach s)"
  shows "releasesleep k s =
    Ret () (wakeup1 (ChSleep k) (upd_slock k (\<lambda>l. l\<lparr>sl_locked := 0, sl_pid := 0\<rparr>) s))"
proof -
  let ?m = "acq (LkSleep k) (mach s)"
  let ?s = "upd_slock k (\<lambda>l. l\<lparr>sl_locked := 0, sl_pid := 0\<rparr>) s"
  have "wakeup (ChSleep k) (?s\<lparr>mach := ?m\<rparr>) = Ret () (wakeup1 (ChSleep k) (?s\<lparr>mach := ?m\<rparr>))"
    by (rule wakeup_calm) (use assms in simp_all)
  moreover have "(wakeup1 (ChSleep k) ?s)\<lparr>mach := mach s\<rparr> = wakeup1 (ChSleep k) ?s"
    using wakeup1_simps(7) [where ch = "ChSleep k" and s = ?s] by simp
  ultimately show ?thesis
    using assms by (simp add: releasesleep_def acquire_calm release_calm Let_def)
qed

text \<open>C22: a sleep-lock that is held does not let anybody in: \<open>acquiresleep\<close> puts the caller to sleep on
  the lock and changes no lock, and \<open>releasesleep\<close> frees the lock and makes every process that
  sleeps on it runnable, so that none is left behind.\<close>

theorem sleeplock_handover:
  fixes s :: "'z kst_slp_scheme"
  assumes "calm (mach s)" "mycli (mach s) = 0" "curproc (mach s) = Some p"
    "free_lock (LkSleep k) (mach s)" "free_lock LkPtable (mach s)" "sl_locked (slocks s k) \<noteq> 0"
  shows "\<exists>s1 s2. acquiresleep k s = Swtch s1 \<and> slocks s1 = slocks s \<and>
    p_state (procs s1 p) = SLEEPING \<and> p_chan (procs s1 p) = Some (ChSleep k) \<and>
    releasesleep k s = Ret () s2 \<and> sl_locked (slocks s2 k) = 0 \<and> mach s2 = mach s \<and>
    {q. q < NPROC \<and> p_state (procs s2 q) = SLEEPING \<and> p_chan (procs s2 q) = Some (ChSleep k)} = {} \<and>
    (\<forall>q. p_chan (procs s q) \<noteq> Some (ChSleep k) \<longrightarrow> procs s2 q = procs s q)"
proof -
  let ?s2 = "wakeup1 (ChSleep k) (upd_slock k (\<lambda>l. l\<lparr>sl_locked := 0, sl_pid := 0\<rparr>) s)"
  let ?s1 = "upd_proc p (\<lambda>q. q\<lparr>p_chan := Some (ChSleep k), p_state := SLEEPING\<rparr>)
    (s\<lparr>mach := acq LkPtable (mach s)\<rparr>)"
  have "acquiresleep k s = Swtch ?s1"
    using assms sleep_swtch [OF assms(1-5), of "s\<lparr>mach := acq (LkSleep k) (mach s)\<rparr>" "ChSleep k"]
    by (simp add: acquiresleep_def acquiresleep_loop_def acquire_calm)
  then show ?thesis
    using releasesleep_calm [OF assms(1,4,5)]
    by (intro exI [of _ ?s1] exI [of _ ?s2]) (auto simp: upd_proc_def wakeup1_def)
qed

theorem sleeplock_handover_witness:
  "\<exists>s :: kst_slp. \<exists>s1 s2. sl_locked (slocks s (SlInode 0)) = 1 \<and> acquiresleep (SlInode 0) s = Swtch s1 \<and>
    p_state (procs s1 3) = SLEEPING \<and> releasesleep (SlInode 0) s = Ret () s2 \<and> sl_locked (slocks s2 (SlInode 0)) = 0"
proof -
  define s :: kst_slp where "s = kst_proc.extend (kst_proc3 NORM_PRIO) \<lparr>slocks = (\<lambda>_. \<lparr>sl_locked = 1, sl_name = '''', sl_pid = 9\<rparr>)\<rparr>"
  let ?s = "s\<lparr>mach := mach3\<rparr>"
  have "sl_locked (slocks ?s (SlInode 0)) = 1" by (simp add: s_def kst_proc.defs)
  then show ?thesis
    using sleeplock_handover [of ?s 3 "SlInode 0"] by - (rule exI [of _ ?s], auto)
qed

end
