(* ===== verification/Xv6_Bio.thy ===== *)
theory Xv6_Bio
  imports Xv6_Sleeplock
begin

section \<open>Memory disk and buffer cache (memide.c, bio.c, buf.h)\<close>

text \<open>
  The disk is the one of \<open>memide.c\<close>, whose requests complete at once: a block is the function
  that gives its bytes, of which the first \<open>BSIZE\<close> count. \<open>dwrites\<close> records the completed block
  writes, latest last; no code reads it, it is there to speak of a crash in the middle of a
  sequence of writes. Pointers between buffers are indices, the list head is index \<open>NBUF\<close>.
  A walk along the list that does not come back to the head within the number of buffers has
  no outcome in the model; for the lists that occur this is shown not to happen.
\<close>

record buf =
  b_flags :: uint
  b_dev :: uint
  b_blockno :: uint
  b_refcnt :: uint
  b_prev :: nat
  b_next :: nat
  b_qnext :: "nat option"
  b_data :: bytes

record kst_bio = kst_slp +
  disk :: "uint \<Rightarrow> bytes"
  disksize :: uint
  dwrites :: "(uint \<times> bytes) list"
  bufs :: "nat \<Rightarrow> buf"

definition B_VALID :: uint where "B_VALID = 2"
definition B_DIRTY :: uint where "B_DIRTY = 4"

definition upd_buf :: "nat \<Rightarrow> (buf \<Rightarrow> buf) \<Rightarrow> 'z kst_bio_scheme \<Rightarrow> 'z kst_bio_scheme" where
  "upd_buf b f s = s\<lparr>bufs := (bufs s)(b := f (bufs s b))\<rparr>"

subsection \<open>memide.c\<close>

definition ideinit :: "(uint \<Rightarrow> bytes) \<Rightarrow> uint \<Rightarrow> 'z kst_bio_scheme \<Rightarrow> 'z kst_bio_scheme" where
  "ideinit img imgsize s = s\<lparr>disk := img, disksize := imgsize div of_nat BSIZE\<rparr>"

definition iderw :: "nat \<Rightarrow> 'z kst_bio_scheme \<Rightarrow> (unit, 'z kst_bio_scheme) res" where
  "iderw b s =
     bindR (holdingsleep (SlBuf b) s) (\<lambda>h s.
     if \<not> h then Panic ''iderw: buf not locked''
     else if b_flags (bufs s b) AND (B_VALID OR B_DIRTY) = B_VALID then Panic ''iderw: nothing to do''
     else if b_dev (bufs s b) \<noteq> 1 then Panic ''iderw: request not for disk 1''
     else if b_blockno (bufs s b) \<ge> disksize s then Panic ''iderw: block out of range''
     else
       let p = b_blockno (bufs s b);
           s = (if b_flags (bufs s b) AND B_DIRTY \<noteq> 0
                then let s = upd_buf b (\<lambda>k. k\<lparr>b_flags := b_flags k AND NOT B_DIRTY\<rparr>) s
                     in s\<lparr>disk := (disk s)(p := b_data (bufs s b)),
                          dwrites := dwrites s @ [(p, b_data (bufs s b))]\<rparr>
                else upd_buf b (\<lambda>k. k\<lparr>b_data := disk s p\<rparr>) s)
       in Ret () (upd_buf b (\<lambda>k. k\<lparr>b_flags := b_flags k OR B_VALID\<rparr>) s))"

subsection \<open>bio.c\<close>

primrec binit_loop :: "nat list \<Rightarrow> 'z kst_bio_scheme \<Rightarrow> 'z kst_bio_scheme" where
  "binit_loop [] s = s"
| "binit_loop (b # bs) s =
     (let s = upd_buf b (\<lambda>k. k\<lparr>b_next := b_next (bufs s NBUF)\<rparr>) s;
          s = upd_buf b (\<lambda>k. k\<lparr>b_prev := NBUF\<rparr>) s;
          s = initsleeplock (SlBuf b) ''buffer'' s;
          s = upd_buf (b_next (bufs s NBUF)) (\<lambda>k. k\<lparr>b_prev := b\<rparr>) s;
          s = upd_buf NBUF (\<lambda>k. k\<lparr>b_next := b\<rparr>) s
      in binit_loop bs s)"

definition binit :: "'z kst_bio_scheme \<Rightarrow> 'z kst_bio_scheme" where
  "binit s =
     (let s = initlock LkBcache ''bcache'' s;
          s = upd_buf NBUF (\<lambda>k. k\<lparr>b_prev := NBUF\<rparr>) s;
          s = upd_buf NBUF (\<lambda>k. k\<lparr>b_next := NBUF\<rparr>) s
      in binit_loop [0..<NBUF] s)"

text \<open>The two scans of \<open>bget\<close>, from the most and from the least recently used buffer: the first
  buffer with the property, or the head.\<close>

fun scan_next :: "(buf \<Rightarrow> bool) \<Rightarrow> nat \<Rightarrow> nat \<Rightarrow> (nat \<Rightarrow> buf) \<Rightarrow> nat option" where
  "scan_next P 0 b t = None"
| "scan_next P (Suc n) b t =
     (if b = NBUF then Some NBUF else if P (t b) then Some b
      else scan_next P n (b_next (t b)) t)"

fun scan_prev :: "(buf \<Rightarrow> bool) \<Rightarrow> nat \<Rightarrow> nat \<Rightarrow> (nat \<Rightarrow> buf) \<Rightarrow> nat option" where
  "scan_prev P 0 b t = None"
| "scan_prev P (Suc n) b t =
     (if b = NBUF then Some NBUF else if P (t b) then Some b
      else scan_prev P n (b_prev (t b)) t)"

definition bget :: "uint \<Rightarrow> uint \<Rightarrow> 'z kst_bio_scheme \<Rightarrow> (nat, 'z kst_bio_scheme) res" where
  "bget dev blockno s =
     bindR (acquire LkBcache s) (\<lambda>_ s.
     case scan_next (\<lambda>k. b_dev k = dev \<and> b_blockno k = blockno) (Suc NBUF)
            (b_next (bufs s NBUF)) (bufs s) of
       None \<Rightarrow> Undef
     | Some b \<Rightarrow>
         if b \<noteq> NBUF
         then let s = upd_buf b (\<lambda>k. k\<lparr>b_refcnt := b_refcnt k + 1\<rparr>) s
              in bindR (release LkBcache s) (\<lambda>_ s.
                 bindR (acquiresleep (SlBuf b) s) (\<lambda>_ s. Ret b s))
         else case scan_prev (\<lambda>k. b_refcnt k = 0 \<and> b_flags k AND B_DIRTY = 0) (Suc NBUF)
                     (b_prev (bufs s NBUF)) (bufs s) of
                None \<Rightarrow> Undef
              | Some b \<Rightarrow>
                  if b \<noteq> NBUF
                  then let s = upd_buf b (\<lambda>k. k\<lparr>b_dev := dev, b_blockno := blockno, b_flags := 0,
                                 b_refcnt := 1\<rparr>) s
                       in bindR (release LkBcache s) (\<lambda>_ s.
                          bindR (acquiresleep (SlBuf b) s) (\<lambda>_ s. Ret b s))
                  else Panic ''bget: no buffers'')"

definition bread :: "uint \<Rightarrow> uint \<Rightarrow> 'z kst_bio_scheme \<Rightarrow> (nat, 'z kst_bio_scheme) res" where
  "bread dev blockno s =
     bindR (bget dev blockno s) (\<lambda>b s.
     bindR (if b_flags (bufs s b) AND B_VALID = 0 then iderw b s else Ret () s) (\<lambda>_ s.
     Ret b s))"

definition bwrite :: "nat \<Rightarrow> 'z kst_bio_scheme \<Rightarrow> (unit, 'z kst_bio_scheme) res" where
  "bwrite b s =
     bindR (holdingsleep (SlBuf b) s) (\<lambda>h s.
     if \<not> h then Panic ''bwrite''
     else iderw b (upd_buf b (\<lambda>k. k\<lparr>b_flags := b_flags k OR B_DIRTY\<rparr>) s))"

definition brelse :: "nat \<Rightarrow> 'z kst_bio_scheme \<Rightarrow> (unit, 'z kst_bio_scheme) res" where
  "brelse b s =
     bindR (holdingsleep (SlBuf b) s) (\<lambda>h s.
     if \<not> h then Panic ''brelse''
     else
       bindR (releasesleep (SlBuf b) s) (\<lambda>_ s.
       bindR (acquire LkBcache s) (\<lambda>_ s.
       let s = upd_buf b (\<lambda>k. k\<lparr>b_refcnt := b_refcnt k - 1\<rparr>) s;
           s = (if b_refcnt (bufs s b) = 0
                then
                  let s = upd_buf (b_next (bufs s b)) (\<lambda>k. k\<lparr>b_prev := b_prev (bufs s b)\<rparr>) s;
                      s = upd_buf (b_prev (bufs s b)) (\<lambda>k. k\<lparr>b_next := b_next (bufs s b)\<rparr>) s;
                      s = upd_buf b (\<lambda>k. k\<lparr>b_next := b_next (bufs s NBUF)\<rparr>) s;
                      s = upd_buf b (\<lambda>k. k\<lparr>b_prev := NBUF\<rparr>) s;
                      s = upd_buf (b_next (bufs s NBUF)) (\<lambda>k. k\<lparr>b_prev := b\<rparr>) s
                  in upd_buf NBUF (\<lambda>k. k\<lparr>b_next := b\<rparr>) s
                else s)
       in release LkBcache s)))"

subsection \<open>The doubly linked list\<close>

text \<open>\<open>chain nx pv a xs c\<close>: following \<open>nx\<close> from \<open>a\<close> one passes through \<open>xs\<close> and arrives at \<open>c\<close>, and
  \<open>pv\<close> leads back.\<close>

primrec chain :: "(nat \<Rightarrow> nat) \<Rightarrow> (nat \<Rightarrow> nat) \<Rightarrow> nat \<Rightarrow> nat list \<Rightarrow> nat \<Rightarrow> bool" where
  "chain nx pv a [] c \<longleftrightarrow> nx a = c \<and> pv c = a"
| "chain nx pv a (x # xs) c \<longleftrightarrow> nx a = x \<and> pv x = a \<and> chain nx pv x xs c"

definition ring :: "(nat \<Rightarrow> nat) \<Rightarrow> (nat \<Rightarrow> nat) \<Rightarrow> nat list \<Rightarrow> bool" where
  "ring nx pv xs \<longleftrightarrow> chain nx pv NBUF xs NBUF \<and> distinct xs \<and> NBUF \<notin> set xs"

lemma chain_append:
  "chain nx pv a (xs @ x # ys) c \<longleftrightarrow> chain nx pv a xs x \<and> chain nx pv x ys c"
  by (induction xs arbitrary: a) auto

lemma chain_frame:
  assumes "\<And>y. y \<in> insert a (set xs) \<Longrightarrow> nx' y = nx y" "\<And>y. y \<in> insert c (set xs) \<Longrightarrow> pv' y = pv y"
  shows "chain nx' pv' a xs c = chain nx pv a xs c"
  using assms by (induction xs arbitrary: a) auto

lemma chain_nx: "chain nx pv a xs c \<Longrightarrow> nx a \<in> insert c (set xs)"
  by (cases xs) auto

lemma chain_pv: "chain nx pv a xs c \<Longrightarrow> pv c = last (a # xs)"
  by (induction xs arbitrary: a) auto

lemma ring_insert:
  assumes "ring nx pv xs" "i \<notin> set xs" "i \<noteq> NBUF"
  shows "ring (nx(i := nx NBUF, NBUF := i)) (pv(i := NBUF, nx NBUF := i)) (i # xs)"
proof (cases xs)
  case Nil
  then show ?thesis using assms by (auto simp: ring_def)
next
  case (Cons x ys)
  let ?nx = "nx(i := nx NBUF, NBUF := i)" and ?pv = "pv(i := NBUF, nx NBUF := i)"
  have x: "nx NBUF = x" "pv x = NBUF" "chain nx pv x ys NBUF" "x \<noteq> i" "x \<noteq> NBUF" "x \<notin> set ys"
    using assms Cons by (auto simp: ring_def)
  have "chain ?nx ?pv x ys NBUF = chain nx pv x ys NBUF"
    by (rule chain_frame) (use assms Cons x in \<open>auto simp: ring_def\<close>)
  then show ?thesis using assms Cons x by (auto simp: ring_def)
qed

lemma chain_unlink:
  assumes "chain nx pv a us i" "chain nx pv i vs d" "distinct (us @ i # vs)"
    "a \<notin> set us \<union> set vs \<union> {i}" "d \<notin> set us \<union> set vs \<union> {i}"
  shows "chain (nx(pv i := nx i)) (pv(nx i := pv i)) a (us @ vs) d"
  using assms
proof (induction us arbitrary: a)
  case Nil
  then have a: "nx a = i" "pv i = a" by simp_all
  show ?case
  proof (cases vs)
    case (Cons v ws)
    then have v: "nx i = v" "chain nx pv v ws d" "v \<notin> set ws" using Nil.prems by auto
    have "chain (nx(a := v)) (pv(v := a)) v ws d = chain nx pv v ws d"
      by (rule chain_frame) (use Nil.prems Cons v in auto)
    then show ?thesis using a v Cons by (simp add: fun_upd_def)
  qed (use Nil.prems a in simp)
next
  case (Cons u us)
  have "chain (nx(pv i := nx i)) (pv(nx i := pv i)) u (us @ vs) d"
    using Cons.prems by (intro Cons.IH) auto
  moreover have "pv i \<in> insert u (set us)"
    using chain_pv [of nx pv u us i] Cons.prems(1) by (metis chain.simps(2) last_in_set list.set(2) neq_Nil_conv)
  moreover have "nx i \<in> insert d (set vs)" using Cons.prems(2) by (rule chain_nx)
  ultimately show ?case using Cons.prems by (auto simp: fun_upd_def)
qed

lemma ring_unlink:
  assumes "ring nx pv xs" "i \<in> set xs"
  shows "ring (nx(pv i := nx i)) (pv(nx i := pv i)) (remove1 i xs)"
proof -
  obtain us vs where xs: "xs = us @ i # vs" "i \<notin> set us" using split_list_first [OF assms(2)] by blast
  then have "remove1 i xs = us @ vs" by (simp add: remove1_append)
  moreover have "chain (nx(pv i := nx i)) (pv(nx i := pv i)) NBUF (us @ vs) NBUF"
    by (rule chain_unlink) (use assms(1) xs in \<open>auto simp: ring_def chain_append\<close>)
  ultimately show ?thesis using assms(1) xs by (auto simp: ring_def)
qed

text \<open>The scans of \<open>bget\<close> find the first match in list order.\<close>

lemma scan_next_find:
  assumes "chain (\<lambda>i. b_next (t i)) pv a xs NBUF" "NBUF \<notin> set xs" "length xs < n"
  shows "scan_next P n (b_next (t a)) t =
    Some (case find (\<lambda>i. P (t i)) xs of Some b \<Rightarrow> b | None \<Rightarrow> NBUF)"
  using assms
proof (induction xs arbitrary: a n)
  case Nil
  then show ?case by (cases n) auto
next
  case (Cons x xs)
  then obtain m where "n = Suc m" by (cases n) auto
  with Cons show ?case by auto
qed

lemma scan_prev_find:
  assumes "chain nx (\<lambda>i. b_prev (t i)) NBUF xs c" "NBUF \<notin> set xs" "length xs < n"
  shows "scan_prev P n (b_prev (t c)) t =
    Some (case find (\<lambda>i. P (t i)) (rev xs) of Some b \<Rightarrow> b | None \<Rightarrow> NBUF)"
  using assms
proof (induction xs arbitrary: c n rule: rev_induct)
  case Nil
  then show ?case by (cases n) auto
next
  case (snoc x xs)
  then obtain m where "n = Suc m" by (cases n) auto
  with snoc show ?case by (auto simp: chain_append)
qed

declare scan_next.simps [simp del] scan_prev.simps [simp del]

subsection \<open>Flags\<close>

definition bvalid :: "buf \<Rightarrow> bool" where
  "bvalid k \<longleftrightarrow> b_flags k AND B_VALID \<noteq> 0"

definition bdirty :: "buf \<Rightarrow> bool" where
  "bdirty k \<longleftrightarrow> b_flags k AND B_DIRTY \<noteq> 0"

lemma bvalid_bit: "bvalid k \<longleftrightarrow> bit (b_flags k) 1"
  using and_exp_eq_0_iff_not_bit [of "b_flags k" 1] by (simp add: bvalid_def B_VALID_def)

lemma bdirty_bit: "bdirty k \<longleftrightarrow> bit (b_flags k) 2"
  using and_exp_eq_0_iff_not_bit [of "b_flags k" 2] by (simp add: bdirty_def B_DIRTY_def)

lemma bit_B [simp]:
  "bit B_VALID n \<longleftrightarrow> n = 1" "bit B_DIRTY n \<longleftrightarrow> n = 2"
proof -
  have v: "B_VALID = 2 ^ 1" and d: "B_DIRTY = 2 ^ 2" by (simp_all add: B_VALID_def B_DIRTY_def)
  show "bit B_VALID n \<longleftrightarrow> n = 1" unfolding v bit_exp_iff by (auto simp: possible_bit_word)
  show "bit B_DIRTY n \<longleftrightarrow> n = 2" unfolding d bit_exp_iff by (auto simp: possible_bit_word)
qed

lemma flags_simps [simp]:
  "bvalid (k\<lparr>b_flags := f OR B_VALID\<rparr>)"
  "bvalid (k\<lparr>b_flags := f OR B_DIRTY\<rparr>) = bit f 1"
  "bvalid (k\<lparr>b_flags := f AND NOT B_DIRTY\<rparr>) = bit f 1"
  "bdirty (k\<lparr>b_flags := f OR B_DIRTY\<rparr>)"
  "bdirty (k\<lparr>b_flags := f OR B_VALID\<rparr>) = bit f 2"
  "\<not> bdirty (k\<lparr>b_flags := f AND NOT B_DIRTY\<rparr>)"
  "\<not> bvalid (k\<lparr>b_flags := 0\<rparr>)" "\<not> bdirty (k\<lparr>b_flags := 0\<rparr>)"
  by (simp_all add: bvalid_bit bdirty_bit bit_simps)

lemma nothing_to_do:
  "b_flags k AND (B_VALID OR B_DIRTY) = B_VALID \<longleftrightarrow> bvalid k \<and> \<not> bdirty k"
proof
  assume "b_flags k AND (B_VALID OR B_DIRTY) = B_VALID"
  from arg_cong [OF this, of "\<lambda>w. bit w 1"] arg_cong [OF this, of "\<lambda>w. bit w 2"]
  show "bvalid k \<and> \<not> bdirty k" by (simp add: bvalid_bit bdirty_bit bit_simps)
next
  assume "bvalid k \<and> \<not> bdirty k"
  then show "b_flags k AND (B_VALID OR B_DIRTY) = B_VALID"
    by (intro bit_word_eqI) (auto simp: bvalid_bit bdirty_bit bit_simps)
qed

subsection \<open>The cache between operations of one process\<close>

definition nxt :: "'z kst_bio_scheme \<Rightarrow> nat \<Rightarrow> nat" where
  "nxt s = (\<lambda>i. b_next (bufs s i))"

definition prv :: "'z kst_bio_scheme \<Rightarrow> nat \<Rightarrow> nat" where
  "prv s = (\<lambda>i. b_prev (bufs s i))"

text \<open>What may be said of buffer \<open>i\<close>; \<open>h\<close> says whether process \<open>p\<close> holds it.\<close>

definition buf_ok :: "int \<Rightarrow> (uint \<Rightarrow> bytes) \<Rightarrow> uint \<Rightarrow> bool \<Rightarrow> buf \<Rightarrow> sleeplock \<Rightarrow> bool" where
  "buf_ok pid d n h k l \<longleftrightarrow>
     b_refcnt k = (if h then 1 else 0) \<and> (bvalid k \<longleftrightarrow> b_dev k = 1) \<and> (bdirty k \<longrightarrow> bvalid k) \<and>
     (bvalid k \<longrightarrow> b_blockno k < n) \<and>
     (if h then sl_locked l = 1 \<and> sl_pid l = pid \<and> bvalid k
      else sl_locked l = 0 \<and> (bvalid k \<and> \<not> bdirty k \<longrightarrow> b_data k = d (b_blockno k)))"

text \<open>Process \<open>p\<close>, alone in the file system, holds the buffers \<open>H\<close>.\<close>

definition bio_inv :: "nat \<Rightarrow> nat set \<Rightarrow> 'z kst_bio_scheme \<Rightarrow> bool" where
  "bio_inv p H s \<longleftrightarrow> alone p (mach s) (procs s) \<and>
     (\<exists>xs. ring (nxt s) (prv s) xs \<and> set xs = {..<NBUF}) \<and> H \<subseteq> {..<NBUF} \<and>
     (\<forall>i < NBUF. buf_ok (p_pid (procs s p)) (disk s) (disksize s) (i \<in> H) (bufs s i)
                   (slocks s (SlBuf i))) \<and>
     (\<forall>i < NBUF. \<forall>j < NBUF. b_dev (bufs s i) = 1 \<and> b_dev (bufs s j) = 1 \<and>
        b_blockno (bufs s i) = b_blockno (bufs s j) \<longrightarrow> i = j)"

definition cached :: "'z kst_bio_scheme \<Rightarrow> uint \<Rightarrow> nat option" where
  "cached s b = find (\<lambda>i. b_dev (bufs s i) = 1 \<and> b_blockno (bufs s i) = b) [0..<NBUF]"

text \<open>The contents of a block as the file system sees it: of the cached copy if there is one.\<close>

definition view :: "'z kst_bio_scheme \<Rightarrow> uint \<Rightarrow> bytes" where
  "view s b = (case cached s b of Some i \<Rightarrow> b_data (bufs s i) | None \<Rightarrow> disk s b)"

definition dirties :: "'z kst_bio_scheme \<Rightarrow> nat set" where
  "dirties s = {i. i < NBUF \<and> bdirty (bufs s i)}"

lemma bio_invD:
  assumes "bio_inv p H s"
  shows "alone p (mach s) (procs s)" "H \<subseteq> {..<NBUF}"
    "i < NBUF \<Longrightarrow> buf_ok (p_pid (procs s p)) (disk s) (disksize s) (i \<in> H) (bufs s i) (slocks s (SlBuf i))"
    "i < NBUF \<Longrightarrow> j < NBUF \<Longrightarrow> b_dev (bufs s i) = 1 \<Longrightarrow> b_dev (bufs s j) = 1 \<Longrightarrow>
      b_blockno (bufs s i) = b_blockno (bufs s j) \<Longrightarrow> i = j"
  using assms by (auto simp: bio_inv_def)

lemma cached_Some:
  assumes "bio_inv p H s"
  shows "cached s b = Some i \<longleftrightarrow> i < NBUF \<and> b_dev (bufs s i) = 1 \<and> b_blockno (bufs s i) = b"
proof -
  have "\<not> j < i" if "i < NBUF" "b_dev (bufs s i) = 1" "b_dev (bufs s j) = 1"
    "b_blockno (bufs s j) = b_blockno (bufs s i)" for j
    using bio_invD(4) [OF assms, of j i] that by (cases "j < NBUF") auto
  then show ?thesis unfolding cached_def find_upt_Some by auto
qed

lemma buf_unique:
  assumes "bio_inv p H s" "q < NBUF" "b_dev (bufs s q) = 1" "j < NBUF" "j \<noteq> q" "b_dev (bufs s j) = 1"
  shows "b_blockno (bufs s j) \<noteq> b_blockno (bufs s q)"
  using bio_invD(4) [OF assms(1,2,4,3,6)] assms(5) by auto

lemma cached_None:
  "cached s b = None \<longleftrightarrow> (\<forall>i < NBUF. \<not> (b_dev (bufs s i) = 1 \<and> b_blockno (bufs s i) = b))"
  by (simp add: cached_def find_upt_None)

lemma upd_buf_simps [simp]:
  "mach (upd_buf b f s) = mach s" "procs (upd_buf b f s) = procs s"
  "slocks (upd_buf b f s) = slocks s" "disk (upd_buf b f s) = disk s"
  "disksize (upd_buf b f s) = disksize s" "dwrites (upd_buf b f s) = dwrites s"
  "bufs (upd_buf b f s) = (bufs s)(b := f (bufs s b))"
  "upd_buf b f (s\<lparr>mach := m\<rparr>) = (upd_buf b f s)\<lparr>mach := m\<rparr>"
  "(upd_buf b f s)\<lparr>mach := mach s\<rparr> = upd_buf b f s"
  by (simp_all add: upd_buf_def)

lemma nxt_prv_upd:
  "nxt (upd_buf b f s) = (nxt s)(b := b_next (f (bufs s b)))"
  "prv (upd_buf b f s) = (prv s)(b := b_prev (f (bufs s b)))"
  by (simp_all add: nxt_def prv_def fun_eq_iff)

lemma ring_scans:
  assumes "ring (nxt s) (prv s) xs" "set xs = {..<NBUF}"
  shows "scan_next P (Suc NBUF) (b_next (bufs s NBUF)) (bufs s) =
      Some (case find (\<lambda>i. P (bufs s i)) xs of Some b \<Rightarrow> b | None \<Rightarrow> NBUF)"
    "scan_prev P (Suc NBUF) (b_prev (bufs s NBUF)) (bufs s) =
      Some (case find (\<lambda>i. P (bufs s i)) (rev xs) of Some b \<Rightarrow> b | None \<Rightarrow> NBUF)"
proof -
  have "length xs < Suc NBUF"
    using assms distinct_card [of xs] by (simp add: ring_def)
  then show "scan_next P (Suc NBUF) (b_next (bufs s NBUF)) (bufs s) =
      Some (case find (\<lambda>i. P (bufs s i)) xs of Some b \<Rightarrow> b | None \<Rightarrow> NBUF)"
    "scan_prev P (Suc NBUF) (b_prev (bufs s NBUF)) (bufs s) =
      Some (case find (\<lambda>i. P (bufs s i)) (rev xs) of Some b \<Rightarrow> b | None \<Rightarrow> NBUF)"
    using assms(1) unfolding ring_def nxt_def prv_def
    by (intro scan_next_find scan_prev_find; blast)+
qed

lemma bio_inv_one:
  assumes "bio_inv p H s" "q < NBUF" "b_next k = b_next (bufs s q)" "b_prev k = b_prev (bufs s q)"
    "buf_ok (p_pid (procs s p)) (disk s) (disksize s) h k l"
    "\<And>j. j < NBUF \<Longrightarrow> j \<noteq> q \<Longrightarrow> b_dev k = 1 \<Longrightarrow> b_dev (bufs s j) = 1 \<Longrightarrow> b_blockno (bufs s j) \<noteq> b_blockno k"
  shows "bio_inv p (if h then insert q H else H - {q})
    (s\<lparr>slocks := (slocks s)(SlBuf q := l), bufs := (bufs s)(q := k)\<rparr>)"
proof -
  let ?s = "s\<lparr>slocks := (slocks s)(SlBuf q := l), bufs := (bufs s)(q := k)\<rparr>"
  have n: "nxt ?s = nxt s" "prv ?s = prv s" using assms(3,4) by (auto simp: nxt_def prv_def)
  show ?thesis
    unfolding bio_inv_def
  proof (intro conjI allI impI)
    show "alone p (mach ?s) (procs ?s)" using bio_invD(1) [OF assms(1)] by simp
    show "\<exists>xs. ring (nxt ?s) (prv ?s) xs \<and> set xs = {..<NBUF}"
      using assms(1) unfolding n by (simp add: bio_inv_def)
    show "(if h then insert q H else H - {q}) \<subseteq> {..<NBUF}"
      using bio_invD(2) [OF assms(1)] assms(2) by auto
    show "buf_ok (p_pid (procs ?s p)) (disk ?s) (disksize ?s)
        (i \<in> (if h then insert q H else H - {q})) (bufs ?s i) (slocks ?s (SlBuf i))" if "i < NBUF" for i
      using bio_invD(3) [OF assms(1) that] assms(5) by auto
    show "i = j" if "i < NBUF" "j < NBUF" "b_dev (bufs ?s i) = 1 \<and> b_dev (bufs ?s j) = 1 \<and>
        b_blockno (bufs ?s i) = b_blockno (bufs ?s j)" for i j
      using bio_invD(4) [OF assms(1), of i j] assms(6) that by (auto split: if_splits)
  qed
qed

lemma view_cached:
  assumes "bio_inv p H s" "i < NBUF" "b_dev (bufs s i) = 1"
  shows "view s (b_blockno (bufs s i)) = b_data (bufs s i)"
  using cached_Some [OF assms(1), of "b_blockno (bufs s i)" i] assms by (simp add: view_def)

lemma view_uncached:
  assumes "\<And>i. i < NBUF \<Longrightarrow> b_dev (bufs s i) = 1 \<Longrightarrow> b_blockno (bufs s i) \<noteq> b"
  shows "view s b = disk s b"
  using assms cached_None [of s b] by (auto simp: view_def)

text \<open>Changing one buffer changes the view of its block at most.\<close>

lemma view_one:
  assumes "bio_inv p H s" "q < NBUF"
    and s': "bufs s' = (bufs s)(q := k)" "\<And>b. b \<noteq> b_blockno k \<Longrightarrow> disk s' b = disk s b"
      "bio_inv p H' s'"
    and k: "b_dev k = 1" "b_blockno k = b_blockno (bufs s q)"
    and q: "b_dev (bufs s q) = 1"
  shows "view s' = (view s)(b_blockno k := b_data k)"
proof
  fix b
  show "view s' b = ((view s)(b_blockno k := b_data k)) b"
  proof (cases "b = b_blockno k")
    case True
    then show ?thesis using view_cached [OF s'(3) assms(2)] s'(1) k(1) by simp
  next
    case False
    have "cached s' b = cached s b"
      unfolding cached_def s'(1)
      by (rule arg_cong2 [where f = find]) (use False k q in \<open>auto simp: fun_eq_iff\<close>)
    moreover have "i \<noteq> q" if "cached s b = Some i" for i
      using that cached_Some [OF assms(1)] False k by auto
    ultimately show ?thesis using False s' by (auto simp: view_def split: option.split)
  qed
qed

definition bio_frame :: "'z kst_bio_scheme \<Rightarrow> 'z kst_bio_scheme \<Rightarrow> bool" where
  "bio_frame s s' \<longleftrightarrow> s' = s\<lparr>slocks := slocks s', bufs := bufs s'\<rparr> \<and>
     (\<forall>i. slocks s' (SlInode i) = slocks s (SlInode i))"

lemma bread_cached:
  assumes "bio_inv p H s" "q < NBUF" "b_dev (bufs s q) = 1" "b_blockno (bufs s q) = b" "q \<notin> H"
  shows "bread 1 b s = Ret q (s\<lparr>
      slocks := (slocks s)(SlBuf q := (slocks s (SlBuf q))\<lparr>sl_locked := 1, sl_pid := p_pid (procs s p)\<rparr>),
      bufs := (bufs s)(q := (bufs s q)\<lparr>b_refcnt := 1\<rparr>)\<rparr>)"
proof -
  from assms(1) obtain xs where xs: "ring (nxt s) (prv s) xs" "set xs = {..<NBUF}"
    by (auto simp: bio_inv_def)
  let ?P = "\<lambda>k. b_dev k = 1 \<and> b_blockno k = b"
  have "find (\<lambda>i. ?P (bufs s i)) xs = Some q"
  proof -
    obtain i where i: "find (\<lambda>i. ?P (bufs s i)) xs = Some i"
      using assms(2-4) xs(2) by (cases "find (\<lambda>i. ?P (bufs s i)) xs") (auto simp: find_None_iff)
    then have "?P (bufs s i)" "i \<in> set xs" using find_SomeD [OF i] by auto
    then have "i = q" using bio_invD(4) [OF assms(1), of i q] assms(2-4) xs(2) by auto
    with i show ?thesis by simp
  qed
  then have sc: "scan_next ?P (Suc NBUF) (b_next (bufs s NBUF)) (bufs s) = Some q"
    by (simp add: ring_scans [OF xs])
  have ok: "b_refcnt (bufs s q) = 0" "sl_locked (slocks s (SlBuf q)) = 0" "bvalid (bufs s q)"
    using bio_invD(3) [OF assms(1,2)] assms(3,5) by (auto simp: buf_ok_def)
  note A = aloneD [OF bio_invD(1) [OF assms(1)]]
  let ?s = "upd_buf q (\<lambda>k. k\<lparr>b_refcnt := b_refcnt k + 1\<rparr>) s"
  have "acquiresleep (SlBuf q) ?s = Ret () (upd_slock (SlBuf q)
      (\<lambda>l. l\<lparr>sl_locked := 1, sl_pid := p_pid (procs s p)\<rparr>) ?s)"
    using acquiresleep_alone [of p ?s "SlBuf q"] bio_invD(1) [OF assms(1)] ok(2) by simp
  then have "bget 1 b s = Ret q (upd_slock (SlBuf q)
      (\<lambda>l. l\<lparr>sl_locked := 1, sl_pid := p_pid (procs s p)\<rparr>) ?s)"
    using A sc assms(2) by (simp add: bget_def acquire_calm release_calm Let_def)
  then show ?thesis
    using ok by (simp add: bread_def bvalid_def) (simp add: upd_slock_def upd_buf_def)
qed

lemma upd_buf_upd_buf: "upd_buf q f (upd_buf q g s) = upd_buf q (\<lambda>k. f (g k)) s"
  by (simp add: upd_buf_def)

lemma upd_slock_bio [simp]:
  "bufs (upd_slock k f s) = bufs s" "disk (upd_slock k f s) = disk s"
  "disksize (upd_slock k f s) = disksize s" "dwrites (upd_slock k f s) = dwrites s"
  by (simp_all add: upd_slock_def)

definition mine :: "nat \<Rightarrow> nat \<Rightarrow> 'z kst_bio_scheme \<Rightarrow> bool" where
  "mine p q s \<longleftrightarrow> alone p (mach s) (procs s) \<and> sl_locked (slocks s (SlBuf q)) = 1 \<and>
     sl_pid (slocks s (SlBuf q)) = p_pid (procs s p)"

lemma mine_holding: "mine p q s \<Longrightarrow> holdingsleep (SlBuf q) s = Ret True s"
  by (auto simp: mine_def holdingsleep_alone)

lemma iderw_read:
  assumes "mine p q s" "\<not> bvalid (bufs s q)" "\<not> bdirty (bufs s q)" "b_dev (bufs s q) = 1"
    "b_blockno (bufs s q) < disksize s"
  shows "iderw q s = Ret () (upd_buf q (\<lambda>k. k\<lparr>b_data := disk s (b_blockno (bufs s q)),
    b_flags := b_flags k OR B_VALID\<rparr>) s)"
proof -
  have "b_flags (bufs s q) AND B_DIRTY = 0" using assms(3) by (simp add: bdirty_def)
  then show ?thesis
    using assms by (simp add: iderw_def mine_holding nothing_to_do not_le Let_def upd_buf_upd_buf)
qed

lemma iderw_write:
  assumes "mine p q s" "bdirty (bufs s q)" "b_dev (bufs s q) = 1" "b_blockno (bufs s q) < disksize s"
  shows "iderw q s = Ret () (upd_buf q (\<lambda>k. k\<lparr>b_flags := b_flags k AND NOT B_DIRTY OR B_VALID\<rparr>)
    (s\<lparr>disk := (disk s)(b_blockno (bufs s q) := b_data (bufs s q)),
       dwrites := dwrites s @ [(b_blockno (bufs s q), b_data (bufs s q))]\<rparr>))"
proof -
  have "b_flags (bufs s q) AND B_DIRTY \<noteq> 0" using assms(2) by (simp add: bdirty_def)
  then show ?thesis
    using assms
    by (simp add: iderw_def mine_holding nothing_to_do not_le Let_def) (simp add: upd_buf_def)
qed

text \<open>The recycled buffer, after the block has been read into it.\<close>

definition filled :: "uint \<Rightarrow> bytes \<Rightarrow> buf \<Rightarrow> buf" where
  "filled b d k = k\<lparr>b_dev := 1, b_blockno := b, b_refcnt := 1, b_data := d, b_flags := 0 OR B_VALID\<rparr>"

lemma bread_uncached:
  assumes "bio_inv p H s" "\<And>i. i < NBUF \<Longrightarrow> b_dev (bufs s i) = 1 \<Longrightarrow> b_blockno (bufs s i) \<noteq> b"
    "j < NBUF" "j \<notin> H" "\<not> bdirty (bufs s j)" "b < disksize s"
  shows "\<exists>q < NBUF. q \<notin> H \<and> \<not> bdirty (bufs s q) \<and> bread 1 b s = Ret q (s\<lparr>
      slocks := (slocks s)(SlBuf q := (slocks s (SlBuf q))\<lparr>sl_locked := 1, sl_pid := p_pid (procs s p)\<rparr>),
      bufs := (bufs s)(q := filled b (disk s b) (bufs s q))\<rparr>)"
proof -
  from assms(1) obtain xs where xs: "ring (nxt s) (prv s) xs" "set xs = {..<NBUF}"
    by (auto simp: bio_inv_def)
  let ?P = "\<lambda>k. b_dev k = 1 \<and> b_blockno k = b"
  let ?Q = "\<lambda>k. b_refcnt k = 0 \<and> b_flags k AND B_DIRTY = 0"
  have "find (\<lambda>i. ?P (bufs s i)) xs = None" using assms(2) xs(2) by (auto simp: find_None_iff)
  then have sc1: "scan_next ?P (Suc NBUF) (b_next (bufs s NBUF)) (bufs s) = Some NBUF"
    by (simp add: ring_scans [OF xs])
  have "b_refcnt (bufs s j) = 0" using bio_invD(3) [OF assms(1,3)] assms(4) by (simp add: buf_ok_def)
  then obtain q where q: "find (\<lambda>i. ?Q (bufs s i)) (rev xs) = Some q"
    using assms(3,5) xs(2)
    by (cases "find (\<lambda>i. ?Q (bufs s i)) (rev xs)") (auto simp: find_None_iff bdirty_def)
  then have "?Q (bufs s q)" "q \<in> set (rev xs)" using find_SomeD [OF q] by auto
  then have q': "?Q (bufs s q)" "q < NBUF" "\<not> bdirty (bufs s q)" using xs(2) by (auto simp: bdirty_def)
  then have "q \<notin> H" and ql: "sl_locked (slocks s (SlBuf q)) = 0"
    using bio_invD(3) [OF assms(1) q'(2)] by (auto simp: buf_ok_def split: if_splits)
  have sc2: "scan_prev ?Q (Suc NBUF) (b_prev (bufs s NBUF)) (bufs s) = Some q"
    using q by (simp add: ring_scans [OF xs])
  note A = aloneD [OF bio_invD(1) [OF assms(1)]]
  let ?s = "upd_buf q (\<lambda>k. k\<lparr>b_dev := 1, b_blockno := b, b_flags := 0, b_refcnt := 1\<rparr>) s"
  let ?t = "upd_slock (SlBuf q) (\<lambda>l. l\<lparr>sl_locked := 1, sl_pid := p_pid (procs s p)\<rparr>) ?s"
  have "acquiresleep (SlBuf q) ?s = Ret () ?t"
    using acquiresleep_alone [of p ?s "SlBuf q"] bio_invD(1) [OF assms(1)] ql by simp
  then have g: "bget 1 b s = Ret q ?t"
    using A sc1 sc2 q'(2) by (simp add: bget_def acquire_calm release_calm Let_def)
  have "iderw q ?t = Ret () (upd_buf q (\<lambda>k. k\<lparr>b_data := disk ?t (b_blockno (bufs ?t q)),
      b_flags := b_flags k OR B_VALID\<rparr>) ?t)"
    by (rule iderw_read [where p = p])
       (use assms(6) bio_invD(1) [OF assms(1)] in \<open>simp_all add: mine_def bvalid_def bdirty_def\<close>)
  then have "iderw q ?t = Ret () (s\<lparr>
      slocks := (slocks s)(SlBuf q := (slocks s (SlBuf q))\<lparr>sl_locked := 1, sl_pid := p_pid (procs s p)\<rparr>),
      bufs := (bufs s)(q := filled b (disk s b) (bufs s q))\<rparr>)"
    by (simp add: filled_def) (simp add: upd_buf_def upd_slock_def)
  then show ?thesis
    using g q' \<open>q \<notin> H\<close> by (intro exI [of _ q]) (simp add: bread_def upd_slock_def)
qed

text \<open>\<open>bread\<close>: the caller gets a buffer of its own with the current contents of the block. It asks
  for a block it does not hold already and for a buffer that can be recycled.\<close>

definition bread_post :: "nat \<Rightarrow> nat set \<Rightarrow> uint \<Rightarrow> 'z kst_bio_scheme \<Rightarrow> nat \<Rightarrow> 'z kst_bio_scheme \<Rightarrow> bool" where
  "bread_post p H b s q s' \<longleftrightarrow> q < NBUF \<and> q \<notin> H \<and> bio_inv p (insert q H) s' \<and>
     b_blockno (bufs s' q) = b \<and> b_data (bufs s' q) = view s b \<and> view s' = view s \<and>
     dirties s' = dirties s \<and> (q \<in> dirties s \<longrightarrow> b_blockno (bufs s q) = b) \<and>
     (\<forall>j. j \<noteq> q \<longrightarrow> bufs s' j = bufs s j) \<and> bio_frame s s'"

lemma bread_cached_ok:
  assumes inv: "bio_inv p H s" and b: "\<And>i. i \<in> H \<Longrightarrow> b_blockno (bufs s i) \<noteq> b"
    and c: "cached s b = Some q"
  shows "wp (bread 1 b s) (bread_post p H b s)"
proof -
  have q: "q < NBUF" "b_dev (bufs s q) = 1" "b_blockno (bufs s q) = b"
    using cached_Some [OF inv] c by auto
  then have qH: "q \<notin> H" using b by auto
  let ?k = "(bufs s q)\<lparr>b_refcnt := 1\<rparr>"
    and ?l = "(slocks s (SlBuf q))\<lparr>sl_locked := 1, sl_pid := p_pid (procs s p)\<rparr>"
  let ?s = "s\<lparr>slocks := (slocks s)(SlBuf q := ?l), bufs := (bufs s)(q := ?k)\<rparr>"
  have ok: "buf_ok (p_pid (procs s p)) (disk s) (disksize s) True ?k ?l"
    using bio_invD(3) [OF inv q(1)] q(2) by (auto simp: buf_ok_def bvalid_def bdirty_def)
  have "bio_inv p (if True then insert q H else H - {q}) ?s"
    by (rule bio_inv_one [OF inv q(1) _ _ ok]) (simp_all add: buf_unique [OF inv q(1,2)])
  then have inv': "bio_inv p (insert q H) ?s" by simp
  have "view ?s = (view s)(b := b_data (bufs s q))"
    using view_one [OF inv q(1), of ?s ?k "insert q H"] inv' q by simp
  also have "\<dots> = view s" using view_cached [OF inv q(1,2)] q(3) by (simp add: fun_upd_idem)
  finally have v: "view ?s = view s" .
  have "dirties ?s = dirties s" by (auto simp: dirties_def bdirty_def)
  then show ?thesis
    using bread_cached [OF inv q qH] inv' v qH q view_cached [OF inv q(1,2)]
    by (simp add: bread_post_def bio_frame_def)
qed

text \<open>Recycling a clean buffer that nobody holds changes no block's view.\<close>

lemma view_recycled:
  assumes inv: "bio_inv p H s" and q: "q < NBUF" "q \<notin> H" "\<not> bdirty (bufs s q)"
    and nc: "\<And>i. i < NBUF \<Longrightarrow> b_dev (bufs s i) = 1 \<Longrightarrow> b_blockno (bufs s i) \<noteq> b"
    and k: "b_dev k = 1" "b_blockno k = b" "b_data k = disk s b"
    and s': "bufs s' = (bufs s)(q := k)" "disk s' = disk s" and inv': "bio_inv p H' s'"
  shows "view s' c = view s c"
proof (cases "c = b")
  case True
  then show ?thesis using view_cached [OF inv' q(1)] view_uncached [OF nc] k s' by simp
next
  case F: False
  show ?thesis
  proof (cases "\<exists>i < NBUF. i \<noteq> q \<and> b_dev (bufs s i) = 1 \<and> b_blockno (bufs s i) = c")
    case True
    then obtain i where "i < NBUF" "i \<noteq> q" "b_dev (bufs s i) = 1" "b_blockno (bufs s i) = c" by blast
    then show ?thesis using view_cached [OF inv', of i] view_cached [OF inv, of i] s' by simp
  next
    case False
    have "view s' c = disk s c" unfolding s'(2) [symmetric]
      by (rule view_uncached) (use False F k(2) s'(1) in \<open>auto split: if_splits\<close>)
    moreover have "view s c = disk s c"
    proof (cases "b_dev (bufs s q) = 1 \<and> b_blockno (bufs s q) = c")
      case True
      then show ?thesis
        using view_cached [OF inv q(1)] bio_invD(3) [OF inv q(1)] q(2,3) by (simp add: buf_ok_def)
    next
      case nq: False
      show ?thesis by (rule view_uncached) (use False nq in auto)
    qed
    ultimately show ?thesis by simp
  qed
qed

lemma bread_uncached_ok:
  assumes inv: "bio_inv p H s" and b: "b < disksize s" and c: "cached s b = None"
    and room: "\<not> {..<NBUF} \<subseteq> H \<union> dirties s"
  shows "wp (bread 1 b s) (bread_post p H b s)"
proof -
  have nc: "\<And>i. i < NBUF \<Longrightarrow> b_dev (bufs s i) = 1 \<Longrightarrow> b_blockno (bufs s i) \<noteq> b"
    using c by (auto simp: cached_None)
  from room obtain j where "j < NBUF" "j \<notin> H" "\<not> bdirty (bufs s j)" by (auto simp: dirties_def)
  from bread_uncached [OF inv nc this b] obtain q where q: "q < NBUF" "q \<notin> H" "\<not> bdirty (bufs s q)"
    and r: "bread 1 b s = Ret q (s\<lparr>
      slocks := (slocks s)(SlBuf q := (slocks s (SlBuf q))\<lparr>sl_locked := 1, sl_pid := p_pid (procs s p)\<rparr>),
      bufs := (bufs s)(q := filled b (disk s b) (bufs s q))\<rparr>)" by blast
  let ?k = "filled b (disk s b) (bufs s q)"
    and ?l = "(slocks s (SlBuf q))\<lparr>sl_locked := 1, sl_pid := p_pid (procs s p)\<rparr>"
  let ?s = "s\<lparr>slocks := (slocks s)(SlBuf q := ?l), bufs := (bufs s)(q := ?k)\<rparr>"
  have k: "bvalid ?k" "\<not> bdirty ?k" "b_dev ?k = 1" "b_blockno ?k = b" "b_data ?k = disk s b"
    "b_next ?k = b_next (bufs s q)" "b_prev ?k = b_prev (bufs s q)" "b_refcnt ?k = 1"
    by (simp_all add: filled_def bvalid_bit bdirty_bit)
  have ok: "buf_ok (p_pid (procs s p)) (disk s) (disksize s) True ?k ?l"
    using b k by (simp add: buf_ok_def)
  have "bio_inv p (if True then insert q H else H - {q}) ?s"
    by (rule bio_inv_one [OF inv q(1) _ _ ok]) (use k nc in auto)
  then have inv': "bio_inv p (insert q H) ?s" by simp
  have v: "view ?s c = view s c" for c
    by (rule view_recycled [OF inv q nc k(3-5) _ _ inv']) simp_all
  have "dirties ?s = dirties s" "q \<notin> dirties s" using q k(2) by (auto simp: dirties_def)
  then show ?thesis
    using r inv' v q k view_uncached [OF nc] by (simp add: bread_post_def bio_frame_def fun_eq_iff)
qed

lemma bread_ok:
  assumes "bio_inv p H s" "b < disksize s" "\<And>i. i \<in> H \<Longrightarrow> b_blockno (bufs s i) \<noteq> b"
    and "cached s b \<noteq> None \<or> \<not> {..<NBUF} \<subseteq> H \<union> dirties s"
  shows "wp (bread 1 b s) (bread_post p H b s)"
proof (cases "cached s b")
  case None
  then show ?thesis using bread_uncached_ok [OF assms(1,2)] assms(4) by simp
next
  case (Some q)
  then show ?thesis using bread_cached_ok [OF assms(1,3)] by blast
qed

subsection \<open>Changing, writing and releasing a buffer one holds\<close>

text \<open>A buffer without its place in the list.\<close>

definition core :: "buf \<Rightarrow> uint \<times> uint \<times> uint \<times> uint \<times> bytes" where
  "core k = (b_flags k, b_dev k, b_blockno k, b_refcnt k, b_data k)"

lemma core_links [simp]: "core (k\<lparr>b_next := x\<rparr>) = core k" "core (k\<lparr>b_prev := x\<rparr>) = core k"
  by (simp_all add: core_def)

lemma core_eqD:
  assumes "core k = core k'"
  shows "b_flags k = b_flags k'" "b_dev k = b_dev k'" "b_blockno k = b_blockno k'"
    "b_refcnt k = b_refcnt k'" "b_data k = b_data k'" "bvalid k = bvalid k'" "bdirty k = bdirty k'"
  using assms by (simp_all add: core_def bvalid_def bdirty_def)

lemma held_bufD:
  assumes "bio_inv p H s" "q \<in> H"
  shows "q < NBUF" "mine p q s" "bvalid (bufs s q)" "b_dev (bufs s q) = 1"
    "b_blockno (bufs s q) < disksize s" "b_refcnt (bufs s q) = 1"
proof -
  show q: "q < NBUF" using bio_invD(2) [OF assms(1)] assms(2) by auto
  show "mine p q s" "bvalid (bufs s q)" "b_dev (bufs s q) = 1"
    "b_blockno (bufs s q) < disksize s" "b_refcnt (bufs s q) = 1"
    using bio_invD(3) [OF assms(1) q] bio_invD(1) [OF assms(1)] assms(2)
    by (auto simp: buf_ok_def mine_def)
qed

lemma held_view: "bio_inv p H s \<Longrightarrow> q \<in> H \<Longrightarrow> view s (b_blockno (bufs s q)) = b_data (bufs s q)"
  using view_cached held_bufD(1,4) by metis

text \<open>Overwriting data or flags of a held buffer.\<close>

lemma set_buf_ok:
  assumes inv: "bio_inv p H s" and q: "q \<in> H"
    and k: "b_next k = b_next (bufs s q)" "b_prev k = b_prev (bufs s q)" "b_refcnt k = b_refcnt (bufs s q)"
      "b_dev k = b_dev (bufs s q)" "b_blockno k = b_blockno (bufs s q)" "bvalid k"
    and s': "s' = s\<lparr>bufs := (bufs s)(q := k)\<rparr>"
  shows "bio_inv p H s'" "view s' = (view s)(b_blockno k := b_data k)"
    "dirties s' = (if bdirty k then insert q (dirties s) else dirties s - {q})"
proof -
  note h = held_bufD [OF inv q]
  have ok: "buf_ok (p_pid (procs s p)) (disk s) (disksize s) True k (slocks s (SlBuf q))"
    using bio_invD(3) [OF inv h(1)] q k h by (auto simp: buf_ok_def)
  have "bio_inv p (if True then insert q H else H - {q})
      (s\<lparr>slocks := (slocks s)(SlBuf q := slocks s (SlBuf q)), bufs := (bufs s)(q := k)\<rparr>)"
    by (rule bio_inv_one [OF inv h(1) k(1,2) ok]) (simp add: k buf_unique [OF inv h(1,4)])
  then show i: "bio_inv p H s'" using q by (simp add: s' insert_absorb)
  show "view s' = (view s)(b_blockno k := b_data k)"
    by (rule view_one [OF inv h(1) _ _ i]) (use k h s' in simp_all)
  show "dirties s' = (if bdirty k then insert q (dirties s) else dirties s - {q})"
    using h(1) by (auto simp: s' dirties_def)
qed

lemma set_data_ok:
  assumes "bio_inv p H s" "q \<in> H" "s' = upd_buf q (\<lambda>k. k\<lparr>b_data := d\<rparr>) s"
  shows "bio_inv p H s'" "view s' = (view s)(b_blockno (bufs s q) := d)" "dirties s' = dirties s"
proof -
  let ?k = "(bufs s q)\<lparr>b_data := d\<rparr>"
  have "bvalid ?k = bvalid (bufs s q)" "bdirty ?k = bdirty (bufs s q)"
    by (simp_all add: bvalid_def bdirty_def)
  then show "bio_inv p H s'" "view s' = (view s)(b_blockno (bufs s q) := d)" "dirties s' = dirties s"
    using set_buf_ok [OF assms(1,2), of ?k s'] held_bufD(1,3) [OF assms(1,2)] assms(3)
    by (auto simp: upd_buf_def dirties_def)
qed

definition written :: "nat \<Rightarrow> 'z kst_bio_scheme \<Rightarrow> 'z kst_bio_scheme" where
  "written q s = upd_buf q (\<lambda>k. k\<lparr>b_flags := (b_flags k OR B_DIRTY) AND NOT B_DIRTY OR B_VALID\<rparr>)
     (s\<lparr>disk := (disk s)(b_blockno (bufs s q) := b_data (bufs s q)),
        dwrites := dwrites s @ [(b_blockno (bufs s q), b_data (bufs s q))]\<rparr>)"

lemma bwrite_eq:
  assumes "bio_inv p H s" "q \<in> H"
  shows "bwrite q s = Ret () (written q s)"
proof -
  note h = held_bufD [OF assms]
  let ?s = "upd_buf q (\<lambda>k. k\<lparr>b_flags := b_flags k OR B_DIRTY\<rparr>) s"
  have "mine p q ?s" using h(2) by (simp add: mine_def)
  from iderw_write [OF this] h mine_holding [OF h(2)] show ?thesis
    by (simp add: bwrite_def) (simp add: written_def upd_buf_def)
qed

lemma written_ok:
  assumes inv: "bio_inv p H s" and q: "q \<in> H"
  shows "bio_inv p H (written q s)" "view (written q s) = view s"
    "dirties (written q s) = dirties s - {q}"
proof -
  note h = held_bufD [OF inv q]
  let ?b = "b_blockno (bufs s q)" and ?d = "b_data (bufs s q)"
  let ?k = "(bufs s q)\<lparr>b_flags := (b_flags (bufs s q) OR B_DIRTY) AND NOT B_DIRTY OR B_VALID\<rparr>"
  let ?t = "s\<lparr>bufs := (bufs s)(q := ?k)\<rparr>"
  have k: "bvalid ?k" "\<not> bdirty ?k" by (simp_all add: bit_simps)
  have S: "bio_inv p H ?t" by (rule set_buf_ok(1) [OF inv q _ _ _ _ _ k(1) refl]) simp_all
  have w: "written q s = ?t\<lparr>disk := (disk s)(?b := ?d), dwrites := dwrites s @ [(?b, ?d)]\<rparr>"
    by (simp add: written_def upd_buf_def)
  have "nxt (written q s) = nxt ?t" "prv (written q s) = prv ?t" by (simp_all add: w nxt_def prv_def)
  moreover have "buf_ok (p_pid (procs s p)) ((disk s)(?b := ?d)) (disksize s) (i \<in> H) (bufs ?t i)
      (slocks s (SlBuf i))" if "i < NBUF" for i
    using bio_invD(3) [OF S that] buf_unique [OF inv h(1,4) that] q k
    by (cases "i = q") (auto simp: buf_ok_def)
  ultimately show i: "bio_inv p H (written q s)"
    using S unfolding bio_inv_def by (simp add: w)
  have "view (written q s) = (view s)(?b := ?d)"
    using view_one [OF inv h(1), of "written q s" ?k] i h(4) by (simp add: w)
  then show "view (written q s) = view s" using held_view [OF inv q] by (simp add: fun_upd_idem)
  show "dirties (written q s) = dirties s - {q}"
    using k(2) by (auto simp: dirties_def w)
qed

text \<open>\<open>brelse\<close> moves the buffer to the front of the list.\<close>

definition front :: "nat \<Rightarrow> (nat \<Rightarrow> buf) \<Rightarrow> nat \<Rightarrow> buf" where
  "front q t =
     (let t = t(b_next (t q) := (t (b_next (t q)))\<lparr>b_prev := b_prev (t q)\<rparr>);
          t = t(b_prev (t q) := (t (b_prev (t q)))\<lparr>b_next := b_next (t q)\<rparr>);
          t = t(q := (t q)\<lparr>b_next := b_next (t NBUF)\<rparr>);
          t = t(q := (t q)\<lparr>b_prev := NBUF\<rparr>);
          t = t(b_next (t NBUF) := (t (b_next (t NBUF)))\<lparr>b_prev := q\<rparr>)
      in t(NBUF := (t NBUF)\<lparr>b_next := q\<rparr>))"

lemma core_front [simp]: "core (front q t i) = core (t i)"
  by (simp add: front_def Let_def)

lemma upd_links:
  "(\<lambda>i. b_next ((t(a := (t a)\<lparr>b_next := x\<rparr>)) i)) = (\<lambda>i. b_next (t i))(a := x)"
  "(\<lambda>i. b_next ((t(a := (t a)\<lparr>b_prev := x\<rparr>)) i)) = (\<lambda>i. b_next (t i))"
  "(\<lambda>i. b_prev ((t(a := (t a)\<lparr>b_prev := x\<rparr>)) i)) = (\<lambda>i. b_prev (t i))(a := x)"
  "(\<lambda>i. b_prev ((t(a := (t a)\<lparr>b_next := x\<rparr>)) i)) = (\<lambda>i. b_prev (t i))"
  by (auto simp: fun_eq_iff)

lemma ring_front:
  assumes r: "ring (\<lambda>i. b_next (t i)) (\<lambda>i. b_prev (t i)) xs" and q: "q \<in> set xs"
  shows "ring (\<lambda>i. b_next (front q t i)) (\<lambda>i. b_prev (front q t i)) (q # remove1 q xs)"
proof -
  let ?nx = "\<lambda>i. b_next (t i)" and ?pv = "\<lambda>i. b_prev (t i)"
  obtain us vs where xs: "xs = us @ q # vs" "q \<notin> set us" using split_list_first [OF q] by blast
  then have c: "chain ?nx ?pv NBUF us q" "chain ?nx ?pv q vs NBUF" and qn: "q \<noteq> NBUF" "q \<notin> set vs"
    using r by (auto simp: ring_def chain_append)
  have nq: "b_next (t q) \<noteq> q" using chain_nx [OF c(2)] qn by auto
  have pq: "b_prev (t q) \<noteq> q" using chain_pv [OF c(1)] qn xs(2) by (metis last_ConsL last_ConsR last_in_set)
  let ?n = "?nx(?pv q := ?nx q)" and ?p = "?pv(?nx q := ?pv q)"
  have "ring (?n(q := ?n NBUF, NBUF := q)) (?p(q := NBUF, ?n NBUF := q)) (q # remove1 q xs)"
    by (rule ring_insert [OF ring_unlink [OF r q]]) (use r qn in \<open>auto simp: ring_def\<close>)
  moreover have "(\<lambda>i. b_next (front q t i)) = ?n(q := ?n NBUF, NBUF := q)"
    unfolding front_def Let_def upd_links using nq pq qn by (auto simp: fun_eq_iff)
  moreover have "(\<lambda>i. b_prev (front q t i)) = ?p(q := NBUF, ?n NBUF := q)"
    unfolding front_def Let_def upd_links using nq pq qn by (auto simp: fun_eq_iff)
  ultimately show ?thesis by simp
qed

definition released :: "nat \<Rightarrow> 'z kst_bio_scheme \<Rightarrow> 'z kst_bio_scheme" where
  "released q s = s\<lparr>slocks := (slocks s)(SlBuf q := (slocks s (SlBuf q))\<lparr>sl_locked := 0, sl_pid := 0\<rparr>),
     bufs := front q ((bufs s)(q := (bufs s q)\<lparr>b_refcnt := 0\<rparr>))\<rparr>"

lemma brelse_eq:
  assumes "bio_inv p H s" "q \<in> H"
  shows "brelse q s = Ret () (released q s)"
proof -
  note h = held_bufD [OF assms]
  have al: "alone p (mach s) (procs s)" by (rule bio_invD(1) [OF assms(1)])
  show ?thesis
    using h aloneD [OF al]
    by (simp add: brelse_def mine_holding [OF h(2)] releasesleep_alone [OF al] acquire_calm release_calm
        Let_def) (simp add: released_def front_def upd_slock_def upd_buf_def)
qed

lemma core_cong:
  assumes "\<And>i. core (t i) = core (bufs s i)" and s': "s' = s\<lparr>bufs := t\<rparr>"
  shows "cached s' = cached s" "view s' = view s" "dirties s' = dirties s"
proof -
  note c = core_eqD [OF assms(1)]
  show "cached s' = cached s" by (simp add: cached_def s' c fun_eq_iff)
  then show "view s' = view s" by (auto simp: view_def s' c fun_eq_iff split: option.split)
  show "dirties s' = dirties s" by (simp add: dirties_def s' c)
qed

lemma bio_inv_links:
  assumes "bio_inv p H s" "\<And>i. core (t i) = core (bufs s i)"
    "ring (\<lambda>i. b_next (t i)) (\<lambda>i. b_prev (t i)) xs" "set xs = {..<NBUF}"
  shows "bio_inv p H (s\<lparr>bufs := t\<rparr>)"
proof -
  note c = core_eqD [OF assms(2)]
  have "nxt (s\<lparr>bufs := t\<rparr>) = (\<lambda>i. b_next (t i))" "prv (s\<lparr>bufs := t\<rparr>) = (\<lambda>i. b_prev (t i))"
    by (simp_all add: nxt_def prv_def)
  then show ?thesis
    using assms(1,3,4) unfolding bio_inv_def by (auto simp: buf_ok_def c)
qed

lemma released_ok:
  assumes inv: "bio_inv p H s" and q: "q \<in> H"
    and d: "bdirty (bufs s q) \<or> b_data (bufs s q) = disk s (b_blockno (bufs s q))"
  shows "bio_inv p (H - {q}) (released q s)" "view (released q s) = view s"
    "dirties (released q s) = dirties s" "bio_frame s (released q s)"
    "j \<noteq> q \<Longrightarrow> core (bufs (released q s) j) = core (bufs s j)"
proof -
  note h = held_bufD [OF inv q]
  let ?k = "(bufs s q)\<lparr>b_refcnt := 0\<rparr>" and ?l = "(slocks s (SlBuf q))\<lparr>sl_locked := 0, sl_pid := 0\<rparr>"
  let ?t = "s\<lparr>slocks := (slocks s)(SlBuf q := ?l), bufs := (bufs s)(q := ?k)\<rparr>"
  have r: "released q s = ?t\<lparr>bufs := front q (bufs ?t)\<rparr>" by (simp add: released_def)
  have "buf_ok (p_pid (procs s p)) (disk s) (disksize s) False ?k ?l"
    using bio_invD(3) [OF inv h(1)] h d by (simp add: buf_ok_def bvalid_def bdirty_def)
  then have "bio_inv p (if False then insert q H else H - {q}) ?t"
    using bio_inv_one [OF inv h(1), of ?k False ?l] buf_unique [OF inv h(1,4)] by simp
  then have t: "bio_inv p (H - {q}) ?t" by simp
  then obtain xs where xs: "ring (\<lambda>i. b_next (bufs ?t i)) (\<lambda>i. b_prev (bufs ?t i)) xs" "set xs = {..<NBUF}"
    unfolding bio_inv_def nxt_def prv_def by blast
  have dx: "distinct xs" using xs(1) by (simp add: ring_def)
  show i: "bio_inv p (H - {q}) (released q s)" unfolding r
  proof (rule bio_inv_links [OF t])
    show "ring (\<lambda>i. b_next (front q (bufs ?t) i)) (\<lambda>i. b_prev (front q (bufs ?t) i)) (q # remove1 q xs)"
      by (rule ring_front [OF xs(1)]) (use xs(2) h(1) in simp)
    show "set (q # remove1 q xs) = {..<NBUF}" using xs(2) h(1) dx by auto
  qed simp
  have f: "\<And>i. core (front q (bufs ?t) i) = core (bufs ?t i)" by simp
  note F = core_cong [of "front q (bufs ?t)" ?t, OF f r]
  have "view ?t = (view s)(b_blockno ?k := b_data ?k)"
    using view_one [OF inv h(1), of ?t ?k] t h(4) by simp
  also have "\<dots> = view s" using held_view [OF inv q] by (simp add: fun_upd_idem)
  finally show "view (released q s) = view s" using F(2) by simp
  have "dirties ?t = dirties s" by (auto simp: dirties_def bdirty_def)
  then show "dirties (released q s) = dirties s" using F(3) by simp
  show "bio_frame s (released q s)" by (simp add: bio_frame_def released_def)
  show "core (bufs (released q s) j) = core (bufs s j)" if "j \<noteq> q" using that by (simp add: r)
qed

subsection \<open>Dirty blocks\<close>

definition dblocks :: "'z kst_bio_scheme \<Rightarrow> uint set" where
  "dblocks s = (\<lambda>i. b_blockno (bufs s i)) ` dirties s"

lemma dirty_dev: "bio_inv p H s \<Longrightarrow> i \<in> dirties s \<Longrightarrow> i < NBUF \<and> b_dev (bufs s i) = 1"
  using bio_invD(3) [of p H s i] by (auto simp: dirties_def buf_ok_def)

lemma finite_dirties [simp]: "finite (dirties s)" "finite (dblocks s)"
  by (simp_all add: dblocks_def dirties_def)

lemma card_dblocks: "bio_inv p H s \<Longrightarrow> card (dblocks s) = card (dirties s)"
  unfolding dblocks_def
  by (rule card_image) (auto intro!: inj_onI bio_invD(4) dest: dirty_dev)

lemma dirty_block:
  assumes "bio_inv p H s" "q < NBUF" "b_dev (bufs s q) = 1"
  shows "b_blockno (bufs s q) \<in> dblocks s \<longleftrightarrow> bdirty (bufs s q)"
proof
  assume "b_blockno (bufs s q) \<in> dblocks s"
  then obtain i where i: "i \<in> dirties s" "b_blockno (bufs s q) = b_blockno (bufs s i)"
    by (auto simp: dblocks_def)
  then have "q = i" using bio_invD(4) [OF assms(1,2) _ assms(3)] dirty_dev [OF assms(1)] by auto
  then show "bdirty (bufs s q)" using i by (simp add: dirties_def)
next
  assume "bdirty (bufs s q)"
  then show "b_blockno (bufs s q) \<in> dblocks s" using assms(2) by (auto simp: dblocks_def dirties_def)
qed

lemma dblock_cached: "bio_inv p H s \<Longrightarrow> b \<in> dblocks s \<Longrightarrow> cached s b \<noteq> None"
  unfolding dblocks_def cached_None by (auto dest: dirty_dev)

text \<open>A block that is neither dirty nor held is on disk as the file system sees it.\<close>

lemma view_disk:
  assumes "bio_inv p H s" "b \<notin> dblocks s" "\<And>i. i \<in> H \<Longrightarrow> b_blockno (bufs s i) \<noteq> b"
  shows "view s b = disk s b"
proof (cases "cached s b")
  case None
  then show ?thesis by (simp add: view_def)
next
  case (Some i)
  then have i: "i < NBUF" "b_dev (bufs s i) = 1" "b_blockno (bufs s i) = b"
    using cached_Some [OF assms(1)] by auto
  moreover have "\<not> bdirty (bufs s i)" using dirty_block [OF assms(1) i(1,2)] i(3) assms(2) by simp
  moreover have "i \<notin> H" using assms(3) i(3) by auto
  ultimately show ?thesis using Some bio_invD(3) [OF assms(1) i(1)] by (simp add: view_def buf_ok_def)
qed

lemma bread_blk:
  assumes inv: "bio_inv p H s" and b: "b < disksize s" "\<And>i. i \<in> H \<Longrightarrow> b_blockno (bufs s i) \<noteq> b"
    and room: "b \<in> dblocks s \<or> card H + card (dblocks s) < NBUF"
  shows "wp (bread 1 b s) (\<lambda>q s'. bread_post p H b s q s' \<and> dblocks s' = dblocks s \<and>
    (bdirty (bufs s' q) \<longleftrightarrow> b \<in> dblocks s))"
proof -
  have "\<not> {..<NBUF} \<subseteq> H \<union> dirties s" if "card H + card (dblocks s) < NBUF"
  proof
    assume "{..<NBUF} \<subseteq> H \<union> dirties s"
    moreover have "finite (H \<union> dirties s)"
      using bio_invD(2) [OF inv] by (auto simp: finite_subset [of H "{..<NBUF}"])
    ultimately have "card {..<NBUF} \<le> card (H \<union> dirties s)" by (intro card_mono)
    then have "NBUF \<le> card (H \<union> dirties s)" by simp
    also have "\<dots> \<le> card H + card (dirties s)" by (rule card_Un_le)
    finally show False using that card_dblocks [OF inv] by simp
  qed
  then have "cached s b \<noteq> None \<or> \<not> {..<NBUF} \<subseteq> H \<union> dirties s"
    using room dblock_cached [OF inv] by blast
  then have "wp (bread 1 b s) (bread_post p H b s)" by (intro bread_ok [OF inv b(1)]) (simp_all add: b(2))
  then show ?thesis
  proof (rule wp_mono, intro conjI)
    fix q s' assume P: "bread_post p H b s q s'"
    then have i: "bio_inv p (insert q H) s'" and q: "q \<in> insert q H" "b_blockno (bufs s' q) = b"
      by (simp_all add: bread_post_def)
    show d: "dblocks s' = dblocks s" using P by (auto simp: dblocks_def bread_post_def image_def) metis+
    show "bdirty (bufs s' q) \<longleftrightarrow> b \<in> dblocks s"
      using dirty_block [OF i held_bufD(1,4) [OF i q(1)]] q(2) d by simp
  qed
qed

lemma dblocks_core:
  assumes "dirties s' = dirties s" "\<And>i. i \<in> dirties s \<Longrightarrow> b_blockno (bufs s' i) = b_blockno (bufs s i)"
  shows "dblocks s' = dblocks s"
  using assms by (simp add: dblocks_def cong: image_cong)

lemma dblocks_set_data [simp]: "dblocks (upd_buf q (\<lambda>k. k\<lparr>b_data := d\<rparr>) s) = dblocks s"
  by (rule dblocks_core) (auto simp: dirties_def bdirty_def)

lemma dblocks_written:
  assumes "bio_inv p H s" "q \<in> H"
  shows "dblocks (written q s) = dblocks s - {b_blockno (bufs s q)}"
proof -
  have "b_blockno (bufs s i) \<noteq> b_blockno (bufs s q)" if "i \<in> dirties s" "i \<noteq> q" for i
    using buf_unique [OF assms(1) held_bufD(1,4) [OF assms] _ that(2)] dirty_dev [OF assms(1) that(1)] by auto
  then show ?thesis
    unfolding dblocks_def written_ok(3) [OF assms] by (auto simp: written_def)
qed

lemma dblocks_released:
  assumes "bio_inv p H s" "q \<in> H"
    "bdirty (bufs s q) \<or> b_data (bufs s q) = disk s (b_blockno (bufs s q))"
  shows "dblocks (released q s) = dblocks s"
proof (rule dblocks_core)
  show "dirties (released q s) = dirties s" by (rule released_ok(3) [OF assms])
  have "core (bufs (released q s) i) = core (((bufs s)(q := (bufs s q)\<lparr>b_refcnt := 0\<rparr>)) i)" for i
    by (simp add: released_def)
  from core_eqD(3) [OF this] show "b_blockno (bufs (released q s) i) = b_blockno (bufs s i)" for i by simp
qed

subsection \<open>Initialisation\<close>

lemma binit_loop_ok:
  assumes "ring (\<lambda>i. b_next (bufs s i)) (\<lambda>i. b_prev (bufs s i)) xs" "distinct bs" "set bs \<inter> set xs = {}"
    "NBUF \<notin> set bs" "s' = binit_loop bs s"
  shows "ring (\<lambda>i. b_next (bufs s' i)) (\<lambda>i. b_prev (bufs s' i)) (rev bs @ xs) \<and>
    (\<forall>i. core (bufs s' i) = core (bufs s i)) \<and>
    (\<forall>k. sl_locked (slocks s' k) = (if k \<in> SlBuf ` set bs then 0 else sl_locked (slocks s k))) \<and>
    procs s' = procs s \<and> disk s' = disk s \<and> disksize s' = disksize s"
  using assms
proof (induction bs arbitrary: s xs)
  case (Cons b bs)
  define n where "n = b_next (bufs s NBUF)"
  have bn: "b \<noteq> NBUF" "b \<notin> set xs" using Cons.prems by auto
  have "b_next (bufs s NBUF) \<in> insert NBUF (set xs)"
    using chain_nx Cons.prems(1) unfolding ring_def by blast
  then have nb: "n \<noteq> b" using bn by (auto simp: n_def)
  define t where "t = upd_buf NBUF (\<lambda>k. k\<lparr>b_next := b\<rparr>) (upd_buf n (\<lambda>k. k\<lparr>b_prev := b\<rparr>)
      (initsleeplock (SlBuf b) ''buffer'' (upd_buf b (\<lambda>k. k\<lparr>b_prev := NBUF\<rparr>)
      (upd_buf b (\<lambda>k. k\<lparr>b_next := n\<rparr>) s))))"
  have bl: "binit_loop (b # bs) s = binit_loop bs t"
    using bn by (simp add: t_def n_def initsleeplock_def initlock_def upd_slock_def upd_buf_def)
  have bt: "bufs t = ((((bufs s)(b := (bufs s b)\<lparr>b_next := n, b_prev := NBUF\<rparr>)))
      (n := (if n = b then (bufs s b)\<lparr>b_next := n, b_prev := NBUF\<rparr> else bufs s n)\<lparr>b_prev := b\<rparr>))
      (NBUF := (if NBUF = n then (bufs s n)\<lparr>b_prev := b\<rparr> else bufs s NBUF)\<lparr>b_next := b\<rparr>)"
    using bn nb by (auto simp: t_def initsleeplock_def initlock_def upd_slock_def upd_buf_def fun_eq_iff)
  have "(\<lambda>i. b_next (bufs t i)) = (\<lambda>i. b_next (bufs s i))(b := n, NBUF := b)"
    "(\<lambda>i. b_prev (bufs t i)) = (\<lambda>i. b_prev (bufs s i))(b := NBUF, n := b)"
    using bn nb by (auto simp: bt fun_eq_iff)
  then have r: "ring (\<lambda>i. b_next (bufs t i)) (\<lambda>i. b_prev (bufs t i)) (b # xs)"
    using ring_insert [OF Cons.prems(1) bn(2,1)] by (simp add: n_def)
  have c: "core (bufs t i) = core (bufs s i)" for i using bn nb by (auto simp: bt)
  have f: "procs t = procs s" "disk t = disk s" "disksize t = disksize s"
    "slocks t = (slocks s)(SlBuf b := \<lparr>sl_locked = 0, sl_name = ''buffer'', sl_pid = 0\<rparr>)"
    by (simp_all add: t_def initsleeplock_def initlock_def)
  have "s' = binit_loop bs t" using Cons.prems(5) bl by simp
  from Cons.IH [OF r _ _ _ this] Cons.prems show ?case using c f by auto
qed simp

text \<open>After \<open>binit\<close> the cache is in order for the first process that runs alone.\<close>

lemma binit_ok:
  assumes z: "\<And>i. i < NBUF \<Longrightarrow> b_flags (bufs s i) = 0 \<and> b_dev (bufs s i) = 0 \<and> b_refcnt (bufs s i) = 0"
    and a: "alone p (mach s') (procs s')"
    and s': "bufs s' = bufs (binit s)" "slocks s' = slocks (binit s)"
  shows "bio_inv p {} s'" "dblocks s' = {}" "view s' = disk s'"
proof -
  let ?s = "upd_buf NBUF (\<lambda>k. k\<lparr>b_next := NBUF\<rparr>) (upd_buf NBUF (\<lambda>k. k\<lparr>b_prev := NBUF\<rparr>)
    (initlock LkBcache ''bcache'' s))"
  have "ring (\<lambda>i. b_next (bufs ?s i)) (\<lambda>i. b_prev (bufs ?s i)) []" by (simp add: ring_def)
  from binit_loop_ok [OF this, of "[0..<NBUF]" "binit s"]
  have B: "ring (\<lambda>i. b_next (bufs s' i)) (\<lambda>i. b_prev (bufs s' i)) (rev [0..<NBUF])"
    "\<And>i. core (bufs s' i) = core (bufs ?s i)" "\<And>i. i < NBUF \<Longrightarrow> sl_locked (slocks s' (SlBuf i)) = 0"
    by (simp_all add: s' binit_def Let_def image_iff)
  have c: "b_flags (bufs s' i) = 0 \<and> b_dev (bufs s' i) = 0 \<and> b_refcnt (bufs s' i) = 0" if "i < NBUF" for i
    using core_eqD [OF B(2), of i] z [OF that] that by (simp add: initlock_def)
  have "set (rev [0..<NBUF]) = {..<NBUF}" by auto
  then have "\<exists>xs. ring (nxt s') (prv s') xs \<and> set xs = {..<NBUF}" using B(1) unfolding nxt_def prv_def by blast
  then show "bio_inv p {} s'"
    using a c B(3) unfolding bio_inv_def by (auto simp: buf_ok_def bvalid_def bdirty_def)
  show "dblocks s' = {}" using c by (auto simp: dblocks_def dirties_def bdirty_def)
  show "view s' = disk s'" using c by (intro ext view_uncached) auto
qed

subsection \<open>Properties\<close>

text \<open>C5: the buffer cache is a transparent map from block numbers to contents. Reading a block of
  the disk gives a buffer with the block's current contents; writing new contents through the
  buffer and releasing it changes that block, in the cache and on the disk, and no other block,
  and it is one block write.\<close>

theorem bcache_refines_store:
  assumes "bio_inv p {} s" "dblocks s = {}" "b < disksize s"
  shows "\<exists>q s1 s2. bread 1 b s = Ret q s1 \<and> b_data (bufs s1 q) = view s b \<and>
    bindR (bwrite q (upd_buf q (\<lambda>k. k\<lparr>b_data := d\<rparr>) s1)) (\<lambda>_ s. brelse q s) = Ret () s2 \<and>
    bio_inv p {} s2 \<and> view s2 = (view s)(b := d) \<and> disk s2 = (disk s)(b := d) \<and>
    dwrites s2 = dwrites s @ [(b, d)]"
proof -
  have "wp (bread 1 b s) (\<lambda>q s'. bread_post p {} b s q s' \<and> dblocks s' = dblocks s \<and>
      (bdirty (bufs s' q) \<longleftrightarrow> b \<in> dblocks s))"
    by (rule bread_blk [OF assms(1,3)]) (use assms(2) in \<open>auto simp: NBUF_def MAXOPBLOCKS_def\<close>)
  then obtain q s1 where r: "bread 1 b s = Ret q s1" and P: "bread_post p {} b s q s1"
    by (auto elim: wpE)
  have i: "bio_inv p {q} s1" and q: "b_blockno (bufs s1 q) = b" "b_data (bufs s1 q) = view s b"
    "view s1 = view s" and f: "s1 = s\<lparr>slocks := slocks s1, bufs := bufs s1\<rparr>"
    using P by (simp_all add: bread_post_def bio_frame_def)
  have eq: "disk s1 = disk s" "dwrites s1 = dwrites s"
    using arg_cong [OF f, of disk] arg_cong [OF f, of dwrites] by simp_all
  have m: "q \<in> {q}" by simp
  let ?t = "upd_buf q (\<lambda>k. k\<lparr>b_data := d\<rparr>) s1" let ?w = "written q ?t"
  note T = set_data_ok [OF i m, of ?t d, OF refl] note W = written_ok [OF T(1) m]
  have c: "bdirty (bufs ?w q) \<or> b_data (bufs ?w q) = disk ?w (b_blockno (bufs ?w q))"
    by (simp add: written_def)
  note R = released_ok [OF W(1) m c]
  have "disk (released q ?w) = (disk s)(b := d)" "dwrites (released q ?w) = dwrites s @ [(b, d)]"
    using q eq by (simp_all add: released_def written_def)
  then show ?thesis
    using r q R W T bwrite_eq [OF T(1) m] brelse_eq [OF W(1) m]
    by (intro exI [of _ q] exI [of _ s1] exI [of _ "released q ?w"]) simp
qed

lemma find_rev: "find P (rev xs) = (if filter P xs = [] then None else Some (last (filter P xs)))"
  by (induction xs rule: rev_induct) auto

text \<open>C21: a block that is not cached is read into the least recently used buffer that is neither in
  use nor dirty; when there is none, \<open>bget\<close> panics.\<close>

theorem bget_recycles_lru:
  fixes s :: "'z kst_bio_scheme"
  assumes "bio_inv p H s" "ring (nxt s) (prv s) xs" "set xs = {..<NBUF}" "cached s b = None"
    and "ys = filter (\<lambda>i. b_refcnt (bufs s i) = 0 \<and> \<not> bdirty (bufs s i)) xs"
  shows "if ys = [] then bget 1 b s = Panic ''bget: no buffers''
    else \<exists>s'. bget 1 b s = Ret (last ys) s' \<and> b_blockno (bufs s' (last ys)) = b"
proof -
  note A = aloneD [OF bio_invD(1) [OF assms(1)]]
  let ?P = "\<lambda>k. b_dev k = 1 \<and> b_blockno k = b" and ?Q = "\<lambda>k. b_refcnt k = 0 \<and> b_flags k AND B_DIRTY = 0"
  have "find (\<lambda>i. ?P (bufs s i)) xs = None" using assms(3,4) by (auto simp: find_None_iff cached_None)
  then have 1: "scan_next ?P (Suc NBUF) (b_next (bufs s NBUF)) (bufs s) = Some NBUF"
    by (simp add: ring_scans [OF assms(2,3)])
  have 2: "scan_prev ?Q (Suc NBUF) (b_prev (bufs s NBUF)) (bufs s) =
      Some (if ys = [] then NBUF else last ys)"
    using assms(5) by (simp add: ring_scans [OF assms(2,3)] find_rev bdirty_def)
  show ?thesis
  proof (cases "ys = []")
    case True
    then show ?thesis using 1 2 A by (simp add: bget_def acquire_calm)
  next
    case False
    then have "last ys \<in> set ys" by simp
    then have q: "last ys < NBUF" "b_refcnt (bufs s (last ys)) = 0" using assms(3,5) by auto
    then have l: "sl_locked (slocks s (SlBuf (last ys))) = 0"
      using bio_invD(3) [OF assms(1) q(1)] by (auto simp: buf_ok_def split: if_splits)
    let ?s = "upd_buf (last ys) (\<lambda>k. k\<lparr>b_dev := 1, b_blockno := b, b_flags := 0, b_refcnt := 1\<rparr>) s"
    have "acquiresleep (SlBuf (last ys)) ?s = Ret () (upd_slock (SlBuf (last ys))
        (\<lambda>l. l\<lparr>sl_locked := 1, sl_pid := p_pid (procs s p)\<rparr>) ?s)"
      using acquiresleep_alone [of p ?s "SlBuf (last ys)"] bio_invD(1) [OF assms(1)] l by simp
    then show ?thesis
      using 1 2 A q False by (simp add: bget_def acquire_calm release_calm Let_def)
  qed
qed

subsection \<open>A state just after \<open>binit\<close>\<close>

definition buf0 :: buf where
  "buf0 = \<lparr>b_flags = 0, b_dev = 0, b_blockno = 0, b_refcnt = 0, b_prev = 0, b_next = 0, b_qnext = None,
     b_data = (\<lambda>_. 0)\<rparr>"

definition pre_bio :: kst_bio where
  "pre_bio = \<lparr>mach = mach3, mem = (\<lambda>_. 0), kmem = \<lparr>use_lock = 1, freelist = 0\<rparr>, kend = 0x80100000,
     kpgdir = 0, kdata = 0x80108000, cr3 = 0, procs = table3 NORM_PRIO, nextpid = 8, initproc = Some 3,
     forkret_addr = 0, trapret_addr = 0, slocks = (\<lambda>_. \<lparr>sl_locked = 0, sl_name = '''', sl_pid = 0\<rparr>),
     disk = (\<lambda>_ _. 0), disksize = 1000, dwrites = [], bufs = (\<lambda>_. buf0)\<rparr>"

definition bio3 :: kst_bio where
  "bio3 = pre_bio\<lparr>bufs := bufs (binit pre_bio), slocks := slocks (binit pre_bio)\<rparr>"

lemma alone3: "alone 3 mach3 (table3 pr)"
  using NPROC_def
  by (auto simp: alone_def table3_def proc0_def proc1_def)

lemma bio3: "bio_inv 3 {} bio3" "dblocks bio3 = {}" "view bio3 = (\<lambda>_ _. 0)" "disksize bio3 = 1000"
proof -
  have "bio_inv 3 {} bio3 \<and> dblocks bio3 = {} \<and> view bio3 = disk bio3"
    using binit_ok [of pre_bio 3 bio3] by (simp add: bio3_def pre_bio_def alone3 buf0_def)
  then show "bio_inv 3 {} bio3" "dblocks bio3 = {}" "view bio3 = (\<lambda>_ _. 0)" by (auto simp: bio3_def pre_bio_def)
  show "disksize bio3 = 1000" by (simp add: bio3_def pre_bio_def)
qed

theorem bcache_refines_store_witness:
  "\<exists>q s1 s2. bread 1 7 bio3 = Ret q s1 \<and> b_data (bufs s1 q) = (\<lambda>_. 0) \<and>
    bindR (bwrite q (upd_buf q (\<lambda>k. k\<lparr>b_data := (\<lambda>_. 9)\<rparr>) s1)) (\<lambda>_ s. brelse q s) = Ret () s2 \<and>
    view s2 = (\<lambda>_ _. 0)(7 := (\<lambda>_. 9))"
  using bcache_refines_store [OF bio3(1,2), of 7 "\<lambda>_. 9"] bio3(3,4) by (simp, blast)

theorem bget_recycles_lru_witness:
  "\<exists>s'. bget 1 7 bio3 = Ret 0 s' \<and> b_blockno (bufs s' 0) = 7"
proof -
  let ?s = "upd_buf NBUF (\<lambda>k. k\<lparr>b_next := NBUF\<rparr>) (upd_buf NBUF (\<lambda>k. k\<lparr>b_prev := NBUF\<rparr>)
    (initlock LkBcache ''bcache'' pre_bio))"
  have "ring (\<lambda>i. b_next (bufs ?s i)) (\<lambda>i. b_prev (bufs ?s i)) []" by (simp add: ring_def)
  from binit_loop_ok [OF this, of "[0..<NBUF]" "binit pre_bio"]
  have r: "ring (nxt bio3) (prv bio3) (rev [0..<NBUF])" and c: "\<And>i. core (bufs bio3 i) = core (bufs ?s i)"
    by (simp_all add: bio3_def binit_def Let_def nxt_def prv_def)
  have z: "b_refcnt (bufs bio3 i) = 0 \<and> \<not> bdirty (bufs bio3 i)" "b_dev (bufs bio3 i) = 0" for i
    using core_eqD [OF c, of i] by (simp_all add: initlock_def pre_bio_def buf0_def bdirty_def split: if_splits)
  then have n: "cached bio3 7 = None" by (simp add: cached_None)
  have "filter (\<lambda>i. b_refcnt (bufs bio3 i) = 0 \<and> \<not> bdirty (bufs bio3 i)) (rev [0..<NBUF]) = rev [0..<NBUF]"
    using z by simp
  moreover have "set (rev [0..<NBUF]) = {..<NBUF}" "rev [0..<NBUF] \<noteq> []" "last (rev [0..<NBUF]) = 0"
    by (auto simp: NBUF_def MAXOPBLOCKS_def last_rev)
  ultimately show ?thesis
    using bget_recycles_lru [OF bio3(1) r _ n refl] by simp
qed

end
