(* ===== verification/Xv6_Layout.thy ===== *)
theory Xv6_Layout
  imports Xv6_Params Xv6_String
begin

section \<open>On-disk format (fs.h, log.c)\<close>

text \<open>
  The structures the code lays over the bytes of a block: superblock, disk inode, directory entry
  and log header. Reading a field of the overlaid struct is \<open>get16\<close> or \<open>get32\<close> at the field's
  offset, storing to it \<open>put16\<close> or \<open>put32\<close>. The lemmas give the round trips and that a store
  leaves the bytes of other fields alone.
\<close>

definition get16 :: "bytes \<Rightarrow> nat \<Rightarrow> ushort" where
  "get16 d o' = le16 (d o') (d (Suc o'))"

definition get32 :: "bytes \<Rightarrow> nat \<Rightarrow> uint" where
  "get32 d o' = le32 (d o') (d (o' + 1)) (d (o' + 2)) (d (o' + 3))"

definition put16 :: "nat \<Rightarrow> ushort \<Rightarrow> bytes \<Rightarrow> bytes" where
  "put16 o' w d = d(o' := byte_of 0 w, o' + 1 := byte_of 1 w)"

definition put32 :: "nat \<Rightarrow> uint \<Rightarrow> bytes \<Rightarrow> bytes" where
  "put32 o' w d = d(o' := byte_of 0 w, o' + 1 := byte_of 1 w, o' + 2 := byte_of 2 w, o' + 3 := byte_of 3 w)"

lemma get_put_same [simp]: "get16 (put16 o' w d) o' = w" "get32 (put32 o' v d) o' = v"
  by (simp_all add: get16_def put16_def get32_def put32_def)

lemma put_byte:
  "i < o' \<or> o' + 2 \<le> i \<Longrightarrow> put16 o' w d i = d i"
  "i < o' \<or> o' + 4 \<le> i \<Longrightarrow> put32 o' v d i = d i"
  by (auto simp: put16_def put32_def)

lemma get_put_other:
  "a + 2 \<le> b \<or> b + 2 \<le> a \<Longrightarrow> get16 (put16 b w d) a = get16 d a"
  "a + 2 \<le> b \<or> b + 4 \<le> a \<Longrightarrow> get16 (put32 b v d) a = get16 d a"
  "a + 4 \<le> b \<or> b + 2 \<le> a \<Longrightarrow> get32 (put16 b w d) a = get32 d a"
  "a + 4 \<le> b \<or> b + 4 \<le> a \<Longrightarrow> get32 (put32 b v d) a = get32 d a"
  by (auto simp: get16_def get32_def put16_def put32_def)

text \<open>\<open>memmove(dst + off, src, n)\<close> between arrays of bytes.\<close>

definition blit :: "nat \<Rightarrow> bytes \<Rightarrow> nat \<Rightarrow> bytes \<Rightarrow> bytes" where
  "blit off src n d = (\<lambda>i. if off \<le> i \<and> i < off + n then src (i - off) else d i)"

lemma blit_0 [simp]: "blit off src 0 d = d" by (auto simp: blit_def fun_eq_iff)

subsection \<open>Arrays of words\<close>

primrec put_words :: "nat \<Rightarrow> (nat \<Rightarrow> uint) \<Rightarrow> nat \<Rightarrow> bytes \<Rightarrow> bytes" where
  "put_words o' a 0 d = d"
| "put_words o' a (Suc n) d = put32 (o' + 4 * n) (a n) (put_words o' a n d)"

primrec get_words :: "bytes \<Rightarrow> nat \<Rightarrow> nat \<Rightarrow> (nat \<Rightarrow> uint) \<Rightarrow> nat \<Rightarrow> uint" where
  "get_words d o' 0 a = a"
| "get_words d o' (Suc n) a = (get_words d o' n a)(n := get32 d (o' + 4 * n))"

lemma get_words_nth: "get_words d o' n a i = (if i < n then get32 d (o' + 4 * i) else a i)"
  by (induction n) auto

lemma put_words_byte: "i < o' \<or> o' + 4 * n \<le> i \<Longrightarrow> put_words o' a n d i = d i"
  by (induction n) (auto simp: put_byte)

lemma get32_put_words: "i < n \<Longrightarrow> get32 (put_words o' a n d) (o' + 4 * i) = a i"
proof (induction n)
  case (Suc n)
  then show ?case by (cases "i = n") (simp_all add: get_put_other)
qed simp

lemma get_put_words_other:
  "a + 2 \<le> o' \<or> o' + 4 * n \<le> a \<Longrightarrow> get16 (put_words o' f n d) a = get16 d a"
  "a + 4 \<le> o' \<or> o' + 4 * n \<le> a \<Longrightarrow> get32 (put_words o' f n d) a = get32 d a"
  by (auto simp: get16_def get32_def put_words_byte)

subsection \<open>Superblock\<close>

record superblock =
  sb_size :: uint
  sb_nblocks :: uint
  sb_ninodes :: uint
  sb_nlog :: uint
  sb_logstart :: uint
  sb_inodestart :: uint
  sb_bmapstart :: uint

definition sb_get :: "bytes \<Rightarrow> superblock" where
  "sb_get d = \<lparr>sb_size = get32 d 0, sb_nblocks = get32 d 4, sb_ninodes = get32 d 8,
     sb_nlog = get32 d 12, sb_logstart = get32 d 16, sb_inodestart = get32 d 20,
     sb_bmapstart = get32 d 24\<rparr>"

definition sb_put :: "superblock \<Rightarrow> bytes \<Rightarrow> bytes" where
  "sb_put b d = put32 24 (sb_bmapstart b) (put32 20 (sb_inodestart b) (put32 16 (sb_logstart b)
     (put32 12 (sb_nlog b) (put32 8 (sb_ninodes b) (put32 4 (sb_nblocks b) (put32 0 (sb_size b) d))))))"

lemma sb_get_put [simp]: "sb_get (sb_put b d) = b"
  by (simp add: sb_get_def sb_put_def get_put_other)

subsection \<open>Disk inodes\<close>

record dinode =
  di_type :: ushort
  di_major :: ushort
  di_minor :: ushort
  di_nlink :: ushort
  di_size :: uint
  di_addrs :: "nat \<Rightarrow> uint"

definition DINODE_SIZE :: nat where "DINODE_SIZE = 64"

text \<open>The inode at byte offset \<open>off\<close> of a block; only the first \<open>NDIRECT + 1\<close> addresses exist.\<close>

definition dinode_get :: "bytes \<Rightarrow> nat \<Rightarrow> dinode" where
  "dinode_get d off = \<lparr>di_type = get16 d off, di_major = get16 d (off + 2), di_minor = get16 d (off + 4),
     di_nlink = get16 d (off + 6), di_size = get32 d (off + 8),
     di_addrs = get_words d (off + 12) (NDIRECT + 1) (\<lambda>_. 0)\<rparr>"

definition dinode_put :: "nat \<Rightarrow> dinode \<Rightarrow> bytes \<Rightarrow> bytes" where
  "dinode_put off di d = put_words (off + 12) (di_addrs di) (NDIRECT + 1)
     (put32 (off + 8) (di_size di) (put16 (off + 6) (di_nlink di) (put16 (off + 4) (di_minor di)
     (put16 (off + 2) (di_major di) (put16 off (di_type di) d)))))"

definition addrs_ok :: "dinode \<Rightarrow> bool" where
  "addrs_ok di \<longleftrightarrow> (\<forall>i > NDIRECT. di_addrs di i = 0)"

lemma dinode_put_byte: "i < off \<or> off + DINODE_SIZE \<le> i \<Longrightarrow> dinode_put off di d i = d i"
  by (auto simp: dinode_put_def put_words_byte put_byte DINODE_SIZE_def NDIRECT_def)

lemma dinode_get_addrs_ok [simp]: "addrs_ok (dinode_get d off)"
  by (simp add: dinode_get_def addrs_ok_def get_words_nth)

lemma dinode_get_put: "addrs_ok di \<Longrightarrow> dinode_get (dinode_put off di d) off = di"
proof -
  assume ok: "addrs_ok di"
  have "get_words (dinode_put off di d) (off + 12) (NDIRECT + 1) (\<lambda>_. 0) = di_addrs di"
    using ok by (auto simp: fun_eq_iff get_words_nth dinode_put_def get32_put_words get_put_other addrs_ok_def)
  then show ?thesis
    by (simp add: dinode_get_def) (simp add: dinode_put_def get_put_words_other get_put_other)
qed

lemma dinode_get_cong:
  "(\<And>i. off \<le> i \<Longrightarrow> i < off + DINODE_SIZE \<Longrightarrow> d i = d' i) \<Longrightarrow> dinode_get d off = dinode_get d' off"
  by (auto simp: dinode_get_def get16_def get32_def get_words_nth fun_eq_iff DINODE_SIZE_def NDIRECT_def)

lemma dinode_get_put_other:
  "a + DINODE_SIZE \<le> b \<or> b + DINODE_SIZE \<le> a \<Longrightarrow> dinode_get (dinode_put b di d) a = dinode_get d a"
  by (rule dinode_get_cong) (auto simp: dinode_put_byte)

subsection \<open>Directory entries\<close>

record dirent =
  de_inum :: ushort
  de_name :: bytes

definition DIRENT_SIZE :: nat where "DIRENT_SIZE = 16"

definition dirent_get :: "bytes \<Rightarrow> dirent" where
  "dirent_get d = \<lparr>de_inum = get16 d 0, de_name = (\<lambda>i. if i < DIRSIZ then d (2 + i) else 0)\<rparr>"

definition dirent_put :: "dirent \<Rightarrow> bytes" where
  "dirent_put de = put16 0 (de_inum de) (\<lambda>i. if 2 \<le> i \<and> i < 2 + DIRSIZ then de_name de (i - 2) else 0)"

lemma dirent_get_put:
  "(\<And>i. DIRSIZ \<le> i \<Longrightarrow> de_name de i = 0) \<Longrightarrow> dirent_get (dirent_put de) = de"
  by (auto simp: dirent_get_def dirent_put_def put_byte fun_eq_iff intro!: dirent.equality)

end
