(* ===== verification/Xv6_Log.thy ===== *)
theory Xv6_Log
  imports Xv6_Bio Xv6_Layout
begin

section \<open>Write-ahead log (log.c)\<close>

text \<open>
  The log of \<open>log.c\<close>: block numbers of the header are kept as their 32-bit patterns, the counts
  as C integers. A whole block is copied by \<open>memmove(to->data, from->data, BSIZE)\<close>. A header whose
  count exceeds the array \<open>block\<close> makes the code run past the array, which is \<open>Undef\<close> here.

  The effect lemmas describe each step by the view of the blocks, by the set of dirty buffers and
  by the block writes it adds to \<open>dwrites\<close>. From the writes of \<open>commit\<close> alone follows what a disk
  holds after a crash in the middle of it, and what \<open>recover_from_log\<close> makes of such a disk.
\<close>

record logheader =
  lh_n :: int
  lh_block :: "nat \<Rightarrow> uint"

record log =
  lg_start :: uint
  lg_size :: int
  lg_outstanding :: int
  lg_committing :: int
  lg_dev :: uint
  lg_lh :: logheader

record kst_log = kst_bio +
  klog :: log

definition upd_log :: "(log \<Rightarrow> log) \<Rightarrow> 'z kst_log_scheme \<Rightarrow> 'z kst_log_scheme" where
  "upd_log f s = s\<lparr>klog := f (klog s)\<rparr>"

definition upd_lh :: "(logheader \<Rightarrow> logheader) \<Rightarrow> log \<Rightarrow> log" where
  "upd_lh f l = l\<lparr>lg_lh := f (lg_lh l)\<rparr>"

subsection \<open>Operations\<close>

definition readsb :: "uint \<Rightarrow> 'z kst_bio_scheme \<Rightarrow> (superblock, 'z kst_bio_scheme) res" where
  "readsb dev s =
     bindR (bread dev 1 s) (\<lambda>bp s.
     let sb = sb_get (b_data (bufs s bp)) in
     bindR (brelse bp s) (\<lambda>_ s.
     Ret sb s))"

primrec install_loop :: "nat \<Rightarrow> nat \<Rightarrow> 'z kst_log_scheme \<Rightarrow> (unit, 'z kst_log_scheme) res" where
  "install_loop 0 tail s = Ret () s"
| "install_loop (Suc k) tail s =
     bindR (bread (lg_dev (klog s)) (lg_start (klog s) + of_nat tail + 1) s) (\<lambda>lbuf s.
     bindR (bread (lg_dev (klog s)) (lh_block (lg_lh (klog s)) tail) s) (\<lambda>dbuf s.
     let s = upd_buf dbuf (\<lambda>b. b\<lparr>b_data := b_data (bufs s lbuf)\<rparr>) s in
     bindR (bwrite dbuf s) (\<lambda>_ s.
     bindR (brelse lbuf s) (\<lambda>_ s.
     bindR (brelse dbuf s) (\<lambda>_ s.
     install_loop k (tail + 1) s)))))"

definition install_trans :: "'z kst_log_scheme \<Rightarrow> (unit, 'z kst_log_scheme) res" where
  "install_trans s =
     (if lh_n (lg_lh (klog s)) > int LOGSIZE then Undef
      else install_loop (nat (lh_n (lg_lh (klog s)))) 0 s)"

definition read_head :: "'z kst_log_scheme \<Rightarrow> (unit, 'z kst_log_scheme) res" where
  "read_head s =
     bindR (bread (lg_dev (klog s)) (lg_start (klog s)) s) (\<lambda>b s.
     let d = b_data (bufs s b); n = sint (get32 d 0) in
     if n > int LOGSIZE then Undef
     else
       let s = upd_log (upd_lh (\<lambda>lh. lh\<lparr>lh_n := n\<rparr>)) s;
           s = upd_log (upd_lh (\<lambda>lh. lh\<lparr>lh_block := get_words d 4 (nat n) (lh_block lh)\<rparr>)) s
       in brelse b s)"

definition write_head :: "'z kst_log_scheme \<Rightarrow> (unit, 'z kst_log_scheme) res" where
  "write_head s =
     bindR (bread (lg_dev (klog s)) (lg_start (klog s)) s) (\<lambda>b s.
     let lh = lg_lh (klog s) in
     if lh_n lh > int LOGSIZE then Undef
     else
       let s = upd_buf b (\<lambda>k. k\<lparr>b_data := put32 0 (of_int (lh_n lh)) (b_data k)\<rparr>) s;
           s = upd_buf b (\<lambda>k. k\<lparr>b_data := put_words 4 (lh_block lh) (nat (lh_n lh)) (b_data k)\<rparr>) s
       in
       bindR (bwrite b s) (\<lambda>_ s.
       brelse b s))"

definition recover_from_log :: "'z kst_log_scheme \<Rightarrow> (unit, 'z kst_log_scheme) res" where
  "recover_from_log s =
     bindR (read_head s) (\<lambda>_ s.
     bindR (install_trans s) (\<lambda>_ s.
     write_head (upd_log (upd_lh (\<lambda>lh. lh\<lparr>lh_n := 0\<rparr>)) s)))"

definition initlog :: "uint \<Rightarrow> 'z kst_log_scheme \<Rightarrow> (unit, 'z kst_log_scheme) res" where
  "initlog dev s =
     (if 4 * (1 + LOGSIZE) \<ge> BSIZE then Panic ''initlog: too big logheader''
      else
        let s = initlock LkLog ''log'' s in
        bindR (readsb dev s) (\<lambda>sb s.
        recover_from_log (upd_log (\<lambda>l. l\<lparr>lg_start := sb_logstart sb, lg_size := sint (sb_nlog sb),
          lg_dev := dev\<rparr>) s)))"

definition begin_op_loop :: "'z kst_log_scheme \<Rightarrow> (unit, 'z kst_log_scheme) res" where
  "begin_op_loop s =
     (if lg_committing (klog s) \<noteq> 0 then sleep ChLog LkLog s
      else if lh_n (lg_lh (klog s)) + (lg_outstanding (klog s) + 1) * int MAXOPBLOCKS > int LOGSIZE
      then sleep ChLog LkLog s
      else release LkLog (upd_log (\<lambda>l. l\<lparr>lg_outstanding := lg_outstanding l + 1\<rparr>) s))"

definition begin_op :: "'z kst_log_scheme \<Rightarrow> (unit, 'z kst_log_scheme) res" where
  "begin_op s = bindR (acquire LkLog s) (\<lambda>_ s. begin_op_loop s)"

definition begin_op_return :: "bool \<Rightarrow> nat \<Rightarrow> 'z kst_log_scheme \<Rightarrow> (unit, 'z kst_log_scheme) res" where
  "begin_op_return ie p s = bindR (sleep_return ie p LkLog s) (\<lambda>_ s. begin_op_loop s)"

primrec write_log_loop :: "nat \<Rightarrow> nat \<Rightarrow> 'z kst_log_scheme \<Rightarrow> (unit, 'z kst_log_scheme) res" where
  "write_log_loop 0 tail s = Ret () s"
| "write_log_loop (Suc k) tail s =
     bindR (bread (lg_dev (klog s)) (lg_start (klog s) + of_nat tail + 1) s) (\<lambda>to s.
     bindR (bread (lg_dev (klog s)) (lh_block (lg_lh (klog s)) tail) s) (\<lambda>from s.
     let s = upd_buf to (\<lambda>b. b\<lparr>b_data := b_data (bufs s from)\<rparr>) s in
     bindR (bwrite to s) (\<lambda>_ s.
     bindR (brelse from s) (\<lambda>_ s.
     bindR (brelse to s) (\<lambda>_ s.
     write_log_loop k (tail + 1) s)))))"

definition write_log :: "'z kst_log_scheme \<Rightarrow> (unit, 'z kst_log_scheme) res" where
  "write_log s =
     (if lh_n (lg_lh (klog s)) > int LOGSIZE then Undef
      else write_log_loop (nat (lh_n (lg_lh (klog s)))) 0 s)"

definition commit :: "'z kst_log_scheme \<Rightarrow> (unit, 'z kst_log_scheme) res" where
  "commit s =
     (if lh_n (lg_lh (klog s)) > 0 then
        bindR (write_log s) (\<lambda>_ s.
        bindR (write_head s) (\<lambda>_ s.
        bindR (install_trans s) (\<lambda>_ s.
        write_head (upd_log (upd_lh (\<lambda>lh. lh\<lparr>lh_n := 0\<rparr>)) s))))
      else Ret () s)"

definition end_op :: "'z kst_log_scheme \<Rightarrow> (unit, 'z kst_log_scheme) res" where
  "end_op s =
     bindR (acquire LkLog s) (\<lambda>_ s.
     let s = upd_log (\<lambda>l. l\<lparr>lg_outstanding := lg_outstanding l - 1\<rparr>) s in
     if lg_committing (klog s) \<noteq> 0 then Panic ''log.committing''
     else if lg_outstanding (klog s) = 0
     then
       bindR (release LkLog (upd_log (\<lambda>l. l\<lparr>lg_committing := 1\<rparr>) s)) (\<lambda>_ s.
       bindR (commit s) (\<lambda>_ s.
       bindR (acquire LkLog s) (\<lambda>_ s.
       bindR (wakeup ChLog (upd_log (\<lambda>l. l\<lparr>lg_committing := 0\<rparr>) s)) (\<lambda>_ s.
       release LkLog s))))
     else
       bindR (wakeup ChLog s) (\<lambda>_ s.
       release LkLog s))"

text \<open>The loop that looks for the block in the header: its index, or the count.\<close>

definition log_index :: "uint \<Rightarrow> logheader \<Rightarrow> nat" where
  "log_index b lh = (case find (\<lambda>i. lh_block lh i = b) [0..<nat (lh_n lh)] of Some i \<Rightarrow> i
     | None \<Rightarrow> nat (lh_n lh))"

definition log_write :: "nat \<Rightarrow> 'z kst_log_scheme \<Rightarrow> (unit, 'z kst_log_scheme) res" where
  "log_write b s =
     (let l = klog s in
      if lh_n (lg_lh l) \<ge> int LOGSIZE \<or> lh_n (lg_lh l) \<ge> lg_size l - 1
      then Panic ''too big a transaction''
      else if lg_outstanding l < 1 then Panic ''log_write outside of trans''
      else
        bindR (acquire LkLog s) (\<lambda>_ s.
        let bno = b_blockno (bufs s b);
            i = log_index bno (lg_lh (klog s));
            s = upd_log (upd_lh (\<lambda>lh. lh\<lparr>lh_block := (lh_block lh)(i := bno)\<rparr>)) s;
            s = upd_log (upd_lh (\<lambda>lh. if int i = lh_n lh then lh\<lparr>lh_n := lh_n lh + 1\<rparr> else lh)) s;
            s = upd_buf b (\<lambda>k. k\<lparr>b_flags := b_flags k OR B_DIRTY\<rparr>) s
        in release LkLog s))"

lemma upd_log_simps [simp]:
  "mach (upd_log f s) = mach s" "procs (upd_log f s) = procs s" "slocks (upd_log f s) = slocks s"
  "disk (upd_log f s) = disk s" "disksize (upd_log f s) = disksize s" "dwrites (upd_log f s) = dwrites s"
  "bufs (upd_log f s) = bufs s" "klog (upd_log f s) = f (klog s)"
  "(upd_log f s)\<lparr>mach := mach s\<rparr> = upd_log f s" "upd_log f (s\<lparr>mach := m\<rparr>) = (upd_log f s)\<lparr>mach := m\<rparr>"
  "upd_log f (upd_log g s) = upd_log (\<lambda>l. f (g l)) s"
  by (simp_all add: upd_log_def)

lemma upd_log_bio [simp]:
  "bio_inv p H (upd_log f s) = bio_inv p H s" "view (upd_log f s) = view s"
  "dblocks (upd_log f s) = dblocks s" "dirties (upd_log f s) = dirties s"
  by (simp_all add: bio_inv_def nxt_def prv_def view_def cached_def dblocks_def dirties_def fun_eq_iff
      split: option.split)

subsection \<open>Block writes\<close>

definition disk_after :: "(uint \<times> bytes) list \<Rightarrow> (uint \<Rightarrow> bytes) \<Rightarrow> uint \<Rightarrow> bytes" where
  "disk_after ws d = fold (\<lambda>(b, x) d. d(b := x)) ws d"

lemma disk_after_simps [simp]:
  "disk_after [] d = d" "disk_after ((b, x) # ws) d = disk_after ws (d(b := x))"
  "disk_after (ws @ vs) d = disk_after vs (disk_after ws d)"
  by (simp_all add: disk_after_def)

lemma disk_after_other: "b \<notin> fst ` set ws \<Longrightarrow> disk_after ws d b = d b"
  by (induction ws arbitrary: d) auto

text \<open>\<open>s'\<close> comes from \<open>s\<close> by the writes \<open>ws\<close>; besides, only buffers and their locks differ.\<close>

definition wrote :: "(uint \<times> bytes) list \<Rightarrow> 'z kst_bio_scheme \<Rightarrow> 'z kst_bio_scheme \<Rightarrow> bool" where
  "wrote ws s s' \<longleftrightarrow> (\<forall>i. slocks s' (SlInode i) = slocks s (SlInode i)) \<and>
     (\<exists>l t. s' = s\<lparr>slocks := l, disk := disk_after ws (disk s), dwrites := dwrites s @ ws, bufs := t\<rparr>)"

lemma wroteD:
  assumes "wrote ws s s'"
  shows "disk s' = disk_after ws (disk s)" "dwrites s' = dwrites s @ ws" "disksize s' = disksize s"
    "mach s' = mach s" "procs s' = procs s"
  using assms by (auto simp: wrote_def)

lemma wrote_klog: "wrote ws s s' \<Longrightarrow> klog s' = klog s"
  by (auto simp: wrote_def)

lemma wroteI:
  assumes "s' = s\<lparr>slocks := l, disk := disk_after ws (disk s), dwrites := dwrites s @ ws, bufs := t\<rparr>"
    "\<And>i. slocks s' (SlInode i) = slocks s (SlInode i)"
  shows "wrote ws s s'"
  using assms unfolding wrote_def by blast

lemma wrote_inode: "wrote ws s s' \<Longrightarrow> slocks s' (SlInode i) = slocks s (SlInode i)"
  by (simp add: wrote_def)

lemma wrote_trans:
  assumes "wrote ws s s'" "wrote vs s' s''"
  shows "wrote (ws @ vs) s s''"
proof -
  from assms obtain l t where
    "s'' = s\<lparr>slocks := l, disk := disk_after (ws @ vs) (disk s), dwrites := dwrites s @ (ws @ vs), bufs := t\<rparr>"
    by (auto simp: wrote_def)
  then show ?thesis
    by (rule wroteI) (simp add: wrote_inode [OF assms(1)] wrote_inode [OF assms(2)])
qed

lemma wrote_bufs [simp]: "wrote [] s (s\<lparr>bufs := t\<rparr>)" "wrote [] s (upd_buf q f s)"
  by (rule wroteI [where l = "slocks s" and t = t]
      wroteI [where l = "slocks s" and t = "(bufs s)(q := f (bufs s q))"]; simp add: upd_buf_def)+

lemma wrote_frame: "bio_frame s s' \<Longrightarrow> wrote [] s s'"
  unfolding bio_frame_def by (intro wroteI [where l = "slocks s'" and t = "bufs s'"]) simp_all

lemma wrote_upd_log:
  assumes "wrote ws s s'"
  shows "wrote ws (upd_log f s) (upd_log f s')"
proof -
  from assms obtain l t where
    "s' = s\<lparr>slocks := l, disk := disk_after ws (disk s), dwrites := dwrites s @ ws, bufs := t\<rparr>"
    by (auto simp: wrote_def)
  then show ?thesis
    using wrote_inode [OF assms] by (intro wroteI [where l = l and t = t]) (simp_all add: upd_log_def)
qed

lemma wrote_written: "wrote [(b_blockno (bufs s q), b_data (bufs s q))] s (written q s)"
  by (rule wroteI [where l = "slocks s" and t = "bufs (written q s)"]) (simp_all add: written_def upd_buf_def)

lemma wrote_released: "wrote [] s (released q s)"
  by (rule wroteI [where l = "slocks (released q s)" and t = "bufs (released q s)"]) (simp_all add: released_def)

subsection \<open>Copying a block through the cache\<close>

text \<open>Read two different blocks: the common beginning of the loops of \<open>install_trans\<close> and
  \<open>write_log\<close>.\<close>

definition two_held :: "nat \<Rightarrow> uint \<Rightarrow> uint \<Rightarrow> 'z kst_bio_scheme \<Rightarrow> nat \<Rightarrow> nat \<Rightarrow> 'z kst_bio_scheme \<Rightarrow> bool" where
  "two_held p x y s qx qy s' \<longleftrightarrow> qx \<noteq> qy \<and> bio_inv p {qx, qy} s' \<and>
     b_blockno (bufs s' qx) = x \<and> b_blockno (bufs s' qy) = y \<and>
     b_data (bufs s' qx) = view s x \<and> b_data (bufs s' qy) = view s y \<and>
     (bdirty (bufs s' qx) \<longleftrightarrow> x \<in> dblocks s) \<and> (bdirty (bufs s' qy) \<longleftrightarrow> y \<in> dblocks s) \<and>
     view s' = view s \<and> dblocks s' = dblocks s \<and> wrote [] s s'"

lemma two_reads:
  assumes inv: "bio_inv p {} s" and xy: "x < disksize s" "y < disksize s" "x \<noteq> y"
    and room: "card (dblocks s) < NBUF" "y \<in> dblocks s \<or> Suc (card (dblocks s)) < NBUF"
  shows "wp (bread 1 x s) (\<lambda>qx s1. bio_frame s s1 \<and> wp (bread 1 y s1) (\<lambda>qy s2. two_held p x y s qx qy s2))"
proof -
  have "wp (bread 1 x s) (\<lambda>q s'. bread_post p {} x s q s' \<and> dblocks s' = dblocks s \<and>
      (bdirty (bufs s' q) \<longleftrightarrow> x \<in> dblocks s))"
    by (rule bread_blk [OF inv xy(1)]) (use room in auto)
  then show ?thesis
  proof (rule wp_mono)
    fix qx s1
    assume A: "bread_post p {} x s qx s1 \<and> dblocks s1 = dblocks s \<and> (bdirty (bufs s1 qx) \<longleftrightarrow> x \<in> dblocks s)"
    then have i1: "bio_inv p {qx} s1" and f1: "bio_frame s s1"
      and q1: "b_blockno (bufs s1 qx) = x" "b_data (bufs s1 qx) = view s x" "view s1 = view s"
      by (simp_all add: bread_post_def)
    have "wp (bread 1 y s1) (\<lambda>q s'. bread_post p {qx} y s1 q s' \<and> dblocks s' = dblocks s1 \<and>
        (bdirty (bufs s' q) \<longleftrightarrow> y \<in> dblocks s1))"
      by (rule bread_blk [OF i1]) (use A xy q1 room wroteD(3) [OF wrote_frame [OF f1]] in auto)
    then have "wp (bread 1 y s1) (\<lambda>qy s2. two_held p x y s qx qy s2)"
    proof (rule wp_mono)
      fix qy s2
      assume B: "bread_post p {qx} y s1 qy s2 \<and> dblocks s2 = dblocks s1 \<and>
        (bdirty (bufs s2 qy) \<longleftrightarrow> y \<in> dblocks s1)"
      then have "wrote [] s s2" using wrote_trans [OF wrote_frame [OF f1] wrote_frame, of s2]
        by (simp add: bread_post_def)
      then show "two_held p x y s qx qy s2"
        using A B q1 by (auto simp: two_held_def bread_post_def insert_commute)
    qed
    with f1 show "bio_frame s s1 \<and> wp (bread 1 y s1) (\<lambda>qy s2. two_held p x y s qx qy s2)" by simp
  qed
qed

lemma two_readsE:
  assumes "bio_inv p {} s" "x < disksize s" "y < disksize s" "x \<noteq> y" "card (dblocks s) < NBUF"
    "y \<in> dblocks s \<or> Suc (card (dblocks s)) < NBUF"
  obtains qx s1 qy s2 where "bread 1 x s = Ret qx s1" "wrote [] s s1" "bread 1 y s1 = Ret qy s2"
    "two_held p x y s qx qy s2"
  using two_reads [OF assms] that wrote_frame unfolding wp_iff by blast

text \<open>Copy the held buffer \<open>a\<close> into the held buffer \<open>d\<close>, write it and release both: the common end.\<close>

lemma copy_out:
  assumes inv: "bio_inv p {a, d} s" and ad: "a \<noteq> d"
    and a: "bdirty (bufs s a) \<or> b_data (bufs s a) = disk s (b_blockno (bufs s a))"
    and t: "t = upd_buf d (\<lambda>k. k\<lparr>b_data := b_data (bufs s a)\<rparr>) s"
  shows "bwrite d t = Ret () (written d t)" "brelse a (written d t) = Ret () (released a (written d t))"
    "brelse d (released a (written d t)) = Ret () (released d (released a (written d t)))"
    "bio_inv p {} (released d (released a (written d t)))"
    "view (released d (released a (written d t))) = (view s)(b_blockno (bufs s d) := b_data (bufs s a))"
    "dblocks (released d (released a (written d t))) = dblocks s - {b_blockno (bufs s d)}"
    "wrote [(b_blockno (bufs s d), b_data (bufs s a))] s (released d (released a (written d t)))"
proof -
  have dm: "d \<in> {a, d}" "a \<in> {a, d}" by simp_all
  note T = set_data_ok [OF inv dm(1) t]
  let ?w = "written d t" let ?r = "released a ?w"
  have tb: "bufs t a = bufs s a" "b_blockno (bufs t d) = b_blockno (bufs s d)"
    "b_data (bufs t d) = b_data (bufs s a)" "disk t = disk s"
    using ad by (simp_all add: t)
  have w: "bufs ?w a = bufs s a" "b_blockno (bufs ?w d) = b_blockno (bufs s d)"
    "b_data (bufs ?w d) = b_data (bufs s a)" "disk ?w = (disk s)(b_blockno (bufs s d) := b_data (bufs s a))"
    using ad tb by (simp_all add: written_def)
  note W = written_ok [OF T(1) dm(1)]
  have "b_blockno (bufs s a) \<noteq> b_blockno (bufs s d)"
    using buf_unique [OF inv held_bufD(1,4) [OF inv dm(1)] held_bufD(1) [OF inv dm(2)] ad
      held_bufD(4) [OF inv dm(2)]] .
  then have ca: "bdirty (bufs ?w a) \<or> b_data (bufs ?w a) = disk ?w (b_blockno (bufs ?w a))"
    using a w by simp
  note R = released_ok [OF W(1) dm(2) ca] and R2 = dblocks_released [OF W(1) dm(2) ca]
  have e: "{a, d} - {a} = {d}" using ad by auto
  note i3 = R(1) [unfolded e]
  have c3: "b_blockno (bufs ?r d) = b_blockno (bufs s d)" "b_data (bufs ?r d) = b_data (bufs s a)"
    using core_eqD(3,5) [OF R(5), of d] ad w by simp_all
  have cd: "bdirty (bufs ?r d) \<or> b_data (bufs ?r d) = disk ?r (b_blockno (bufs ?r d))"
    using c3 w(4) by (simp add: released_def)
  note Q = released_ok [OF i3 _ cd] and Q2 = dblocks_released [OF i3 _ cd]
  show "bwrite d t = Ret () ?w" by (rule bwrite_eq [OF T(1) dm(1)])
  show "brelse a ?w = Ret () ?r" by (rule brelse_eq [OF W(1) dm(2)])
  show "brelse d ?r = Ret () (released d ?r)" by (rule brelse_eq [OF i3]) simp
  show "bio_inv p {} (released d ?r)" using Q(1) by simp
  show "view (released d ?r) = (view s)(b_blockno (bufs s d) := b_data (bufs s a))"
    using Q(2) R(2) W(2) T(2) by simp
  show "dblocks (released d ?r) = dblocks s - {b_blockno (bufs s d)}"
    using Q2 R2 dblocks_written [OF T(1) dm(1)] tb(2) t by simp
  have "wrote ([] @ [(b_blockno (bufs t d), b_data (bufs t d))]) s ?w"
    by (rule wrote_trans [OF _ wrote_written]) (simp add: t)
  from wrote_trans [OF wrote_trans [OF this wrote_released] wrote_released]
  show "wrote [(b_blockno (bufs s d), b_data (bufs s a))] s (released d ?r)" using tb by simp
qed

subsection \<open>Geometry of the log\<close>

abbreviation lhdr :: "'z kst_log_scheme \<Rightarrow> logheader" where
  "lhdr s \<equiv> lg_lh (klog s)"

definition in_log :: "log \<Rightarrow> uint \<Rightarrow> bool" where
  "in_log l b \<longleftrightarrow> unat (lg_start l) \<le> unat b \<and> unat b < unat (lg_start l) + nat (lg_size l)"

definition lblk :: "log \<Rightarrow> nat \<Rightarrow> uint" where
  "lblk l i = lg_start l + of_nat i + 1"

text \<open>The log lies inside the disk; its header names distinct blocks outside of the log.\<close>

definition log_geom :: "log \<Rightarrow> uint \<Rightarrow> bool" where
  "log_geom l n \<longleftrightarrow> lg_dev l = 1 \<and> lg_size l \<le> int LOGSIZE \<and>
     unat (lg_start l) + nat (lg_size l) \<le> unat n \<and>
     0 \<le> lh_n (lg_lh l) \<and> lh_n (lg_lh l) < lg_size l \<and>
     (\<forall>i < nat (lh_n (lg_lh l)). lh_block (lg_lh l) i < n \<and> \<not> in_log l (lh_block (lg_lh l) i)) \<and>
     inj_on (lh_block (lg_lh l)) {..<nat (lh_n (lg_lh l))}"

lemma log_geomD:
  assumes "log_geom l n"
  shows "lg_dev l = 1" "nat (lh_n (lg_lh l)) < NBUF" "lh_n (lg_lh l) \<le> int LOGSIZE" "lg_start l < n"
    "in_log l (lg_start l)" "0 \<le> lh_n (lg_lh l)"
  using assms by (auto simp: log_geom_def LOGSIZE_def NBUF_def in_log_def word_less_nat_alt)

lemma unat_of_nat32: "n < 2 ^ 32 \<Longrightarrow> unat (of_nat n :: uint) = n"
  by (simp add: unat_of_nat)

lemma lblk_unat:
  assumes "log_geom l n" "i < nat (lh_n (lg_lh l))"
  shows "unat (lblk l i) = unat (lg_start l) + i + 1"
proof -
  have "unat (lg_start l) + i + 1 < 2 ^ 32"
    using assms unat32_less [of n] by (auto simp: log_geom_def)
  moreover have "lblk l i = of_nat (unat (lg_start l) + i + 1)" by (simp add: lblk_def)
  ultimately show ?thesis by (simp only: unat_of_nat32)
qed

lemma lblk_props:
  assumes "log_geom l n" "i < nat (lh_n (lg_lh l))"
  shows "lblk l i < n" "in_log l (lblk l i)" "lblk l i \<noteq> lg_start l"
    "j < nat (lh_n (lg_lh l)) \<Longrightarrow> lblk l i = lblk l j \<longleftrightarrow> i = j"
    "j < nat (lh_n (lg_lh l)) \<Longrightarrow> lh_block (lg_lh l) j \<noteq> lblk l i"
    "lh_block (lg_lh l) i \<noteq> lg_start l" "lh_block (lg_lh l) i < n"
proof -
  note u = lblk_unat [OF assms(1)]
  show "lblk l i < n" "lblk l i \<noteq> lg_start l" "lh_block (lg_lh l) i < n"
    using u [OF assms(2)] assms by (auto simp: word_less_nat_alt word_unat_eq_iff log_geom_def)
  show a: "in_log l (lblk l i)" using u [OF assms(2)] assms by (auto simp: in_log_def log_geom_def)
  show "lblk l i = lblk l j \<longleftrightarrow> i = j" if "j < nat (lh_n (lg_lh l))"
    unfolding word_unat_eq_iff u [OF assms(2)] u [OF that] by simp
  show "lh_block (lg_lh l) j \<noteq> lblk l i" if "j < nat (lh_n (lg_lh l))"
    using a assms(1) that by (auto simp: log_geom_def)
  show "lh_block (lg_lh l) i \<noteq> lg_start l"
    using log_geomD(5) [OF assms(1)] assms by (auto simp: log_geom_def)
qed

subsection \<open>The two copying loops\<close>

definition log_writes :: "log \<Rightarrow> nat \<Rightarrow> nat \<Rightarrow> (uint \<Rightarrow> bytes) \<Rightarrow> (uint \<times> bytes) list" where
  "log_writes l a b v = map (\<lambda>i. (lblk l i, v (lh_block (lg_lh l) i))) [a..<b]"

definition home_writes :: "log \<Rightarrow> nat \<Rightarrow> nat \<Rightarrow> (uint \<Rightarrow> bytes) \<Rightarrow> (uint \<times> bytes) list" where
  "home_writes l a b v = map (\<lambda>i. (lh_block (lg_lh l) i, v (lblk l i))) [a..<b]"

text \<open>One round of either loop, given the order in which it reads the two blocks.\<close>

lemma copy_round:
  assumes "two_held p x y s qx qy s2" "bio_inv p {} s" "x \<noteq> y" "a = qx \<and> d = qy \<or> a = qy \<and> d = qx"
    and b: "ba = b_blockno (bufs s2 a)" "bd = b_blockno (bufs s2 d)"
    and t: "t = upd_buf d (\<lambda>k. k\<lparr>b_data := b_data (bufs s2 a)\<rparr>) s2"
    and r: "r = released d (released a (written d t))"
  shows "bwrite d t = Ret () (written d t)" "brelse a (written d t) = Ret () (released a (written d t))"
    "brelse d (released a (written d t)) = Ret () r"
    "bio_inv p {} r" "view r = (view s)(bd := view s ba)" "dblocks r = dblocks s - {bd}"
    "wrote [(bd, view s ba)] s r"
proof -
  have T: "qx \<noteq> qy" "bio_inv p {qx, qy} s2" "b_data (bufs s2 qx) = view s (b_blockno (bufs s2 qx))"
    "b_data (bufs s2 qy) = view s (b_blockno (bufs s2 qy))"
    "bdirty (bufs s2 qx) \<longleftrightarrow> b_blockno (bufs s2 qx) \<in> dblocks s"
    "bdirty (bufs s2 qy) \<longleftrightarrow> b_blockno (bufs s2 qy) \<in> dblocks s"
    and E: "view s2 = view s" "dblocks s2 = dblocks s" and w: "wrote [] s s2"
    using assms(1) by (simp_all add: two_held_def)
  from assms(4) T have i: "bio_inv p {a, d} s2" and ad: "a \<noteq> d" by (metis insert_commute)+
  from assms(4) T b have da: "b_data (bufs s2 a) = view s ba" by metis
  from assms(4) T b have "bdirty (bufs s2 a) \<longleftrightarrow> ba \<in> dblocks s" by metis
  then have c: "bdirty (bufs s2 a) \<or> b_data (bufs s2 a) = disk s2 (b_blockno (bufs s2 a))"
    using view_disk [OF assms(2)] da wroteD(1) [OF w] b by auto
  note C = copy_out [OF i ad c t, folded b r]
  show "bwrite d t = Ret () (written d t)" "brelse a (written d t) = Ret () (released a (written d t))"
    "brelse d (released a (written d t)) = Ret () r" "bio_inv p {} r" by (rule C)+
  show "view r = (view s)(bd := view s ba)" "dblocks r = dblocks s - {bd}"
    using C(5,6) E da by simp_all
  show "wrote [(bd, view s ba)] s r" using wrote_trans [OF w C(7)] da by simp
qed

lemma write_log_loop_ok:
  assumes "bio_inv p {} s" "klog s = l" "log_geom l (disksize s)" "tail + k = nat (lh_n (lg_lh l))"
    "dblocks s = lh_block (lg_lh l) ` {..<nat (lh_n (lg_lh l))}"
  shows "wp (write_log_loop k tail s) (\<lambda>_ s'. bio_inv p {} s' \<and> dblocks s' = dblocks s \<and>
    wrote (log_writes l tail (nat (lh_n (lg_lh l))) (view s)) s s' \<and>
    view s' = disk_after (log_writes l tail (nat (lh_n (lg_lh l))) (view s)) (view s))"
  using assms
proof (induction k arbitrary: tail s)
  case 0
  then show ?case using wrote_bufs(1) [of s "bufs s"] by (simp add: log_writes_def)
next
  case (Suc k)
  let ?N = "nat (lh_n (lg_lh l))" and ?B = "lh_block (lg_lh l)"
  have tl: "tail < ?N" using Suc.prems(4) by simp
  note g = log_geomD [OF Suc.prems(3)] and L = lblk_props [OF Suc.prems(3) tl]
  have ne: "lblk l tail \<noteq> ?B tail" using L(5) [OF tl] by simp
  have "card (dblocks s) < NBUF"
    unfolding Suc.prems(5) using g(2) card_image_le [of "{..<?N}" ?B] by simp
  then obtain qx s1 qy s2 where 1: "bread 1 (lblk l tail) s = Ret qx s1" "wrote [] s s1"
    and 2: "bread 1 (?B tail) s1 = Ret qy s2" and T: "two_held p (lblk l tail) (?B tail) s qx qy s2"
    by (rule two_readsE [OF Suc.prems(1) L(1) L(7) ne]) (use Suc.prems(5) tl in auto)
  let ?t = "upd_buf qx (\<lambda>k. k\<lparr>b_data := b_data (bufs s2 qy)\<rparr>) s2"
  let ?r = "released qx (released qy (written qx ?t))"
  have b: "b_blockno (bufs s2 qx) = lblk l tail" "b_blockno (bufs s2 qy) = ?B tail"
    using T by (simp_all add: two_held_def)
  note C = copy_round [OF T Suc.prems(1) ne _ b(2,1) [symmetric] refl refl, simplified]
  have dr: "dblocks ?r = dblocks s" using C(6) L(5) Suc.prems(5) by auto
  have IH: "wp (write_log_loop k (Suc tail) ?r) (\<lambda>_ s'. bio_inv p {} s' \<and> dblocks s' = dblocks ?r \<and>
      wrote (log_writes l (Suc tail) ?N (view ?r)) ?r s' \<and>
      view s' = disk_after (log_writes l (Suc tail) ?N (view ?r)) (view ?r))"
    by (rule Suc.IH [OF C(4)])
      (use Suc.prems dr wrote_klog [OF C(7)] wroteD(3) [OF C(7)] in simp_all)
  have v: "log_writes l (Suc tail) ?N (view ?r) = log_writes l (Suc tail) ?N (view s)"
    using L(5) C(5) by (auto simp: log_writes_def)
  have w: "log_writes l tail ?N (view s) = (lblk l tail, view s (?B tail)) # log_writes l (Suc tail) ?N (view s)"
    using tl by (simp add: log_writes_def upt_conv_Cons)
  have "wp (write_log_loop k (Suc tail) ?r) (\<lambda>_ s'. bio_inv p {} s' \<and> dblocks s' = dblocks s \<and>
    wrote (log_writes l tail ?N (view s)) s s' \<and> view s' = disk_after (log_writes l tail ?N (view s)) (view s))"
    using wrote_trans [OF C(7)] by (intro wp_mono [OF IH [unfolded v]]) (auto simp: dr w C(5))
  then show ?case
    using 1(1) 2 C(1-3) Suc.prems(2) g(1) wrote_klog [OF 1(2)] by (simp add: lblk_def Let_def)
qed

lemma install_loop_ok:
  assumes "bio_inv p {} s" "klog s = l" "log_geom l (disksize s)" "tail + k = nat (lh_n (lg_lh l))"
    "dblocks s = (if c then lh_block (lg_lh l) ` {tail..<nat (lh_n (lg_lh l))} else {})"
  shows "wp (install_loop k tail s) (\<lambda>_ s'. bio_inv p {} s' \<and> dblocks s' = {} \<and>
    wrote (home_writes l tail (nat (lh_n (lg_lh l))) (view s)) s s' \<and>
    view s' = disk_after (home_writes l tail (nat (lh_n (lg_lh l))) (view s)) (view s))"
  using assms
proof (induction k arbitrary: tail s)
  case 0
  then show ?case using wrote_bufs(1) [of s "bufs s"] by (simp add: home_writes_def)
next
  case (Suc k)
  let ?N = "nat (lh_n (lg_lh l))" and ?B = "lh_block (lg_lh l)"
  have tl: "tail < ?N" using Suc.prems(4) by simp
  note g = log_geomD [OF Suc.prems(3)] and L = lblk_props [OF Suc.prems(3) tl]
  have ne: "lblk l tail \<noteq> ?B tail" using L(5) [OF tl] by simp
  have "card (?B ` {tail..<?N}) < NBUF"
    using g(2) card_image_le [of "{tail..<?N}" ?B] by simp
  then have "card (dblocks s) < NBUF" "?B tail \<in> dblocks s \<or> Suc (card (dblocks s)) < NBUF"
    unfolding Suc.prems(5) using tl g(2) by auto
  then obtain qx s1 qy s2 where 1: "bread 1 (lblk l tail) s = Ret qx s1" "wrote [] s s1"
    and 2: "bread 1 (?B tail) s1 = Ret qy s2" and T: "two_held p (lblk l tail) (?B tail) s qx qy s2"
    by (rule two_readsE [OF Suc.prems(1) L(1) L(7) ne])
  let ?t = "upd_buf qy (\<lambda>k. k\<lparr>b_data := b_data (bufs s2 qx)\<rparr>) s2"
  let ?r = "released qy (released qx (written qy ?t))"
  have b: "b_blockno (bufs s2 qx) = lblk l tail" "b_blockno (bufs s2 qy) = ?B tail"
    using T by (simp_all add: two_held_def)
  note C = copy_round [OF T Suc.prems(1) ne _ b(1,2) [symmetric] refl refl, simplified]
  have "?B i \<noteq> ?B tail" if "Suc tail \<le> i" "i < ?N" for i
    using Suc.prems(3) that tl by (auto simp: log_geom_def dest: inj_onD [of ?B "{..<?N}" i tail])
  moreover have "{tail..<?N} = insert tail {Suc tail..<?N}" using tl by auto
  ultimately have dr: "dblocks ?r = (if c then ?B ` {Suc tail..<?N} else {})"
    using C(6) Suc.prems(5) by auto
  have IH: "wp (install_loop k (Suc tail) ?r) (\<lambda>_ s'. bio_inv p {} s' \<and> dblocks s' = {} \<and>
      wrote (home_writes l (Suc tail) ?N (view ?r)) ?r s' \<and>
      view s' = disk_after (home_writes l (Suc tail) ?N (view ?r)) (view ?r))"
    by (rule Suc.IH [OF C(4) _ _ _ dr])
      (use Suc.prems wrote_klog [OF C(7)] wroteD(3) [OF C(7)] in simp_all)
  have v: "home_writes l (Suc tail) ?N (view ?r) = home_writes l (Suc tail) ?N (view s)"
    using lblk_props(5) [OF Suc.prems(3) _ tl, symmetric] C(5) by (simp add: home_writes_def)
  have w: "home_writes l tail ?N (view s) = (?B tail, view s (lblk l tail)) # home_writes l (Suc tail) ?N (view s)"
    using tl by (simp add: home_writes_def upt_conv_Cons)
  have "wp (install_loop k (Suc tail) ?r) (\<lambda>_ s'. bio_inv p {} s' \<and> dblocks s' = {} \<and>
    wrote (home_writes l tail ?N (view s)) s s' \<and> view s' = disk_after (home_writes l tail ?N (view s)) (view s))"
    using wrote_trans [OF C(7)] by (intro wp_mono [OF IH [unfolded v]]) (auto simp: w C(5))
  then show ?case
    using 1(1) 2 C(1-3) Suc.prems(2) g(1) wrote_klog [OF 1(2)] by (simp add: lblk_def Let_def)
qed

subsection \<open>The header\<close>

definition hdr_block :: "logheader \<Rightarrow> bytes \<Rightarrow> bytes" where
  "hdr_block lh d = put_words 4 (lh_block lh) (nat (lh_n lh)) (put32 0 (of_int (lh_n lh)) d)"

lemma write_head_ok:
  assumes inv: "bio_inv p {} s" and l: "lg_dev (klog s) = 1" "lh_n (lhdr s) \<le> int LOGSIZE"
    "lg_start (klog s) < disksize s" "lg_start (klog s) \<notin> dblocks s" "card (dblocks s) < NBUF"
    and h: "h = hdr_block (lhdr s) (view s (lg_start (klog s)))"
  shows "wp (write_head s) (\<lambda>_ s'. bio_inv p {} s' \<and> dblocks s' = dblocks s \<and>
    wrote [(lg_start (klog s), h)] s s' \<and> view s' = (view s)(lg_start (klog s) := h))"
proof -
  have "wp (bread 1 (lg_start (klog s)) s) (\<lambda>q s'. bread_post p {} (lg_start (klog s)) s q s' \<and>
      dblocks s' = dblocks s \<and> (bdirty (bufs s' q) \<longleftrightarrow> lg_start (klog s) \<in> dblocks s))"
    by (rule bread_blk [OF inv l(3)]) (use l in auto)
  then obtain q s1 where r: "bread 1 (lg_start (klog s)) s = Ret q s1"
    and P: "bio_inv p {q} s1" "b_blockno (bufs s1 q) = lg_start (klog s)"
      "b_data (bufs s1 q) = view s (lg_start (klog s))" "view s1 = view s" "dblocks s1 = dblocks s"
      "wrote [] s s1"
    using wrote_frame by (auto simp: bread_post_def elim!: wpE)
  have q: "q \<in> {q}" by simp
  let ?t = "upd_buf q (\<lambda>k. k\<lparr>b_data := h\<rparr>) s1" let ?w = "written q ?t"
  note T = set_data_ok [OF P(1) q, of ?t h, OF refl]
  note W = written_ok [OF T(1) q] and W2 = dblocks_written [OF T(1) q]
  have c: "bdirty (bufs ?w q) \<or> b_data (bufs ?w q) = disk ?w (b_blockno (bufs ?w q))"
    by (simp add: written_def)
  note R = released_ok [OF W(1) q c] and R2 = dblocks_released [OF W(1) q c]
  have "wrote ([] @ [(b_blockno (bufs ?t q), b_data (bufs ?t q))]) s ?w"
    using wrote_trans [OF P(6) wrote_trans [OF wrote_bufs(2) wrote_written [of ?t q]]] by simp
  from wrote_trans [OF this wrote_released, of q] have w: "wrote [(lg_start (klog s), h)] s (released q ?w)"
    using P(2) by simp
  have "upd_buf q (\<lambda>k. k\<lparr>b_data := put_words 4 (lh_block (lhdr s)) (nat (lh_n (lhdr s))) (b_data k)\<rparr>)
      (upd_buf q (\<lambda>k. k\<lparr>b_data := put32 0 (of_int (lh_n (lhdr s))) (b_data k)\<rparr>) s1) = ?t"
    using P(3) by (simp add: upd_buf_def h hdr_block_def)
  then have "write_head s = Ret () (released q ?w)"
    using r l wrote_klog [OF P(6)] bwrite_eq [OF T(1) q] brelse_eq [OF W(1) q]
    by (simp add: write_head_def Let_def)
  then show ?thesis using R R2 W W2 T P w l(4) by simp
qed

lemma read_head_ok:
  assumes inv: "bio_inv p {} s" and l: "lg_dev (klog s) = 1"
    "lg_start (klog s) < disksize s" "lg_start (klog s) \<notin> dblocks s" "card (dblocks s) < NBUF"
    and n: "n = sint (get32 (view s (lg_start (klog s))) 0)" "n \<le> int LOGSIZE"
  shows "wp (read_head s) (\<lambda>_ s'. bio_inv p {} s' \<and> dblocks s' = dblocks s \<and> view s' = view s \<and>
    wrote [] (upd_log (upd_lh (\<lambda>lh. lh\<lparr>lh_n := n, lh_block := get_words (view s (lg_start (klog s))) 4
      (nat n) (lh_block lh)\<rparr>)) s) s')"
proof -
  have "wp (bread 1 (lg_start (klog s)) s) (\<lambda>q s'. bread_post p {} (lg_start (klog s)) s q s' \<and>
      dblocks s' = dblocks s \<and> (bdirty (bufs s' q) \<longleftrightarrow> lg_start (klog s) \<in> dblocks s))"
    by (rule bread_blk [OF inv l(2)]) (use l in auto)
  then obtain q s1 where r: "bread 1 (lg_start (klog s)) s = Ret q s1"
    and P: "bio_inv p {q} s1" "b_blockno (bufs s1 q) = lg_start (klog s)"
      "b_data (bufs s1 q) = view s (lg_start (klog s))" "view s1 = view s" "dblocks s1 = dblocks s"
      "wrote [] s s1"
    using wrote_frame by (auto simp: bread_post_def elim!: wpE)
  let ?g = "\<lambda>lh. lh\<lparr>lh_n := n, lh_block := get_words (view s (lg_start (klog s))) 4 (nat n) (lh_block lh)\<rparr>"
  let ?t = "upd_log (upd_lh ?g) s1"
  have q: "q \<in> {q}" and t: "bio_inv p {q} ?t" using P(1) by simp_all
  have c: "bdirty (bufs ?t q) \<or> b_data (bufs ?t q) = disk ?t (b_blockno (bufs ?t q))"
    using P(2,3) view_disk [OF inv l(3)] wroteD(1) [OF P(6)] by simp
  note R = released_ok [OF t q c] and R2 = dblocks_released [OF t q c]
  have "wrote [] (upd_log (upd_lh ?g) s) ?t" by (rule wrote_upd_log [OF P(6)])
  from wrote_trans [OF this wrote_released, of q] have w: "wrote [] (upd_log (upd_lh ?g) s) (released q ?t)" by simp
  have "upd_log (upd_lh (\<lambda>lh. lh\<lparr>lh_block := get_words (b_data (bufs s1 q)) 4 (nat n) (lh_block lh)\<rparr>))
      (upd_log (upd_lh (\<lambda>lh. lh\<lparr>lh_n := n\<rparr>)) s1) = ?t"
    using P(3) by (simp add: upd_log_def upd_lh_def)
  then have "read_head s = Ret () (released q ?t)"
    using r l n P(3) brelse_eq [OF t q] by (simp add: read_head_def Let_def)
  then show ?thesis using R R2 P w by simp
qed

subsection \<open>Commit\<close>

definition set_n :: "int \<Rightarrow> log \<Rightarrow> log" where
  "set_n n = upd_lh (\<lambda>lh. lh\<lparr>lh_n := n\<rparr>)"

lemma set_n_simps [simp]:
  "lg_start (set_n n l) = lg_start l" "lg_size (set_n n l) = lg_size l" "lg_dev (set_n n l) = lg_dev l"
  "lg_outstanding (set_n n l) = lg_outstanding l" "lg_committing (set_n n l) = lg_committing l"
  "lh_n (lg_lh (set_n n l)) = n" "lh_block (lg_lh (set_n n l)) = lh_block (lg_lh l)"
  by (simp_all add: set_n_def upd_lh_def)

text \<open>The writes of a commit: the log, the header, the home locations, the cleared header.\<close>

definition commit_writes :: "log \<Rightarrow> (uint \<Rightarrow> bytes) \<Rightarrow> (uint \<times> bytes) list" where
  "commit_writes l v = (let n = nat (lh_n (lg_lh l)); h = hdr_block (lg_lh l) (v (lg_start l)) in
     if n = 0 then [] else
     log_writes l 0 n v @ [(lg_start l, h)] @
     map (\<lambda>i. (lh_block (lg_lh l) i, v (lh_block (lg_lh l) i))) [0..<n] @
     [(lg_start l, hdr_block (lg_lh (set_n 0 l)) h)])"

lemma disk_after_map:
  assumes "inj_on f (set xs)" "x \<in> set xs"
  shows "disk_after (map (\<lambda>i. (f i, g i)) xs) d (f x) = g x"
  using assms
proof (induction xs arbitrary: d)
  case (Cons y xs)
  show ?case
  proof (cases "x \<in> set xs")
    case True
    then show ?thesis using Cons by simp
  next
    case False
    then have "x = y" using Cons.prems by simp
    moreover have "f x \<notin> f ` set xs" using False Cons.prems by (auto dest: inj_onD)
    ultimately show ?thesis by (simp add: disk_after_other image_image)
  qed
qed simp

text \<open>After the home writes a block has its new contents, if only the others had them before.\<close>

lemma homes_after:
  assumes g: "log_geom l n" and d: "b \<notin> lh_block (lg_lh l) ` {..<nat (lh_n (lg_lh l))} \<Longrightarrow> d b = v b"
  shows "disk_after (map (\<lambda>i. (lh_block (lg_lh l) i, v (lh_block (lg_lh l) i))) [0..<nat (lh_n (lg_lh l))]) d b = v b"
proof (cases "b \<in> lh_block (lg_lh l) ` {..<nat (lh_n (lg_lh l))}")
  case True
  have "inj_on (lh_block (lg_lh l)) (set [0..<nat (lh_n (lg_lh l))])"
    using g by (simp add: log_geom_def lessThan_atLeast0)
  from disk_after_map [OF this, of _ "\<lambda>i. v (lh_block (lg_lh l) i)"] True show ?thesis by auto
next
  case False
  then show ?thesis using d by (subst disk_after_other) auto
qed

lemma log_written:
  assumes "log_geom l n" "i < nat (lh_n (lg_lh l))"
  shows "disk_after (log_writes l 0 (nat (lh_n (lg_lh l))) v) d (lblk l i) = v (lh_block (lg_lh l) i)"
  unfolding log_writes_def
  by (rule disk_after_map [of "lblk l"]) (use lblk_props(4) [OF assms(1)] assms in \<open>auto intro!: inj_onI\<close>)

lemma log_writes_other:
  assumes "log_geom l n" "\<not> in_log l b \<or> b = lg_start l"
  shows "disk_after (log_writes l 0 (nat (lh_n (lg_lh l))) v) d b = d b"
  by (rule disk_after_other) (use lblk_props(2,3) [OF assms(1)] assms(2) in \<open>auto simp: log_writes_def\<close>)

text \<open>What holds between the operations of process \<open>p\<close>: the dirty buffers are those of the
  transaction.\<close>

definition log_inv :: "nat \<Rightarrow> nat set \<Rightarrow> 'z kst_log_scheme \<Rightarrow> bool" where
  "log_inv p H s \<longleftrightarrow> bio_inv p H s \<and> log_geom (klog s) (disksize s) \<and>
     dblocks s = lh_block (lhdr s) ` {..<nat (lh_n (lhdr s))}"

lemma log_invD:
  assumes "log_inv p H s"
  shows "bio_inv p H s" "log_geom (klog s) (disksize s)"
    "dblocks s = lh_block (lhdr s) ` {..<nat (lh_n (lhdr s))}"
    "card (dblocks s) < NBUF" "lg_start (klog s) \<notin> dblocks s"
proof -
  show i: "bio_inv p H s" and g: "log_geom (klog s) (disksize s)"
    and d: "dblocks s = lh_block (lhdr s) ` {..<nat (lh_n (lhdr s))}"
    using assms by (simp_all add: log_inv_def)
  show "card (dblocks s) < NBUF"
    unfolding d using log_geomD(2) [OF g] card_image_le [of "{..<nat (lh_n (lhdr s))}" "lh_block (lhdr s)"]
    by simp
  show "lg_start (klog s) \<notin> dblocks s" unfolding d using lblk_props(6) [OF g] by fastforce
qed

lemma install_commit:
  assumes "bio_inv p {} s" "klog s = l" "log_geom l (disksize s)"
    "dblocks s = lh_block (lg_lh l) ` {..<nat (lh_n (lg_lh l))}"
    "\<And>i. i < nat (lh_n (lg_lh l)) \<Longrightarrow> view s (lblk l i) = v (lh_block (lg_lh l) i)"
    and ws: "ws = map (\<lambda>i. (lh_block (lg_lh l) i, v (lh_block (lg_lh l) i))) [0..<nat (lh_n (lg_lh l))]"
  shows "wp (install_trans s) (\<lambda>_ s'. bio_inv p {} s' \<and> dblocks s' = {} \<and> wrote ws s s' \<and>
    view s' = disk_after ws (view s))"
proof -
  have "home_writes l 0 (nat (lh_n (lg_lh l))) (view s) = ws"
    using assms(5) by (auto simp: home_writes_def ws)
  then show ?thesis
    using install_loop_ok [OF assms(1-3), of 0 "nat (lh_n (lg_lh l))" True] assms(2,4) log_geomD(3) [OF assms(3)]
    by (simp add: install_trans_def lessThan_atLeast0)
qed

lemma commit_view:
  assumes g: "log_geom l n" and b: "\<not> in_log l b"
  shows "disk_after (commit_writes l v) v b = v b"
proof (cases "nat (lh_n (lg_lh l)) = 0")
  case False
  let ?N = "nat (lh_n (lg_lh l))" and ?B = "lh_block (lg_lh l)"
  have st: "b \<noteq> lg_start l" using b log_geomD(5) [OF g] by auto
  have lw: "disk_after (log_writes l 0 ?N v) d b = d b" for d by (rule log_writes_other [OF g]) (simp add: b)
  show ?thesis using False st lw by (simp add: commit_writes_def Let_def) (rule homes_after [OF g], simp add: lw st)
qed (simp add: commit_writes_def Let_def)

text \<open>The log and its header are on disk: the transaction is committed.\<close>

lemma commit_logged:
  assumes inv: "log_inv p {} s" and l: "l = klog s" and v: "v = view s" and N: "n = nat (lh_n (lg_lh l))"
    and h: "h = hdr_block (lg_lh l) (v (lg_start l))"
  obtains s1 s2 where "write_log s = Ret () s1" "write_head s1 = Ret () s2" "bio_inv p {} s2"
    "dblocks s2 = dblocks s" "klog s2 = l" "disksize s2 = disksize s"
    "wrote (log_writes l 0 n v @ [(lg_start l, h)]) s s2"
    "view s2 = (disk_after (log_writes l 0 n v) v)(lg_start l := h)"
proof -
  have g: "log_geom l (disksize s)" and db: "dblocks s = lh_block (lg_lh l) ` {..<nat (lh_n (lg_lh l))}"
    and kl: "klog s = l" using log_invD [OF inv] by (simp_all add: l)
  note gd = log_geomD [OF g] and st = log_invD(5) [OF inv, folded l]
  from write_log_loop_ok [OF log_invD(1) [OF inv] kl g _ db, of 0 "nat (lh_n (lg_lh l))"] obtain s1
    where 1: "write_log s = Ret () s1" "bio_inv p {} s1" "dblocks s1 = dblocks s"
      "wrote (log_writes l 0 n v) s s1" "view s1 = disk_after (log_writes l 0 n v) v"
    using gd(3) kl by (auto simp: write_log_def v N elim!: wpE)
  have k1: "klog s1 = l" "disksize s1 = disksize s" using wrote_klog [OF 1(4)] wroteD(3) [OF 1(4)] kl by simp_all
  have h': "h = hdr_block (lhdr s1) (view s1 (lg_start (klog s1)))"
    using log_writes_other [OF g] 1(5) k1 N h by simp
  from write_head_ok [OF 1(2) _ _ _ _ _ h'] obtain s2
    where 2: "write_head s1 = Ret () s2" "bio_inv p {} s2" "dblocks s2 = dblocks s"
      "wrote [(lg_start l, h)] s1 s2" "view s2 = (view s1)(lg_start l := h)"
    using k1 gd 1(3) st log_invD(4) [OF inv] by (auto elim!: wpE)
  show ?thesis
    using that [OF 1(1) 2(1-3)] wrote_klog [OF 2(4)] wroteD(3) [OF 2(4)] k1 wrote_trans [OF 1(4) 2(4)] 1(5) 2(5)
    by simp
qed

lemma commit_ok:
  assumes inv: "log_inv p {} s"
  shows "wp (commit s) (\<lambda>_ s'. bio_inv p {} s' \<and> dblocks s' = {} \<and>
    wrote (commit_writes (klog s) (view s)) (upd_log (set_n 0) s) s' \<and>
    view s' = disk_after (commit_writes (klog s) (view s)) (view s))"
proof (cases "0 < lh_n (lhdr s)")
  case False
  then have n: "lh_n (lhdr s) = 0" using log_geomD(6) [OF log_invD(2) [OF inv]] by simp
  then have "upd_log (set_n 0) s = s" by (simp add: upd_log_def set_n_def upd_lh_def)
  moreover have "wrote [] s s" using wrote_bufs(1) [of s "bufs s"] by simp
  ultimately show ?thesis
    using n log_invD(1,3) [OF inv] by (simp add: commit_def commit_writes_def Let_def)
next
  case True
  define l v n h where "l = klog s" and "v = view s" and "n = nat (lh_n (lg_lh l))"
    and "h = hdr_block (lg_lh l) (v (lg_start l))"
  let ?B = "lh_block (lg_lh l)" let ?hs = "map (\<lambda>i. (?B i, v (?B i))) [0..<n]"
  have g: "log_geom l (disksize s)" using log_invD [OF inv] by (simp add: l_def)
  note gd = log_geomD [OF g]
  obtain s1 s2 where 1: "write_log s = Ret () s1" "write_head s1 = Ret () s2"
    and 2: "bio_inv p {} s2" "dblocks s2 = dblocks s" "klog s2 = l" "disksize s2 = disksize s"
      "wrote (log_writes l 0 n v @ [(lg_start l, h)]) s s2"
      "view s2 = (disk_after (log_writes l 0 n v) v)(lg_start l := h)"
    by (rule commit_logged [OF inv l_def v_def n_def h_def])
  have "view s2 (lblk l i) = v (?B i)" if "i < nat (lh_n (lg_lh l))" for i
    using that log_written [OF g that] lblk_props(3) [OF g that] 2(6) by (simp add: n_def)
  from install_commit [OF 2(1,3) _ _ this refl] obtain s3
    where 3: "install_trans s2 = Ret () s3" "bio_inv p {} s3" "dblocks s3 = {}" "wrote ?hs s2 s3"
      "view s3 = disk_after ?hs (view s2)"
    using g 2(2,4) log_invD(3) [OF inv] by (auto simp: l_def n_def elim!: wpE)
  have k3: "klog s3 = l" "disksize s3 = disksize s" using wrote_klog [OF 3(4)] wroteD(3) [OF 3(4)] 2 by simp_all
  let ?s3 = "upd_log (set_n 0) s3" and ?h0 = "hdr_block (lg_lh (set_n 0 l)) h"
  have "lg_start l \<notin> fst ` set ?hs" using lblk_props(6) [OF g] by (fastforce simp: n_def)
  then have "view s3 (lg_start l) = h" unfolding 3(5) using 2(6) by (simp add: disk_after_other)
  then have h0: "?h0 = hdr_block (lhdr ?s3) (view ?s3 (lg_start (klog ?s3)))" using k3 by simp
  have "wp (write_head ?s3) (\<lambda>_ s'. bio_inv p {} s' \<and> dblocks s' = dblocks ?s3 \<and>
      wrote [(lg_start (klog ?s3), ?h0)] ?s3 s' \<and> view s' = (view ?s3)(lg_start (klog ?s3) := ?h0))"
    by (rule write_head_ok [OF _ _ _ _ _ _ h0]) (use 3 k3 gd in \<open>simp_all add: NBUF_def MAXOPBLOCKS_def\<close>)
  then obtain s4 where 4: "write_head ?s3 = Ret () s4" "bio_inv p {} s4" "dblocks s4 = {}"
    "wrote [(lg_start l, ?h0)] ?s3 s4" "view s4 = (view s3)(lg_start l := ?h0)"
    using 3(3) k3 by (auto elim!: wpE)
  have w: "commit_writes l v = ((log_writes l 0 n v @ [(lg_start l, h)]) @ ?hs) @ [(lg_start l, ?h0)]"
    using True by (simp add: commit_writes_def Let_def l_def n_def h_def)
  have "wrote (commit_writes l v) (upd_log (set_n 0) s) s4"
    unfolding w by (rule wrote_trans [OF wrote_upd_log [OF wrote_trans [OF 2(5) 3(4)]] 4(4)])
  moreover have "view s4 = disk_after (commit_writes l v) v" unfolding w using 2(6) 3(5) 4(5) by simp
  moreover have "commit s = Ret () s4"
    using True 1 3(1) 4(1) by (simp add: commit_def set_n_def)
  ultimately show ?thesis using 4 by (simp add: l_def v_def)
qed

subsection \<open>Recovery\<close>

definition read_log :: "log \<Rightarrow> bytes \<Rightarrow> log" where
  "read_log l d = upd_lh (\<lambda>lh. lh\<lparr>lh_n := sint (get32 d 0),
     lh_block := get_words d 4 (nat (sint (get32 d 0))) (lh_block lh)\<rparr>) l"

definition recover_writes :: "log \<Rightarrow> (uint \<Rightarrow> bytes) \<Rightarrow> (uint \<times> bytes) list" where
  "recover_writes l d = home_writes l 0 (nat (lh_n (lg_lh l))) d @
     [(lg_start l, hdr_block (lg_lh (set_n 0 l)) (d (lg_start l)))]"

lemma read_log_simps [simp]:
  "lg_start (read_log l d) = lg_start l" "lg_size (read_log l d) = lg_size l" "lg_dev (read_log l d) = lg_dev l"
  "lh_n (lg_lh (read_log l d)) = sint (get32 d 0)" "lblk (read_log l d) = lblk l"
  "in_log (read_log l d) = in_log l"
  by (simp_all add: read_log_def upd_lh_def lblk_def in_log_def fun_eq_iff)

lemma recover_ok:
  assumes inv: "bio_inv p {} t" "dblocks t = {}"
    and l: "l = read_log (klog t) (disk t (lg_start (klog t)))" "log_geom l (disksize t)"
  shows "wp (recover_from_log t) (\<lambda>_ t'. bio_inv p {} t' \<and> dblocks t' = {} \<and> view t' = disk t' \<and>
    klog t' = set_n 0 l \<and> disksize t' = disksize t \<and>
    dwrites t' = dwrites t @ recover_writes l (disk t) \<and> disk t' = disk_after (recover_writes l (disk t)) (disk t))"
proof -
  have vd: "view s = disk s" if "bio_inv p {} s" "dblocks s = {}" for s :: "'a kst_log_scheme"
    using view_disk [OF that(1)] that(2) by auto
  note gd = log_geomD [OF l(2)]
  have n: "sint (get32 (view t (lg_start (klog t))) 0) \<le> int LOGSIZE" and dev: "lg_dev (klog t) = 1"
    "lg_start (klog t) < disksize t"
    using gd l(1) vd [OF inv] by simp_all
  have nb: "card {} < NBUF" by (simp add: NBUF_def MAXOPBLOCKS_def)
  have f: "upd_lh (\<lambda>lh. lh\<lparr>lh_n := sint (get32 (view t (lg_start (klog t))) 0), lh_block :=
      get_words (view t (lg_start (klog t))) 4 (nat (sint (get32 (view t (lg_start (klog t))) 0))) (lh_block lh)\<rparr>)
      (klog t) = l" by (simp add: l(1) read_log_def vd [OF inv])
  from read_head_ok [OF inv(1) dev _ _ refl n] obtain s1 where 1: "read_head t = Ret () s1"
    "bio_inv p {} s1" "dblocks s1 = {}" "view s1 = view t" "wrote [] (upd_log (\<lambda>_. l) t) s1"
    using inv(2) nb f by (auto simp: upd_log_def elim!: wpE)
  have k1: "klog s1 = l" "disksize s1 = disksize t" using wrote_klog [OF 1(5)] wroteD(3) [OF 1(5)] by simp_all
  let ?N = "nat (lh_n (lg_lh l))"
  have "wp (install_loop ?N 0 s1) (\<lambda>_ s'. bio_inv p {} s' \<and> dblocks s' = {} \<and>
    wrote (home_writes l 0 ?N (view s1)) s1 s' \<and> view s' = disk_after (home_writes l 0 ?N (view s1)) (view s1))"
    by (rule install_loop_ok [OF 1(2) k1(1), where c = False]) (use l(2) k1 1(3) in simp_all)
  then obtain s2 where 2: "install_trans s1 = Ret () s2" "bio_inv p {} s2" "dblocks s2 = {}"
    "wrote (home_writes l 0 ?N (disk t)) s1 s2" "view s2 = disk_after (home_writes l 0 ?N (disk t)) (disk t)"
    using k1 gd(3) 1(4) vd [OF inv] by (auto simp: install_trans_def elim!: wpE)
  have k2: "klog s2 = l" "disksize s2 = disksize t" using wrote_klog [OF 2(4)] wroteD(3) [OF 2(4)] k1 by simp_all
  let ?s2 = "upd_log (set_n 0) s2" and ?h = "hdr_block (lg_lh (set_n 0 l)) (disk t (lg_start l))"
  have "lg_start l \<notin> fst ` set (home_writes l 0 ?N (disk t))"
    using lblk_props(6) [OF l(2)] by (fastforce simp: home_writes_def)
  then have h: "?h = hdr_block (lhdr ?s2) (view ?s2 (lg_start (klog ?s2)))"
    using k2 2(5) by (simp add: disk_after_other)
  have "wp (write_head ?s2) (\<lambda>_ s'. bio_inv p {} s' \<and> dblocks s' = dblocks ?s2 \<and>
      wrote [(lg_start (klog ?s2), ?h)] ?s2 s' \<and> view s' = (view ?s2)(lg_start (klog ?s2) := ?h))"
    by (rule write_head_ok [OF _ _ _ _ _ _ h]) (use 2 k2 gd nb in simp_all)
  then obtain s3 where 3: "write_head ?s2 = Ret () s3" "bio_inv p {} s3" "dblocks s3 = {}"
    "wrote [(lg_start l, ?h)] ?s2 s3" using 2(3) k2 by (auto elim!: wpE)
  have "wrote (([] @ home_writes l 0 ?N (disk t)) @ [(lg_start l, ?h)]) (upd_log (set_n 0) (upd_log (\<lambda>_. l) t)) s3"
    by (rule wrote_trans [OF wrote_upd_log [OF wrote_trans [OF 1(5) 2(4)]] 3(4)])
  then have w: "wrote (recover_writes l (disk t)) (upd_log (\<lambda>_. set_n 0 l) t) s3"
    by (simp add: recover_writes_def)
  moreover have "recover_from_log t = Ret () s3"
    using 1(1) 2(1) 3(1) by (simp add: recover_from_log_def set_n_def)
  ultimately show ?thesis using 3(2,3) vd [OF 3(2,3)] wroteD [OF w] wrote_klog [OF w] by simp
qed

subsection \<open>Crashes\<close>

text \<open>The disk without the log area.\<close>

definition outside :: "log \<Rightarrow> (uint \<Rightarrow> bytes) \<Rightarrow> uint \<Rightarrow> bytes option" where
  "outside l d = (\<lambda>b. if in_log l b then None else Some (d b))"

definition same_area :: "log \<Rightarrow> log \<Rightarrow> bool" where
  "same_area l l' \<longleftrightarrow> lg_start l' = lg_start l \<and> lg_size l' = lg_size l \<and> lg_dev l' = lg_dev l"

lemma same_areaD:
  assumes "same_area l l'"
  shows "lg_start l' = lg_start l" "in_log l' = in_log l" "lblk l' = lblk l" "outside l' = outside l"
  using assms by (simp_all add: same_area_def in_log_def lblk_def outside_def fun_eq_iff)

lemma sint_small: "0 \<le> n \<Longrightarrow> n \<le> int LOGSIZE \<Longrightarrow> sint (of_int n :: uint) = n"
  by (simp add: LOGSIZE_def MAXOPBLOCKS_def sint_sbintrunc' signed_take_bit_int_eq_self)

lemma get_hdr:
  "get32 (hdr_block lh d) 0 = of_int (lh_n lh)"
  "i < nat (lh_n lh) \<Longrightarrow> get32 (hdr_block lh d) (4 + 4 * i) = lh_block lh i"
  by (simp_all add: hdr_block_def get_put_words_other get32_put_words)

text \<open>The header read back is the header written; a cleared header has no entries.\<close>

lemma read_log_hdr:
  assumes g: "log_geom l n" and a: "same_area l l'" and L: "L = read_log l' (hdr_block (lg_lh l) x)"
  shows "log_geom L n" "lh_n (lg_lh L) = lh_n (lg_lh l)"
    "\<And>i. i < nat (lh_n (lg_lh l)) \<Longrightarrow> lh_block (lg_lh L) i = lh_block (lg_lh l) i"
proof -
  show e: "lh_n (lg_lh L) = lh_n (lg_lh l)"
    using log_geomD(3,6) [OF g] by (simp add: L get_hdr(1) sint_small)
  show b: "lh_block (lg_lh L) i = lh_block (lg_lh l) i" if "i < nat (lh_n (lg_lh l))" for i
    using that e get_hdr(2) [OF that] by (simp add: L) (simp add: read_log_def upd_lh_def get_words_nth)
  have "inj_on (lh_block (lg_lh L)) {..<nat (lh_n (lg_lh L))}"
    using g b unfolding e by (auto simp: log_geom_def inj_on_def)
  then show "log_geom L n"
    using g b a same_areaD [OF a] e unfolding log_geom_def same_area_def by (simp add: L)
qed

lemma read_log_cleared:
  assumes "log_geom l n" "same_area l l'" "L = read_log l' d" "get32 d 0 = 0"
  shows "log_geom L n" "lh_n (lg_lh L) = 0"
  using assms by (auto simp: log_geom_def same_area_def)

text \<open>Recovery from a disk whose log is complete finishes the transaction, whatever part of it is
  at home already.\<close>

lemma recover_committed:
  assumes g: "log_geom l n" and a: "same_area l l'" and L: "L = read_log l' (e (lg_start l))"
    and h: "e (lg_start l) = hdr_block (lg_lh l) x"
    and lg: "\<And>i. i < nat (lh_n (lg_lh l)) \<Longrightarrow> e (lblk l i) = v (lh_block (lg_lh l) i)"
    and o: "\<And>b. \<not> in_log l b \<Longrightarrow> b \<notin> lh_block (lg_lh l) ` {..<nat (lh_n (lg_lh l))} \<Longrightarrow> e b = v b"
  shows "outside l (disk_after (recover_writes L e) e) = outside l v"
proof -
  let ?N = "nat (lh_n (lg_lh l))" and ?B = "lh_block (lg_lh l)"
  note R = read_log_hdr [OF g a, of L x, OF L [unfolded h]]
  have st: "lg_start L = lg_start l" using same_areaD(1) [OF a] by (simp add: L)
  have "lblk L = lblk l" using same_areaD(3) [OF a] by (simp add: L)
  then have hw: "home_writes L 0 (nat (lh_n (lg_lh L))) e = map (\<lambda>i. (?B i, v (?B i))) [0..<?N]"
    using R(2,3) lg by (simp add: home_writes_def)
  have "disk_after (recover_writes L e) e b = v b" if "\<not> in_log l b" for b
  proof -
    have "b \<noteq> lg_start l" using that log_geomD(5) [OF g] by auto
    then have "disk_after (recover_writes L e) e b = disk_after (map (\<lambda>i. (?B i, v (?B i))) [0..<?N]) e b"
      by (simp add: recover_writes_def hw st)
    also have "\<dots> = v b" by (rule homes_after [OF g]) (use o [OF that] in simp)
    finally show ?thesis .
  qed
  then show ?thesis by (auto simp: outside_def)
qed

lemma recover_nothing:
  assumes g: "log_geom l n" and a: "same_area l l'" and L: "L = read_log l' (e (lg_start l))"
    and h: "get32 (e (lg_start l)) 0 = 0"
  shows "outside l (disk_after (recover_writes L e) e) = outside l e"
proof -
  have "lg_start L = lg_start l" "lh_n (lg_lh L) = 0"
    using same_areaD(1) [OF a] h by (simp_all add: L)
  then have "recover_writes L e = [(lg_start l, hdr_block (lg_lh (set_n 0 L)) (e (lg_start l)))]"
    by (simp add: recover_writes_def home_writes_def)
  then show ?thesis using log_geomD(5) [OF g] by (auto simp: outside_def)
qed

lemma log_prefix_other:
  assumes "log_geom l n" "\<not> in_log l b \<or> b = lg_start l"
  shows "disk_after (take k (log_writes l 0 (nat (lh_n (lg_lh l))) v)) d b = d b"
proof (rule disk_after_other)
  have "fst ` set (take k (log_writes l 0 (nat (lh_n (lg_lh l))) v)) \<subseteq> lblk l ` {..<nat (lh_n (lg_lh l))}"
    using set_take_subset [of k] by (fastforce simp: log_writes_def)
  moreover have "b \<notin> lblk l ` {..<nat (lh_n (lg_lh l))}"
    using lblk_props(2,3) [OF assms(1)] assms(2) by fastforce
  ultimately show "b \<notin> fst ` set (take k (log_writes l 0 (nat (lh_n (lg_lh l))) v))" by blast
qed

text \<open>The disk after the first \<open>k\<close> writes of a commit, and what recovery makes of it.\<close>

lemma crash_recover:
  assumes g: "log_geom l n" and a: "same_area l l'" and L: "L = read_log l' (e (lg_start l))"
    and e: "e = disk_after (take k (commit_writes l v)) d" and h: "get32 (d (lg_start l)) 0 = 0"
    and o: "\<And>b. \<not> in_log l b \<Longrightarrow> b \<notin> lh_block (lg_lh l) ` {..<nat (lh_n (lg_lh l))} \<Longrightarrow> v b = d b"
  shows "log_geom L n \<and> outside l (disk_after (recover_writes L e) e) =
    outside l (if k \<le> nat (lh_n (lg_lh l)) then d else v)"
proof (cases "nat (lh_n (lg_lh l)) = 0")
  case True
  then have "e = d" "outside l v = outside l d" using o by (auto simp: e commit_writes_def outside_def)
  then show ?thesis using recover_nothing [where e = e, OF g a L] read_log_cleared [OF g a L] h by simp
next
  case F: False
  let ?N = "nat (lh_n (lg_lh l))" and ?B = "lh_block (lg_lh l)" and ?h = "hdr_block (lg_lh l) (v (lg_start l))"
  let ?hs = "map (\<lambda>i. (?B i, v (?B i))) [0..<?N]" and ?z = "hdr_block (lg_lh (set_n 0 l)) ?h"
  have ws: "commit_writes l v = log_writes l 0 ?N v @ (lg_start l, ?h) # ?hs @ [(lg_start l, ?z)]"
    using F by (simp add: commit_writes_def Let_def)
  have len: "length (log_writes l 0 ?N v) = ?N" by (simp add: log_writes_def)
  have hs: "fst ` set (take j ?hs) \<subseteq> ?B ` {..<?N}" for j using set_take_subset [of j] by fastforce
  consider "k \<le> ?N" | "?N < k" "k \<le> 2 * ?N + 1" | "2 * ?N + 1 < k" by linarith
  then show ?thesis
  proof cases
    case 1
    then have "e = disk_after (take k (log_writes l 0 ?N v)) d" by (simp add: e ws len)
    then have "e (lg_start l) = d (lg_start l)" "outside l e = outside l d"
      using log_prefix_other [OF g] by (auto simp: outside_def)
    then show ?thesis using recover_nothing [where e = e, OF g a L] read_log_cleared [OF g a L] h 1 by simp
  next
    case 2
    then obtain j where j: "k = ?N + Suc j" "j \<le> ?N" using that [of "k - ?N - 1"] by simp
    then have ej: "e = disk_after (take j ?hs) ((disk_after (log_writes l 0 ?N v) d)(lg_start l := ?h))"
      by (simp add: e ws len)
    have nin: "b \<notin> ?B ` {..<?N} \<Longrightarrow> e b = ((disk_after (log_writes l 0 ?N v) d)(lg_start l := ?h)) b" for b
      unfolding ej by (rule disk_after_other) (use hs in auto)
    have est: "e (lg_start l) = ?h" using nin [of "lg_start l"] lblk_props(6) [OF g] by fastforce
    have el: "e (lblk l i) = v (?B i)" if "i < ?N" for i
    proof -
      have "lblk l i \<notin> ?B ` {..<?N}" using lblk_props(5) [OF g that] by fastforce
      from nin [OF this] show ?thesis using lblk_props(3) [OF g that] log_written [OF g that] by simp
    qed
    have eo: "e b = v b" if "\<not> in_log l b" "b \<notin> ?B ` {..<?N}" for b
      using nin [OF that(2)] that o log_writes_other [OF g] log_geomD(5) [OF g] by (auto simp: fun_upd_def)
    have "outside l (disk_after (recover_writes L e) e) = outside l v"
      by (rule recover_committed [where e = e, OF g a L est]) (use el eo in auto)
    moreover have "log_geom L n" by (rule read_log_hdr(1) [OF g a L [unfolded est]])
    ultimately show ?thesis using 2 by simp
  next
    case 3
    then have "take k (commit_writes l v) = commit_writes l v" by (simp add: ws len)
    then have ev: "e = disk_after (commit_writes l v) d" by (simp add: e)
    then have z: "get32 (e (lg_start l)) 0 = 0" by (simp add: ws get_hdr)
    have "disk_after ?hs (d'(lg_start l := x)) b = v b" if "\<not> in_log l b" "d' b = d b" for b d' x
      by (rule homes_after [OF g]) (use that o [OF that(1)] log_geomD(5) [OF g] in auto)
    then have "outside l e = outside l v"
      unfolding ev using log_writes_other [OF g] log_geomD(5) [OF g] by (auto simp: ws outside_def)
    then show ?thesis using recover_nothing [where e = e, OF g a L z] read_log_cleared(1) [OF g a L z] 3 by simp
  qed
qed

subsection \<open>Transactions\<close>

lemma commit_writes_cong:
  "lg_start l' = lg_start l \<Longrightarrow> lg_lh l' = lg_lh l \<Longrightarrow> commit_writes l' v = commit_writes l v"
  by (simp add: commit_writes_def log_writes_def lblk_def set_n_def upd_lh_def Let_def)

lemma log_geom_cong:
  "lg_start l' = lg_start l \<Longrightarrow> lg_size l' = lg_size l \<Longrightarrow> lg_dev l' = lg_dev l \<Longrightarrow> lg_lh l' = lg_lh l \<Longrightarrow>
    log_geom l' n = log_geom l n"
  by (simp add: log_geom_def in_log_def)

lemma log_geom_set_n: "log_geom l n \<Longrightarrow> log_geom (set_n 0 l) n"
  by (auto simp: log_geom_def)

lemma wakeup_log:
  assumes "alone p (mach s) (procs s)"
  shows "wakeup ChLog s = Ret () s"
  using aloneD [OF assms] wakeup1_alone [OF assms] by (simp add: wakeup_calm fs_chan_def)

lemma wakeup_log_acq:
  assumes "alone p (mach s) (procs s)"
  shows "wakeup ChLog (s\<lparr>mach := acq LkLog (mach s)\<rparr>) = Ret () (s\<lparr>mach := acq LkLog (mach s)\<rparr>)"
proof -
  have "wakeup1 ChLog s = s" by (rule wakeup1_alone [OF assms]) (simp add: fs_chan_def)
  then show ?thesis using aloneD [OF assms] by (simp add: wakeup_calm)
qed

lemma begin_op_ok:
  assumes "alone p (mach s) (procs s)" "lg_committing (klog s) = 0"
    "lh_n (lhdr s) + (lg_outstanding (klog s) + 1) * int MAXOPBLOCKS \<le> int LOGSIZE"
  shows "begin_op s = Ret () (upd_log (\<lambda>l. l\<lparr>lg_outstanding := lg_outstanding l + 1\<rparr>) s)"
  using assms aloneD [OF assms(1)]
  by (simp add: begin_op_def begin_op_loop_def acquire_calm release_calm)

lemma begin_op_waits:
  assumes "alone p (mach s) (procs s)" "mycli (mach s) = 0" "lg_committing (klog s) \<noteq> 0 \<or>
    int LOGSIZE < lh_n (lhdr s) + (lg_outstanding (klog s) + 1) * int MAXOPBLOCKS"
  shows "begin_op s = Swtch (upd_proc p (\<lambda>q. q\<lparr>p_chan := Some ChLog, p_state := SLEEPING\<rparr>)
    (s\<lparr>mach := acq LkPtable (mach s)\<rparr>))"
  using assms(3) aloneD [OF assms(1)]
    sleep_swtch [OF aloneD(1) [OF assms(1)] assms(2) aloneD(2,3,3) [OF assms(1)], of LkLog
      "s\<lparr>mach := acq LkLog (mach s)\<rparr>" ChLog]
  by (auto simp: begin_op_def begin_op_loop_def acquire_calm)

lemma end_op_others:
  assumes "alone p (mach s) (procs s)" "lg_committing (klog s) = 0" "lg_outstanding (klog s) \<noteq> 1"
  shows "end_op s = Ret () (upd_log (\<lambda>l. l\<lparr>lg_outstanding := lg_outstanding l - 1\<rparr>) s)"
proof -
  let ?s = "upd_log (\<lambda>l. l\<lparr>lg_outstanding := lg_outstanding l - 1\<rparr>) s"
  have "wakeup ChLog (?s\<lparr>mach := acq LkLog (mach s)\<rparr>) = Ret () (?s\<lparr>mach := acq LkLog (mach s)\<rparr>)"
    using wakeup_log_acq [of p ?s] assms(1) by simp
  then show ?thesis
    using assms aloneD [OF assms(1)] by (simp add: end_op_def acquire_calm release_calm Let_def)
qed

lemma end_op_ok:
  assumes inv: "log_inv p {} s" and o: "lg_outstanding (klog s) = 1" "lg_committing (klog s) = 0"
    and ws: "ws = commit_writes (klog s) (view s)"
  shows "wp (end_op s) (\<lambda>_ s'. log_inv p {} s' \<and> view s' = disk s' \<and>
    klog s' = set_n 0 ((klog s)\<lparr>lg_outstanding := 0\<rparr>) \<and> disksize s' = disksize s \<and>
    dwrites s' = dwrites s @ ws \<and> disk s' = disk_after ws (disk s) \<and> view s' = disk_after ws (view s))"
proof -
  let ?f = "\<lambda>l. l\<lparr>lg_outstanding := 0, lg_committing := 1\<rparr>"
  let ?s = "upd_log ?f s"
  have al: "alone p (mach s) (procs s)" by (rule bio_invD(1) [OF log_invD(1) [OF inv]])
  have "log_inv p {} ?s" using inv log_geom_cong [of "klog ?s" "klog s"] by (simp add: log_inv_def)
  from commit_ok [OF this] obtain s1 where 1: "commit ?s = Ret () s1" "bio_inv p {} s1" "dblocks s1 = {}"
    "wrote ws (upd_log (set_n 0) ?s) s1" "view s1 = disk_after ws (view s)"
    using commit_writes_cong [of "klog ?s" "klog s"] ws by (auto elim!: wpE)
  note W = wroteD [OF 1(4)] wrote_klog [OF 1(4)]
  let ?s2 = "upd_log (\<lambda>l. l\<lparr>lg_committing := 0\<rparr>) s1"
  have al1: "alone p (mach s1) (procs s1)" by (rule bio_invD(1) [OF 1(2)])
  have k: "klog ?s2 = set_n 0 ((klog s)\<lparr>lg_outstanding := 0\<rparr>)"
    using W(6) o by (simp add: set_n_def upd_lh_def)
  have e: "upd_log (\<lambda>l. l\<lparr>lg_outstanding := lg_outstanding l - 1, lg_committing := 1\<rparr>) s = ?s"
    using o by (simp add: upd_log_def)
  have "end_op s = Ret () ?s2"
    using o 1(1) aloneD [OF al] aloneD [OF al1] wakeup_log_acq [of p ?s2] al1
    by (simp add: end_op_def acquire_calm release_calm Let_def e)
  moreover have "log_geom (klog ?s2) (disksize ?s2)"
    unfolding k using W(3) log_geom_set_n [OF log_invD(2) [OF inv]]
      log_geom_cong [of "set_n 0 ((klog s)\<lparr>lg_outstanding := 0\<rparr>)" "set_n 0 (klog s)"]
    by (simp add: set_n_def upd_lh_def)
  then have "log_inv p {} ?s2" using 1(2,3) k by (simp add: log_inv_def)
  moreover have "view ?s2 = disk ?s2" using view_disk [OF 1(2)] 1(3) by auto
  ultimately show ?thesis using k W 1(5) by simp
qed

text \<open>\<open>log_write\<close> adds the block to the transaction, once, and writes nothing.\<close>

lemma log_index_props:
  assumes "inj_on (lh_block lh) {..<nat (lh_n lh)}" "0 \<le> lh_n lh"
    and "lh' = (let i = log_index b lh; h = lh\<lparr>lh_block := (lh_block lh)(i := b)\<rparr>
      in if int i = lh_n h then h\<lparr>lh_n := lh_n h + 1\<rparr> else h)"
  shows "lh_block lh' ` {..<nat (lh_n lh')} = insert b (lh_block lh ` {..<nat (lh_n lh)})"
    "inj_on (lh_block lh') {..<nat (lh_n lh')}"
    "lh_n lh' = (if b \<in> lh_block lh ` {..<nat (lh_n lh)} then lh_n lh else lh_n lh + 1)"
proof -
  let ?N = "nat (lh_n lh)"
  have "lh_block lh' ` {..<nat (lh_n lh')} = insert b (lh_block lh ` {..<?N}) \<and>
    inj_on (lh_block lh') {..<nat (lh_n lh')} \<and>
    lh_n lh' = (if b \<in> lh_block lh ` {..<?N} then lh_n lh else lh_n lh + 1)"
  proof (cases "find (\<lambda>i. lh_block lh i = b) [0..<?N]")
    case None
    then have ix: "log_index b lh = ?N" by (simp add: log_index_def)
    from None have nb: "b \<notin> lh_block lh ` {..<?N}" by (auto simp: find_None_iff)
    have l: "lh' = lh\<lparr>lh_block := (lh_block lh)(?N := b), lh_n := lh_n lh + 1\<rparr>"
      using assms(2,3) ix by (simp add: Let_def)
    have "nat (lh_n lh + 1) = Suc ?N" using assms(2) by simp
    then show ?thesis using l nb assms(1) by (auto simp: lessThan_Suc inj_on_def)
  next
    case (Some i)
    then have i: "log_index b lh = i" "i < ?N" "lh_block lh i = b"
      using find_SomeD [OF Some] by (simp_all add: log_index_def)
    then have "lh' = lh" using assms(3) by (simp add: Let_def fun_upd_idem)
    moreover have "b \<in> lh_block lh ` {..<?N}" using i by (intro image_eqI [of _ _ i]) simp_all
    ultimately show ?thesis using assms(1) by auto
  qed
  then show "lh_block lh' ` {..<nat (lh_n lh')} = insert b (lh_block lh ` {..<nat (lh_n lh)})"
    "inj_on (lh_block lh') {..<nat (lh_n lh')}"
    "lh_n lh' = (if b \<in> lh_block lh ` {..<nat (lh_n lh)} then lh_n lh else lh_n lh + 1)" by blast+
qed

lemma log_write_ok:
  assumes inv: "log_inv p H s" and q: "q \<in> H" and o: "1 \<le> lg_outstanding (klog s)"
    and n: "lh_n (lhdr s) < lg_size (klog s) - 1" and b: "b = b_blockno (bufs s q)" "\<not> in_log (klog s) b"
  shows "wp (log_write q s) (\<lambda>_ s'. log_inv p H s' \<and> view s' = view s \<and> disk s' = disk s \<and>
    dwrites s' = dwrites s \<and> dblocks s' = insert b (dblocks s) \<and> disksize s' = disksize s \<and>
    bdirty (bufs s' q) \<and> (\<forall>j. j \<noteq> q \<longrightarrow> bufs s' j = bufs s j) \<and> bufs s' q = (bufs s q)\<lparr>b_flags := b_flags (bufs s' q)\<rparr> \<and>
    s' = s\<lparr>bufs := bufs s', klog := klog s'\<rparr> \<and> klog s' = (klog s)\<lparr>lg_lh := lhdr s'\<rparr> \<and>
    lh_n (lhdr s') = (if b \<in> dblocks s then lh_n (lhdr s) else lh_n (lhdr s) + 1))"
proof -
  note I = log_invD [OF inv] note h = held_bufD [OF I(1) q] and A = aloneD [OF bio_invD(1) [OF I(1)]]
  let ?k = "(bufs s q)\<lparr>b_flags := b_flags (bufs s q) OR B_DIRTY\<rparr>"
  define lh' where "lh' = (let i = log_index b (lhdr s); h = (lhdr s)\<lparr>lh_block := (lh_block (lhdr s))(i := b)\<rparr>
      in if int i = lh_n h then h\<lparr>lh_n := lh_n h + 1\<rparr> else h)"
  let ?t = "s\<lparr>bufs := (bufs s)(q := ?k)\<rparr>"
  let ?s = "upd_log (\<lambda>l. l\<lparr>lg_lh := lh'\<rparr>) ?t"
  have k: "bvalid ?k" "bdirty ?k" using h(3) by (simp_all add: bvalid_bit bdirty_bit bit_simps B_DIRTY_def)
  have B: "bio_inv p H ?t" "view ?t = (view s)(b_blockno ?k := b_data ?k)"
    "dirties ?t = (if bdirty ?k then insert q (dirties s) else dirties s - {q})"
    by (rule set_buf_ok [OF I(1) q _ _ _ _ _ k(1) refl]; simp)+
  have v: "view ?t = view s" using B(2) held_view [OF I(1) q] by (simp add: fun_upd_idem)
  have d: "dblocks ?t = insert b (dblocks s)"
    using B(3) k(2) by (auto simp: dblocks_def b(1))
  have L: "lh_block lh' ` {..<nat (lh_n lh')} = insert b (dblocks s)" "inj_on (lh_block lh') {..<nat (lh_n lh')}"
    "lh_n lh' = (if b \<in> dblocks s then lh_n (lhdr s) else lh_n (lhdr s) + 1)"
    unfolding I(3)
    by (rule log_index_props [OF _ _ lh'_def]; use I(2) in \<open>simp add: log_geom_def\<close>)+
  have "lh_block lh' i < disksize s \<and> \<not> in_log (klog s) (lh_block lh' i)" if "i < nat (lh_n lh')" for i
  proof -
    have "lh_block lh' i \<in> insert b (lh_block (lhdr s) ` {..<nat (lh_n (lhdr s))})"
      using L(1) that unfolding I(3) by blast
    then show ?thesis using I(2) b h(5) by (auto simp: log_geom_def)
  qed
  then have "log_geom (klog ?s) (disksize ?s)"
    using I(2) L(2,3) n by (auto simp: log_geom_def in_log_def)
  then have "log_inv p H ?s" using B(1) d L(1) by (simp add: log_inv_def)
  moreover have "log_write q s = Ret () ?s"
    using I(2) o n A b(1) unfolding log_write_def Let_def lh'_def
    by (simp add: acquire_calm release_calm log_geom_def)
       (simp add: upd_log_def upd_buf_def upd_lh_def)
  ultimately show ?thesis using v d L(3) k(2) by simp (simp add: upd_log_def)
qed

subsection \<open>Working inside a transaction\<close>

text \<open>
  The client's side of the log: process \<open>p\<close> is inside a transaction and holds the buffers \<open>H\<close>, whose
  changes are logged. \<open>tx_room k\<close>: the transaction may still grow by \<open>k\<close> blocks, with some buffers to
  spare. \<open>tx_frame\<close>: buffers, their locks and the log header are all that differs.
\<close>

abbreviation lgn :: "'z kst_log_scheme \<Rightarrow> int" where
  "lgn s \<equiv> lh_n (lhdr s)"

definition tx_inv :: "nat \<Rightarrow> nat set \<Rightarrow> 'z kst_log_scheme \<Rightarrow> bool" where
  "tx_inv p H s \<longleftrightarrow> log_inv p H s \<and> 1 \<le> lg_outstanding (klog s) \<and>
     (\<forall>q \<in> H. bdirty (bufs s q) \<or> b_data (bufs s q) = disk s (b_blockno (bufs s q)))"

definition tx_room :: "nat \<Rightarrow> 'z kst_log_scheme \<Rightarrow> bool" where
  "tx_room k s \<longleftrightarrow> lgn s + int k + 4 \<le> lg_size (klog s)"

definition tx_frame :: "'z kst_log_scheme \<Rightarrow> 'z kst_log_scheme \<Rightarrow> bool" where
  "tx_frame s s' \<longleftrightarrow> (\<forall>i. slocks s' (SlInode i) = slocks s (SlInode i)) \<and>
     (\<exists>l t h. s' = s\<lparr>slocks := l, bufs := t, klog := (klog s)\<lparr>lg_lh := h\<rparr>\<rparr>)"

lemma tx_frameD:
  assumes "tx_frame s s'"
  shows "slocks s' (SlInode i) = slocks s (SlInode i)" "mach s' = mach s" "procs s' = procs s" "disk s' = disk s"
    "dwrites s' = dwrites s" "disksize s' = disksize s" "lg_size (klog s') = lg_size (klog s)"
    "in_log (klog s') = in_log (klog s)" "lg_start (klog s') = lg_start (klog s)"
    "lg_outstanding (klog s') = lg_outstanding (klog s)" "mem s' = mem s" "kmem s' = kmem s"
    "lg_committing (klog s') = lg_committing (klog s)"
  using assms by (auto simp: tx_frame_def in_log_def fun_eq_iff)

lemma tx_frameI:
  assumes "s' = s\<lparr>slocks := l, bufs := t, klog := k\<rparr>" "k = (klog s)\<lparr>lg_lh := h\<rparr>"
    "\<And>i. slocks s' (SlInode i) = slocks s (SlInode i)"
  shows "tx_frame s s'"
  using assms unfolding tx_frame_def by blast

lemma tx_frame_trans:
  assumes "tx_frame s s'" "tx_frame s' s''"
  shows "tx_frame s s''"
proof -
  from assms obtain l t h where "s'' = s\<lparr>slocks := l, bufs := t, klog := (klog s)\<lparr>lg_lh := h\<rparr>\<rparr>"
    by (auto simp: tx_frame_def)
  then show ?thesis
    by (rule tx_frameI) (simp_all add: tx_frameD(1) [OF assms(1)] tx_frameD(1) [OF assms(2)])
qed

lemma tx_frame_refl [simp]: "tx_frame s s"
  by (rule tx_frameI [where l = "slocks s" and t = "bufs s" and k = "klog s" and h = "lhdr s"]) simp_all

lemma tx_frame_bio:
  assumes "bio_frame s s'"
  shows "tx_frame s s'"
proof (rule tx_frameI [where h = "lhdr s"])
  have "s\<lparr>slocks := slocks s', bufs := bufs s', klog := klog s\<rparr> = s\<lparr>slocks := slocks s', bufs := bufs s'\<rparr>" by simp
  then show "s' = s\<lparr>slocks := slocks s', bufs := bufs s', klog := klog s\<rparr>"
    using assms unfolding bio_frame_def by metis
qed (use assms in \<open>simp_all add: bio_frame_def\<close>)

lemma tx_invD:
  assumes "tx_inv p H s"
  shows "log_inv p H s" "bio_inv p H s" "finite H" "H \<subseteq> {..<NBUF}"
proof -
  show l: "log_inv p H s" using assms by (simp add: tx_inv_def)
  show i: "bio_inv p H s" by (rule log_invD(1) [OF l])
  show h: "H \<subseteq> {..<NBUF}" by (rule bio_invD(2) [OF i])
  show "finite H" by (rule finite_subset [OF h]) simp
qed

lemma lgn_card: "log_inv p H s \<Longrightarrow> int (card (dblocks s)) = lgn s"
proof -
  assume i: "log_inv p H s"
  have "inj_on (lh_block (lhdr s)) {..<nat (lgn s)}" "0 \<le> lgn s"
    using log_invD(2) [OF i] by (simp_all add: log_geom_def)
  then show ?thesis using log_invD(3) [OF i] by (simp add: card_image)
qed

lemma tx_bread:
  assumes inv: "tx_inv p H s" and b: "b < disksize s" "\<And>i. i \<in> H \<Longrightarrow> b_blockno (bufs s i) \<noteq> b"
    and r: "tx_room 0 s" "card H \<le> 3"
  shows "wp (bread 1 b s) (\<lambda>q s'. q \<notin> H \<and> tx_inv p (insert q H) s' \<and> b_blockno (bufs s' q) = b \<and>
    b_data (bufs s' q) = view s b \<and> view s' = view s \<and> lgn s' = lgn s \<and> tx_frame s s' \<and>
    (\<forall>j. j \<noteq> q \<longrightarrow> bufs s' j = bufs s j))"
proof -
  note I = tx_invD [OF inv]
  have "card H + card (dblocks s) < NBUF"
    using lgn_card [OF I(1)] r log_invD(2) [OF I(1)]
    by (simp add: tx_room_def log_geom_def LOGSIZE_def NBUF_def)
  then have "wp (bread 1 b s) (\<lambda>q s'. bread_post p H b s q s' \<and> dblocks s' = dblocks s \<and>
      (bdirty (bufs s' q) \<longleftrightarrow> b \<in> dblocks s))"
    by (intro bread_blk [OF I(2) b]) auto
  then show ?thesis
  proof (rule wp_mono)
    fix q s' assume A: "bread_post p H b s q s' \<and> dblocks s' = dblocks s \<and> (bdirty (bufs s' q) \<longleftrightarrow> b \<in> dblocks s)"
    then have P: "q \<notin> H" "bio_inv p (insert q H) s'" "b_blockno (bufs s' q) = b" "b_data (bufs s' q) = view s b"
      "view s' = view s" "\<And>j. j \<noteq> q \<Longrightarrow> bufs s' j = bufs s j" and f: "bio_frame s s'"
      by (simp_all add: bread_post_def)
    note F = tx_frameD [OF tx_frame_bio [OF f]] and k = wrote_klog [OF wrote_frame [OF f]]
    have "log_inv p (insert q H) s'" using P(2) A k F log_invD(2,3) [OF I(1)] by (simp add: log_inv_def)
    moreover have "bdirty (bufs s' q) \<or> b_data (bufs s' q) = disk s' (b_blockno (bufs s' q))"
      using A P F view_disk [OF I(2) _ b(2)] by auto
    moreover have "bdirty (bufs s' j) \<or> b_data (bufs s' j) = disk s' (b_blockno (bufs s' j))" if "j \<in> H" for j
    proof -
      have "j \<noteq> q" using P(1) that by auto
      then show ?thesis using P(6) [of j] F inv that by (simp add: tx_inv_def)
    qed
    ultimately have "tx_inv p (insert q H) s'" using inv k by (simp add: tx_inv_def)
    then show "q \<notin> H \<and> tx_inv p (insert q H) s' \<and> b_blockno (bufs s' q) = b \<and>
        b_data (bufs s' q) = view s b \<and> view s' = view s \<and> lgn s' = lgn s \<and> tx_frame s s' \<and>
        (\<forall>j. j \<noteq> q \<longrightarrow> bufs s' j = bufs s j)"
      using P k tx_frame_bio [OF f] by simp
  qed
qed

lemma tx_brelse:
  assumes inv: "tx_inv p H s" and q: "q \<in> H"
  shows "wp (brelse q s) (\<lambda>_ s'. tx_inv p (H - {q}) s' \<and> view s' = view s \<and> lgn s' = lgn s \<and>
    tx_frame s s' \<and> (\<forall>j. j \<noteq> q \<longrightarrow> core (bufs s' j) = core (bufs s j)))"
proof -
  note I = tx_invD [OF inv]
  have c: "bdirty (bufs s q) \<or> b_data (bufs s q) = disk s (b_blockno (bufs s q))"
    using inv q by (simp add: tx_inv_def)
  note R = released_ok [OF I(2) q c] and D = dblocks_released [OF I(2) q c]
  note F = tx_frameD [OF tx_frame_bio [OF R(4)]] and k = wrote_klog [OF wrote_frame [OF R(4)]]
  have "log_inv p (H - {q}) (released q s)"
    using R(1) D k F log_invD(2,3) [OF I(1)] by (simp add: log_inv_def)
  moreover have "bdirty (bufs (released q s) j) \<or> b_data (bufs (released q s) j) = disk (released q s)
      (b_blockno (bufs (released q s) j))" if "j \<in> H - {q}" for j
    using core_eqD(3,5,7) [OF R(5), of j] that F inv by (simp add: tx_inv_def)
  ultimately have "tx_inv p (H - {q}) (released q s)" using inv k by (simp add: tx_inv_def)
  then show ?thesis using brelse_eq [OF I(2) q] R k tx_frame_bio [OF R(4)] by simp
qed

lemma tx_write:
  assumes inv: "tx_inv p H s" and q: "q \<in> H" and b: "b = b_blockno (bufs s q)" "\<not> in_log (klog s) b"
    and r: "tx_room 1 s"
  shows "wp (log_write q (upd_buf q (\<lambda>k. k\<lparr>b_data := d\<rparr>) s)) (\<lambda>_ s'. tx_inv p H s' \<and>
    view s' = (view s)(b := d) \<and> lgn s \<le> lgn s' \<and> lgn s' \<le> lgn s + 1 \<and> tx_frame s s' \<and>
    b_blockno (bufs s' q) = b \<and> b_data (bufs s' q) = d \<and> (\<forall>j. j \<noteq> q \<longrightarrow> bufs s' j = bufs s j))"
proof -
  note I = tx_invD [OF inv]
  let ?s = "upd_buf q (\<lambda>k. k\<lparr>b_data := d\<rparr>) s"
  note T = set_data_ok [OF I(2) q, of ?s d, OF refl]
  have k: "klog ?s = klog s" by (simp add: upd_buf_def)
  have "log_inv p H ?s" using T(1) log_invD(2,3) [OF I(1)] k by (simp add: log_inv_def)
  from log_write_ok [OF this q, of b] inv r b k
  have "wp (log_write q ?s) (\<lambda>_ s'. log_inv p H s' \<and> view s' = view ?s \<and> disk s' = disk ?s \<and>
    dwrites s' = dwrites ?s \<and> dblocks s' = insert b (dblocks ?s) \<and> disksize s' = disksize ?s \<and>
    bdirty (bufs s' q) \<and> (\<forall>j. j \<noteq> q \<longrightarrow> bufs s' j = bufs ?s j) \<and>
    bufs s' q = (bufs ?s q)\<lparr>b_flags := b_flags (bufs s' q)\<rparr> \<and>
    s' = ?s\<lparr>bufs := bufs s', klog := klog s'\<rparr> \<and> klog s' = (klog ?s)\<lparr>lg_lh := lhdr s'\<rparr> \<and>
    lgn s' = (if b \<in> dblocks ?s then lgn ?s else lgn ?s + 1))"
    by (simp add: tx_inv_def tx_room_def)
  then show ?thesis
  proof (rule wp_mono)
    fix u :: unit and s'
    assume A: "log_inv p H s' \<and> view s' = view ?s \<and> disk s' = disk ?s \<and>
      dwrites s' = dwrites ?s \<and> dblocks s' = insert b (dblocks ?s) \<and> disksize s' = disksize ?s \<and>
      bdirty (bufs s' q) \<and> (\<forall>j. j \<noteq> q \<longrightarrow> bufs s' j = bufs ?s j) \<and>
      bufs s' q = (bufs ?s q)\<lparr>b_flags := b_flags (bufs s' q)\<rparr> \<and>
      s' = ?s\<lparr>bufs := bufs s', klog := klog s'\<rparr> \<and> klog s' = (klog ?s)\<lparr>lg_lh := lhdr s'\<rparr> \<and>
      lgn s' = (if b \<in> dblocks ?s then lgn ?s else lgn ?s + 1)"
    then have li: "log_inv p H s'" and v: "view s' = view ?s" and dk: "disk s' = disk ?s" and bd: "bdirty (bufs s' q)"
      and bo: "\<And>j. j \<noteq> q \<Longrightarrow> bufs s' j = bufs s j" and bq: "bufs s' q = (bufs ?s q)\<lparr>b_flags := b_flags (bufs s' q)\<rparr>"
      and fr: "s' = ?s\<lparr>bufs := bufs s', klog := klog s'\<rparr>" and kl: "klog s' = (klog s)\<lparr>lg_lh := lhdr s'\<rparr>"
      and ln: "lgn s \<le> lgn s'" "lgn s' \<le> lgn s + 1" using k by auto
    have eq: "?s\<lparr>bufs := bufs s', klog := klog s'\<rparr> = s\<lparr>slocks := slocks s, bufs := bufs s', klog := klog s'\<rparr>"
      by (simp add: upd_buf_def)
    have sl: "slocks s' = slocks s" using arg_cong [OF fr, of slocks] by simp
    have tf: "tx_frame s s'" by (rule tx_frameI [OF trans [OF fr eq] kl]) (simp add: sl)
    have "1 \<le> lg_outstanding (klog s')" using arg_cong [OF kl, of lg_outstanding] inv by (simp add: tx_inv_def)
    moreover have "bdirty (bufs s' j) \<or> b_data (bufs s' j) = disk s' (b_blockno (bufs s' j))" if "j \<in> H" for j
      using bd bo [of j] dk inv that by (cases "j = q") (simp_all add: tx_inv_def)
    ultimately have "tx_inv p H s'" using li by (simp add: tx_inv_def)
    moreover have "b_blockno (bufs s' q) = b" "b_data (bufs s' q) = d"
      using arg_cong [OF bq, of b_blockno] arg_cong [OF bq, of b_data] b(1) by simp_all
    ultimately show "tx_inv p H s' \<and> view s' = (view s)(b := d) \<and> lgn s \<le> lgn s' \<and> lgn s' \<le> lgn s + 1 \<and>
        tx_frame s s' \<and> b_blockno (bufs s' q) = b \<and> b_data (bufs s' q) = d \<and> (\<forall>j. j \<noteq> q \<longrightarrow> bufs s' j = bufs s j)"
      using v T(2) b(1) ln tf bo by simp
  qed
qed

text \<open>A crash in the middle of recovery: the next recovery completes the same transaction.\<close>

lemma recover_prefix:
  assumes g: "log_geom L n" and L: "L = read_log l (e (lg_start l))"
    and e': "e' = disk_after (take j (recover_writes L e)) e" and L': "L' = read_log l (e' (lg_start l))"
  shows "log_geom L' n \<and> outside l (disk_after (recover_writes L' e') e') = outside l (disk_after (recover_writes L e) e)"
proof (cases "j \<le> nat (lh_n (lg_lh L))")
  case True
  let ?N = "nat (lh_n (lg_lh L))" and ?B = "lh_block (lg_lh L)"
  define v where "v = disk_after (home_writes L 0 ?N e) e"
  have st: "lg_start L = lg_start l" "lblk L = lblk l" "in_log L = in_log l" by (simp_all add: L)
  have hw: "home_writes L 0 ?N e = map (\<lambda>i. (?B i, v (?B i))) [0..<?N]"
  proof -
    have "inj_on ?B (set [0..<?N])" using g by (simp add: log_geom_def lessThan_atLeast0)
    from disk_after_map [OF this, of _ "\<lambda>i. e (lblk L i)"] show ?thesis
      by (simp add: home_writes_def v_def)
  qed
  have "e' = disk_after (take j (home_writes L 0 ?N e)) e"
    using True by (simp add: e' recover_writes_def home_writes_def)
  moreover have "fst ` set (take j (home_writes L 0 ?N e)) \<subseteq> ?B ` {..<?N}"
    using set_take_subset [of j] by (fastforce simp: home_writes_def)
  ultimately have nin: "e' b = e b" if "b \<notin> ?B ` {..<?N}" for b
    using that by (simp, intro disk_after_other) blast
  have nl: "\<not> in_log L b" if "b \<in> ?B ` {..<?N}" for b using that g by (auto simp: log_geom_def)
  have est: "e' (lg_start l) = e (lg_start l)" using nin nl log_geomD(5) [OF g] st by metis
  then have LL: "L' = L" using L L' by simp
  have "e' (lblk L i) = e (lblk L i)" if "i < ?N" for i using nin nl lblk_props(2) [OF g that] by metis
  then have "home_writes L 0 ?N e' = home_writes L 0 ?N e" by (simp add: home_writes_def)
  moreover have "disk_after (home_writes L 0 ?N e) e' = v"
    unfolding hw by (rule ext, rule homes_after [OF g]) (simp add: nin v_def disk_after_other home_writes_def image_image lessThan_atLeast0)
  ultimately have "disk_after (recover_writes L' e') e' = disk_after (recover_writes L e) e"
    unfolding LL using est st(1) v_def by (simp add: recover_writes_def)
  then show ?thesis using g LL by simp
next
  case False
  then have "take j (recover_writes L e) = recover_writes L e" by (simp add: recover_writes_def home_writes_def)
  then have ev: "e' = disk_after (recover_writes L e) e" by (simp add: e')
  have a: "same_area L l" by (simp add: same_area_def L)
  have z: "get32 (e' (lg_start L)) 0 = 0" by (simp add: ev recover_writes_def get_hdr)
  have L2: "L' = read_log l (e' (lg_start L))" by (simp add: L' L)
  have "outside L = outside l" using same_areaD(4) [OF a] by simp
  then show ?thesis
    using recover_nothing [where e = e', OF g a L2 z] read_log_cleared(1) [OF g a L2 z] ev by simp
qed

subsection \<open>Properties\<close>

text \<open>C1: a transaction is atomic under crashes. \<open>end_op\<close> of the last operation makes the blocks of the
  transaction durable: it returns, and then the disk outside of the log is what the operations
  saw. If the machine stops after any number \<open>k\<close> of its block writes and boots with an empty cache,
  \<open>recover_from_log\<close> returns and leaves outside of the log either the disk from before the
  transaction or the one after it: the former as long as the log blocks are written, the latter
  from the write of the header on.\<close>

theorem end_op_crash_atomic:
  fixes s t :: "'z kst_log_scheme"
  assumes "log_inv p {} s" "lg_outstanding (klog s) = 1" "lg_committing (klog s) = 0"
    "get32 (disk s (lg_start (klog s))) 0 = 0"
    and "bio_inv p' {} t" "dblocks t = {}" "same_area (klog s) (klog t)" "disksize t = disksize s"
    and "disk t = disk_after (take k ws) (disk s)" "ws = drop (length (dwrites s)) (dwrites s')"
    and "end_op s = Ret () s'"
  shows "outside (klog s) (disk s') = outside (klog s) (view s) \<and>
    (\<exists>t'. recover_from_log t = Ret () t' \<and> lh_n (lhdr t') = 0 \<and>
      outside (klog s) (disk t') = outside (klog s) (if k \<le> nat (lh_n (lhdr s)) then disk s else view s))"
proof -
  note I = log_invD [OF assms(1)]
  define w where "w = commit_writes (klog s) (view s)"
  note X = end_op_ok [OF assms(1-3) w_def, unfolded assms(11) wp.simps]
  from X have "view s' = disk s'" "view s' = disk_after w (view s)" and D: "dwrites s' = dwrites s @ w" by blast+
  then have E: "dwrites s' = dwrites s @ w" "disk s' = disk_after w (view s)" by simp_all
  have o: "view s b = disk s b" if "b \<notin> dblocks s" for b using view_disk [OF I(1) that] by simp
  have st: "lg_start (klog t) = lg_start (klog s)" using same_areaD(1) [OF assms(7)] .
  define L where "L = read_log (klog t) (disk t (lg_start (klog s)))"
  have dt: "disk t = disk_after (take k w) (disk s)" using assms(9,10) E(1) by simp
  have C: "log_geom L (disksize s) \<and> outside (klog s) (disk_after (recover_writes L (disk t)) (disk t)) =
      outside (klog s) (if k \<le> nat (lh_n (lhdr s)) then disk s else view s)"
    by (rule crash_recover [where e = "disk t", OF I(2) assms(7) L_def])
      (use dt w_def assms(4) o I(3) in auto)
  have "L = read_log (klog t) (disk t (lg_start (klog t)))" by (simp add: L_def st)
  from recover_ok [OF assms(5,6) this] C assms(8) have "\<exists>t'. recover_from_log t = Ret () t' \<and>
      klog t' = set_n 0 L \<and> disk t' = disk_after (recover_writes L (disk t)) (disk t)" by (auto elim!: wpE)
  moreover have "outside (klog s) (disk s') = outside (klog s) (view s)"
    using E commit_view [OF I(2)] by (auto simp: w_def outside_def)
  ultimately show ?thesis using C by auto
qed

text \<open>C10: recovery itself may be interrupted. If the machine stops after any number \<open>j\<close> of the block
  writes of \<open>recover_from_log\<close> and boots again, the next recovery returns and leaves the disk
  outside of the log as an uninterrupted recovery does.\<close>

theorem recovery_crash_safe:
  fixes t u :: "'z kst_log_scheme"
  assumes "bio_inv p {} t" "dblocks t = {}" "bio_inv p' {} u" "dblocks u = {}"
    and "log_geom (read_log (klog t) (disk t (lg_start (klog t)))) (disksize t)"
    and "klog u = klog t" "disksize u = disksize t"
    and "recover_from_log t = Ret () t'"
    and "disk u = disk_after (take j (drop (length (dwrites t)) (dwrites t'))) (disk t)"
  shows "\<exists>u'. recover_from_log u = Ret () u' \<and> outside (klog t) (disk u') = outside (klog t) (disk t')"
proof -
  define L where "L = read_log (klog t) (disk t (lg_start (klog t)))"
  from recover_ok [OF assms(1,2) L_def] assms(5,8) have T: "dwrites t' = dwrites t @ recover_writes L (disk t)"
    "disk t' = disk_after (recover_writes L (disk t)) (disk t)" by (simp_all add: L_def)
  define L' where "L' = read_log (klog t) (disk u (lg_start (klog t)))"
  have "log_geom L' (disksize t) \<and> outside (klog t) (disk_after (recover_writes L' (disk u)) (disk u)) =
      outside (klog t) (disk_after (recover_writes L (disk t)) (disk t))"
    by (rule recover_prefix [where e = "disk t" and e' = "disk u" and j = j, OF _ L_def])
      (use assms(5,9) T(1) in \<open>simp_all add: L_def L'_def\<close>)
  moreover have "L' = read_log (klog u) (disk u (lg_start (klog u)))" by (simp add: L'_def assms(6))
  ultimately show ?thesis
    using recover_ok [OF assms(3,4)] assms(7) T(2) by (auto elim!: wpE)
qed

text \<open>C30: the reservation of \<open>begin_op\<close> is one block too generous. With the log of \<open>LOGSIZE\<close> blocks that
  \<open>mkfs\<close> makes, one of which is the header, three operations of \<open>MAXOPBLOCKS\<close> blocks each are
  admitted, but the write of the last block they have reserved panics.\<close>

theorem reservation_exceeds_log:
  fixes s t :: "'z kst_log_scheme"
  assumes "alone p (mach s) (procs s)" "lg_committing (klog s) = 0" "lh_n (lhdr s) = 0"
    "lg_outstanding (klog s) = 2" "lg_size (klog s) = int LOGSIZE"
    and "lg_size (klog t) = int LOGSIZE" "lh_n (lhdr t) = 3 * int MAXOPBLOCKS - 1"
  shows "begin_op s = Ret () (upd_log (\<lambda>l. l\<lparr>lg_outstanding := 3\<rparr>) s) \<and>
    log_write q t = Panic ''too big a transaction''"
  using begin_op_ok [OF assms(1,2)] assms(3-7)
  by (simp add: log_write_def Let_def LOGSIZE_def) (simp add: upd_log_def)

subsection \<open>A transaction that changes one block\<close>

definition lhdr0 :: logheader where
  "lhdr0 = \<lparr>lh_n = 0, lh_block = (\<lambda>_. 0)\<rparr>"

definition log3 :: "int \<Rightarrow> (uint \<Rightarrow> bytes) \<Rightarrow> kst_log" where
  "log3 n d = (kst_bio.extend bio3 \<lparr>klog = \<lparr>lg_start = 2, lg_size = 30, lg_outstanding = n,
     lg_committing = 0, lg_dev = 1, lg_lh = lhdr0\<rparr>\<rparr>)\<lparr>disk := d\<rparr>"

lemma log3_simps [simp]:
  "disk (log3 n d) = d" "dwrites (log3 n d) = []" "disksize (log3 n d) = 1000" "lg_lh (klog (log3 n d)) = lhdr0"
  "lg_start (klog (log3 n d)) = 2" "lg_size (klog (log3 n d)) = 30" "lg_outstanding (klog (log3 n d)) = n"
  "lg_committing (klog (log3 n d)) = 0" "lg_dev (klog (log3 n d)) = 1"
  "mach (log3 n d) = mach3" "procs (log3 n d) = table3 NORM_PRIO"
  by (simp_all add: log3_def kst_bio.defs bio3_def pre_bio_def)

lemma log3: "bio_inv 3 {} (log3 n d)" "dblocks (log3 n d) = {}" "view (log3 n d) = d"
proof -
  have z: "b_flags (bufs pre_bio i) = 0 \<and> b_dev (bufs pre_bio i) = 0 \<and> b_refcnt (bufs pre_bio i) = 0" for i
    by (simp add: pre_bio_def buf0_def)
  have b: "bufs (log3 n d) = bufs (binit pre_bio)" "slocks (log3 n d) = slocks (binit pre_bio)"
    by (simp_all add: log3_def kst_bio.defs bio3_def)
  have a: "alone 3 (mach (log3 n d)) (procs (log3 n d))" by (simp add: alone3)
  show "bio_inv 3 {} (log3 n d)" "dblocks (log3 n d) = {}" "view (log3 n d) = d"
    using binit_ok [OF z a b] by simp_all
qed

lemma log3_tx: "log_inv 3 {} (log3 n d)" "tx_inv 3 {} (log3 1 d)"
  using log3 by (simp_all add: tx_inv_def log_inv_def log_geom_def lhdr0_def LOGSIZE_def MAXOPBLOCKS_def)

lemma log3_write:
  obtains s where "tx_inv 3 {} s" "tx_frame (log3 1 (\<lambda>_ _. 0)) s" "lgn s = 1" "view s = (\<lambda>_ _. 0)(500 := (\<lambda>_. 9))"
proof -
  let ?s = "log3 1 (\<lambda>_ _. 0)" and ?d = "\<lambda>_. 9"
  have r: "tx_room 1 ?s" by (simp add: tx_room_def lhdr0_def)
  from tx_bread [OF log3_tx(2), of 500 "\<lambda>_ _. 0"] obtain q s1 where 1: "tx_inv 3 {q} s1"
    "b_blockno (bufs s1 q) = 500" "view s1 = (\<lambda>_ _. 0)" "lgn s1 = 0" "tx_frame ?s s1"
    by (auto simp: tx_room_def lhdr0_def log3(3) elim!: wpE)
  note F = tx_frameD [OF 1(5)]
  have "wp (log_write q (upd_buf q (\<lambda>k. k\<lparr>b_data := ?d\<rparr>) s1)) (\<lambda>_ s'. tx_inv 3 {q} s' \<and>
    view s' = (view s1)(500 := ?d) \<and> lgn s1 \<le> lgn s' \<and> lgn s' \<le> lgn s1 + 1 \<and> tx_frame s1 s' \<and>
    b_blockno (bufs s' q) = 500 \<and> b_data (bufs s' q) = ?d \<and> (\<forall>j. j \<noteq> q \<longrightarrow> bufs s' j = bufs s1 j))"
    by (rule tx_write [OF 1(1)]) (use 1 F in \<open>simp_all add: in_log_def tx_room_def\<close>)
  then obtain s2 where 2: "tx_inv 3 {q} s2" "view s2 = (\<lambda>_ _. 0)(500 := ?d)" "0 \<le> lgn s2" "lgn s2 \<le> 1"
    "tx_frame s1 s2" "b_blockno (bufs s2 q) = 500"
    using 1 by (auto elim!: wpE)
  have q: "q \<in> {q}" by simp
  from tx_brelse [OF 2(1) q] obtain s3 where 3: "tx_inv 3 {} s3" "view s3 = view s2" "lgn s3 = lgn s2" "tx_frame s2 s3"
    by (auto elim!: wpE)
  note I = tx_invD [OF 3(1)]
  have "500 \<in> dblocks s3"
  proof (rule ccontr)
    assume "500 \<notin> dblocks s3"
    from view_disk [OF I(2) this] have "view s3 500 = disk s3 500" by simp
    moreover have "disk s3 = (\<lambda>_ _. 0)" using tx_frameD(4) [OF 3(4)] tx_frameD(4) [OF 2(5)] F(4) by simp
    ultimately show False using 2(2) 3(2) by (simp add: fun_eq_iff)
  qed
  then have "lgn s3 \<noteq> 0" using log_invD(3) [OF I(1)] by auto
  then show ?thesis
    using that [OF 3(1) tx_frame_trans [OF 1(5) tx_frame_trans [OF 2(5) 3(4)]]] 2 3 by simp
qed

text \<open>The crash comes after two of the four writes of the commit: the new contents are recovered.\<close>

theorem end_op_crash_atomic_witness:
  "\<exists>(s :: kst_log) s' (t :: kst_log) t'. end_op s = Ret () s' \<and> disk s 500 = (\<lambda>_. 0) \<and>
    disk t = disk_after (take 2 (drop (length (dwrites s)) (dwrites s'))) (disk s) \<and>
    recover_from_log t = Ret () t' \<and> disk t' 500 = (\<lambda>_. 9)"
proof -
  obtain s where s: "tx_inv 3 {} s" "tx_frame (log3 1 (\<lambda>_ _. 0)) s" "lgn s = 1"
    "view s = (\<lambda>_ _. 0)(500 := (\<lambda>_. 9))" by (rule log3_write)
  note F = tx_frameD [OF s(2)] and li = tx_invD(1) [OF s(1)]
  have o: "lg_outstanding (klog s) = 1" "lg_committing (klog s) = 0" using F(10,13) by simp_all
  from end_op_ok [OF li o refl] obtain s' where s': "end_op s = Ret () s'" by (auto elim: wpE)
  let ?t = "log3 0 (disk_after (take 2 (drop (length (dwrites s)) (dwrites s'))) (disk s))"
  have a: "same_area (klog s) (klog ?t)"
    using F(7,9) log_invD(2) [OF li] by (simp add: same_area_def log_geom_def)
  have h: "get32 (disk s (lg_start (klog s))) 0 = 0" using F(4) by (simp add: get32_def le32_def)
  have "disksize ?t = disksize s" "disk ?t = disk_after (take 2 (drop (length (dwrites s)) (dwrites s'))) (disk s)"
    using F(6) by simp_all
  from end_op_crash_atomic [OF li o h log3(1,2) a this refl s'] s(3) obtain t' where
    "recover_from_log ?t = Ret () t'" "outside (klog s) (disk t') = outside (klog s) (view s)" by auto
  moreover from this(2) have "disk t' 500 = (\<lambda>_. 9)"
    using F(7,9) s(4) by (auto simp: outside_def in_log_def fun_eq_iff split: if_splits dest!: spec [of _ 500])
  moreover have "disk s 500 = (\<lambda>_. 0)"
    "disk ?t = disk_after (take 2 (drop (length (dwrites s)) (dwrites s'))) (disk s)" using F(4) by simp_all
  ultimately show ?thesis using s' by blast
qed

text \<open>A disk with a committed transaction of one block.\<close>

definition lhdr1 :: logheader where
  "lhdr1 = \<lparr>lh_n = 1, lh_block = (\<lambda>_. 500)\<rparr>"

definition disk1 :: "uint \<Rightarrow> bytes" where
  "disk1 = (\<lambda>_ _. 0)(2 := hdr_block lhdr1 (\<lambda>_. 0), 3 := (\<lambda>_. 9))"

theorem recovery_crash_safe_witness:
  "\<exists>t' u'. recover_from_log (log3 0 disk1) = Ret () t' \<and>
    recover_from_log (log3 0 (disk_after (take 1 (dwrites t')) disk1)) = Ret () u' \<and>
    outside (klog (log3 0 disk1)) (disk u') = outside (klog (log3 0 disk1)) (disk t')"
proof -
  let ?t = "log3 0 disk1" let ?l = "(klog ?t)\<lparr>lg_lh := lhdr1\<rparr>"
  have g1: "log_geom ?l 1000" by (simp add: log_geom_def lhdr1_def LOGSIZE_def MAXOPBLOCKS_def in_log_def inj_on_def)
  have a: "same_area ?l (klog ?t)" by (simp add: same_area_def)
  have g: "log_geom (read_log (klog ?t) (disk ?t (lg_start (klog ?t)))) (disksize ?t)"
    using read_log_hdr(1) [OF g1 a refl, of "\<lambda>_. 0"] by (simp add: disk1_def)
  from recover_ok [OF log3(1,2) refl g] obtain t' where t': "recover_from_log ?t = Ret () t'" by (auto elim: wpE)
  let ?u = "log3 0 (disk_after (take 1 (dwrites t')) disk1)"
  have "klog ?u = klog ?t" by (simp add: log3_def kst_bio.defs)
  from recovery_crash_safe [OF log3(1,2) log3(1,2) g this _ t', of 1] t' show ?thesis by auto
qed

theorem reservation_exceeds_log_witness:
  "\<exists>t :: kst_log. begin_op (log3 2 (\<lambda>_ _. 0)) = Ret () (upd_log (\<lambda>l. l\<lparr>lg_outstanding := 3\<rparr>) (log3 2 (\<lambda>_ _. 0))) \<and>
    log_write 0 t = Panic ''too big a transaction''"
  using reservation_exceeds_log [where s = "log3 2 (\<lambda>_ _. 0)" and p = 3 and q = 0
      and t = "upd_log (set_n 29) (log3 3 (\<lambda>_ _. 0))"]
  by (auto simp: alone3 LOGSIZE_def MAXOPBLOCKS_def lhdr0_def)

end
