(* ===== verification/Xv6_Queue.thy ===== *)
theory Xv6_Queue
  imports Xv6_Prelude
begin

section \<open>Queues\<close>

text \<open>
  What the pipe, the disk queue and the console input have in common. \<open>rseg\<close> is a stretch of a circular array whose
  indices are 32-bit counters that wrap around; the locale \<open>bounded_queue\<close> is the contract of a first-in first-out
  queue of bounded size, with what every client may rely on.
\<close>

subsection \<open>Stretches of a circular array\<close>

definition rseg :: "nat \<Rightarrow> (nat \<Rightarrow> 'a) \<Rightarrow> uint \<Rightarrow> nat \<Rightarrow> 'a list" where
  "rseg N b i n = map (\<lambda>k. b (unat (i + of_nat k) mod N)) [0..<n]"

lemma length_rseg [simp]: "length (rseg N b i n) = n"
  by (simp add: rseg_def)

lemma rseg_0 [simp]: "rseg N b i 0 = []"
  by (simp add: rseg_def)

lemma rseg_Suc: "rseg N b i (Suc n) = rseg N b i n @ [b (unat (i + of_nat n) mod N)]"
  by (simp add: rseg_def)

lemma rseg_add: "rseg N b i (m + n) = rseg N b i m @ rseg N b (i + of_nat m) n"
  by (induction n) (simp_all add: rseg_Suc add.assoc)

lemma rseg_Cons: "rseg N b i (Suc n) = b (unat i mod N) # rseg N b (i + 1) n"
  using rseg_add [of N b i 1 n] by (simp add: rseg_Suc)

lemma unat_add_ring:
  assumes "N dvd 2 ^ 32" shows "unat (x + y :: uint) mod N = (unat x + unat y) mod N"
  using assms by (simp add: unat_word_ariths mod_mod_cancel)

lemma rseg_index_inj:
  assumes N: "N dvd 2 ^ 32" "m < n" "n < N"
  shows "unat (i + of_nat m) mod N \<noteq> unat (i + of_nat n :: uint) mod N"
proof
  assume eq: "unat (i + of_nat m) mod N = unat (i + of_nat n :: uint) mod N"
  have "N \<le> 2 ^ 32" using N(1) by (rule dvd_imp_le) simp
  then have "unat (of_nat k :: uint) = k" if "k < N" for k using that by (simp add: unat_of_nat)
  then have "(unat i + m) mod N = (unat i + n) mod N" using eq N by (simp add: unat_add_ring)
  then have "N dvd (unat i + n) - (unat i + m)"
    using N mod_eq_dvd_iff_nat [of "unat i + m" "unat i + n" N] by simp
  then show False using N by (auto dest: dvd_imp_le)
qed

lemma rseg_upd:
  assumes "N dvd 2 ^ 32" "n < N"
  shows "rseg N (b(unat (i + of_nat n) mod N := c)) i n = rseg N b i n"
proof -
  have "unat (i + of_nat k) mod N \<noteq> unat (i + of_nat n) mod N" if "k < n" for k
    by (rule rseg_index_inj [OF assms(1) that assms(2)])
  then show ?thesis by (simp add: rseg_def)
qed

lemma rseg_upd_end:
  assumes "N dvd 2 ^ 32" "n < N"
  shows "rseg N (b(unat (i + of_nat n) mod N := c)) i (Suc n) = rseg N b i n @ [c]"
  by (simp add: rseg_Suc rseg_upd [OF assms])

subsection \<open>The contract of a bounded queue\<close>

datatype 'a qop = Enq 'a | Deq

locale bounded_queue =
  fixes ok :: "'s \<Rightarrow> bool" and items :: "'s \<Rightarrow> 'a list" and cap :: nat
    and enq :: "'a \<Rightarrow> 's \<Rightarrow> 's" and deq :: "'s \<Rightarrow> 'a \<times> 's"
  assumes bounded: "ok s \<Longrightarrow> length (items s) \<le> cap"
    and enq: "ok s \<Longrightarrow> length (items s) < cap \<Longrightarrow> ok (enq x s) \<and> items (enq x s) = items s @ [x]"
    and deq: "ok s \<Longrightarrow> items s = x # xs \<Longrightarrow>
      fst (deq s) = x \<and> ok (snd (deq s)) \<and> items (snd (deq s)) = xs"
begin

primrec deqs :: "nat \<Rightarrow> 's \<Rightarrow> 'a list \<times> 's" where
  "deqs 0 s = ([], s)"
| "deqs (Suc n) s = (if items s = [] then ([], s) else let (x, s) = deq s; (xs, s) = deqs n s in (x # xs, s))"

lemma enqs: "ok s \<Longrightarrow> length (items s) + length xs \<le> cap \<Longrightarrow> ok (fold enq xs s) \<and> items (fold enq xs s) = items s @ xs"
proof (induction xs arbitrary: s)
  case (Cons x xs)
  then show ?case using enq [of s x] by simp
qed simp

lemma deqs: "ok s \<Longrightarrow> fst (deqs n s) = take n (items s) \<and> ok (snd (deqs n s)) \<and> items (snd (deqs n s)) = drop n (items s)"
proof (induction n arbitrary: s)
  case (Suc n)
  show ?case
  proof (cases "items s")
    case (Cons x xs)
    then show ?thesis using deq [OF Suc.prems Cons] Suc.IH [of "snd (deq s)"] by (simp add: split_beta)
  qed (use Suc.prems in simp)
qed simp

text \<open>A run of operations that never enqueues into a full queue: the elements dequeued, with the time
  order kept, followed by those still in the queue are the first ones followed by those enqueued.\<close>

fun run :: "'a qop list \<Rightarrow> 's \<Rightarrow> ('a list \<times> 's) option" where
  "run [] s = Some ([], s)"
| "run (Enq x # os) s = (if length (items s) < cap then run os (enq x s) else None)"
| "run (Deq # os) s =
     (if items s = [] then None
      else case run os (snd (deq s)) of None \<Rightarrow> None | Some (ys, t) \<Rightarrow> Some (fst (deq s) # ys, t))"

primrec enqueued :: "'a qop list \<Rightarrow> 'a list" where
  "enqueued [] = []"
| "enqueued (p # os) = (case p of Enq x \<Rightarrow> x # enqueued os | Deq \<Rightarrow> enqueued os)"

lemma fifo: "ok s \<Longrightarrow> run os s = Some (ys, t) \<Longrightarrow> ys @ items t = items s @ enqueued os \<and> ok t"
proof (induction os s arbitrary: ys t rule: run.induct)
  case (2 x os s)
  then show ?case using enq [of s x] by (auto split: if_splits)
next
  case (3 os s)
  then obtain x xs where x: "items s = x # xs" by (cases "items s") auto
  then show ?case using 3 deq [OF 3(2) x] by (auto split: option.splits)
qed simp

end

end
