(* ===== verification/Xv6_Console.thy ===== *)
theory Xv6_Console
  imports Xv6_Log Xv6_Queue
begin

section \<open>Console and keyboard (console.c, uart.c, kbd.c)\<close>

text \<open>
  Output: \<open>consputc\<close> sends a character to the serial port, whose output is the list \<open>uart_out\<close>, and
  to the CGA screen, whose memory is the array \<open>crt\<close> and whose cursor register is \<open>crtpos\<close>. Input:
  \<open>consoleintr\<close> edits the circular buffer \<open>input\<close>. The characters \<open>getc\<close> delivers until it returns a
  negative number are an argument. \<open>consoleread\<close> and \<open>consolewrite\<close> lock the inode of the device
  and are with the inodes. A processor that finds \<open>panicked\<close> set stops, like one that panics.
\<close>

record kst_cons = kst_log +
  cons_locking :: bool
  panicked :: bool
  crt :: "nat \<Rightarrow> ushort"
  crtpos :: nat
  uart :: bool
  uart_out :: "uchar list"
  kbd_shift :: uint
  in_buf :: "nat \<Rightarrow> uchar"
  in_r :: uint
  in_w :: uint
  in_e :: uint
  devsw :: "nat \<Rightarrow> bool"

definition chr :: "char \<Rightarrow> uchar" where
  "chr c = of_char c"

definition chrs :: "string \<Rightarrow> uchar list" where
  "chrs = map chr"

subsection \<open>Output\<close>

definition BACKSPACE :: uint where "BACKSPACE = 0x100"

definition uartputc :: "uint \<Rightarrow> 'z kst_cons_scheme \<Rightarrow> 'z kst_cons_scheme" where
  "uartputc c s = (if \<not> uart s then s else s\<lparr>uart_out := uart_out s @ [ucast c]\<rparr>)"

text \<open>Status 0xFF says that there is no serial port.\<close>

definition uartinit :: "uchar \<Rightarrow> 'z kst_cons_scheme \<Rightarrow> 'z kst_cons_scheme" where
  "uartinit status s =
     (if status = 0xFF then s
      else fold (\<lambda>c s. uartputc (ucast c) s) (chrs ''xv6...'' @ [10]) (s\<lparr>uart := True\<rparr>))"

definition cgaputc :: "uint \<Rightarrow> 'z kst_cons_scheme \<Rightarrow> (unit, 'z kst_cons_scheme) res" where
  "cgaputc c s =
     (let pos = crtpos s;
          (pos, mem') = (if c = 10 then (pos + (80 - pos mod 80), crt s)
                    else if c = BACKSPACE then (if pos > 0 then pos - 1 else pos, crt s)
                    else (pos + 1, (crt s)(pos := ucast (c AND 0xFF) OR 0x0700)))
      in if pos > 25 * 80 then Panic ''pos under/overflow''
         else
           let (pos, mem') = (if pos div 80 \<ge> 24
                 then let m = (\<lambda>i. if i < 23 * 80 then mem' (i + 80) else mem' i);
                          pos = pos - 80
                      in (pos, \<lambda>i. if pos \<le> i \<and> i < 24 * 80 then 0 else m i)
                 else (pos, mem'))
           in Ret () (s\<lparr>crtpos := pos mod 2 ^ 16, crt := mem'(pos := 0x0720)\<rparr>))"

definition consputc :: "uint \<Rightarrow> 'z kst_cons_scheme \<Rightarrow> (unit, 'z kst_cons_scheme) res" where
  "consputc c s =
     (if panicked s then Panic ''''
      else cgaputc c (if c = BACKSPACE then uartputc 8 (uartputc 32 (uartputc 8 s)) else uartputc c s))"

primrec consputs :: "uchar list \<Rightarrow> 'z kst_cons_scheme \<Rightarrow> (unit, 'z kst_cons_scheme) res" where
  "consputs [] s = Ret () s"
| "consputs (c # cs) s = bindR (consputc (ucast c) s) (\<lambda>_ s. consputs cs s)"

definition digit_chars :: "uchar list" where
  "digit_chars = chrs ''0123456789abcdef''"

text \<open>The digits in the order the loop stores them, least significant first.\<close>

function rdigits :: "uint \<Rightarrow> uint \<Rightarrow> uchar list" where
  "rdigits x base = digit_chars ! unat (x mod base) #
     (if base < 2 \<or> x div base = 0 then [] else rdigits (x div base) base)"
  by pat_completeness auto
termination
proof (relation "measure (\<lambda>(x, _). unat x)", simp)
  fix x base :: uint assume "\<not> (base < 2 \<or> x div base = 0)"
  then have "2 \<le> unat base" "unat x div unat base \<noteq> 0"
    by (simp_all add: not_less word_le_nat_alt word_unat_eq_iff unat_div)
  then have "unat x div unat base < unat x" by (metis div_less_dividend div_0 less_le_trans gr0I one_less_numeral_iff semiring_norm(76))
  then show "((x div base, base), x, base) \<in> measure (\<lambda>(x, _). unat x)" by (simp add: unat_div)
qed

declare rdigits.simps [simp del]

definition format_int :: "uint \<Rightarrow> uint \<Rightarrow> bool \<Rightarrow> uchar list" where
  "format_int xx base sign =
     (let neg = sign \<and> sint xx < 0; x = (if neg then - xx else xx)
      in rev (rdigits x base @ (if neg then [chr CHR ''-''] else [])))"

definition printint :: "uint \<Rightarrow> uint \<Rightarrow> bool \<Rightarrow> 'z kst_cons_scheme \<Rightarrow> (unit, 'z kst_cons_scheme) res" where
  "printint xx base sign s = consputs (format_int xx base sign) s"

text \<open>Arguments of \<open>cprintf\<close>: a word, or a pointer to a string, which may be null.\<close>

datatype parg = PWord uint | PStr "uchar list option"

fun cprintf_loop :: "uchar list \<Rightarrow> parg list \<Rightarrow> 'z kst_cons_scheme \<Rightarrow> (unit, 'z kst_cons_scheme) res" where
  "cprintf_loop [] args s = Ret () s"
| "cprintf_loop (c # cs) args s =
     (if c = 0 then Ret () s
      else if c \<noteq> chr CHR ''%'' then bindR (consputc (ucast c) s) (\<lambda>_ s. cprintf_loop cs args s)
      else case cs of [] \<Rightarrow> Ret () s
      | d # ds \<Rightarrow>
          if d = 0 then Ret () s
          else if d = chr CHR ''d''
          then (case args of PWord w # as \<Rightarrow> bindR (printint w 10 True s) (\<lambda>_ s. cprintf_loop ds as s) | _ \<Rightarrow> Undef)
          else if d = chr CHR ''x'' \<or> d = chr CHR ''p''
          then (case args of PWord w # as \<Rightarrow> bindR (printint w 16 False s) (\<lambda>_ s. cprintf_loop ds as s) | _ \<Rightarrow> Undef)
          else if d = chr CHR ''s''
          then (case args of
                  PStr p # as \<Rightarrow> bindR (consputs (case p of None \<Rightarrow> chrs ''(null)'' | Some t \<Rightarrow> takeWhile (\<lambda>c. c \<noteq> 0) t) s)
                    (\<lambda>_ s. cprintf_loop ds as s)
                | _ \<Rightarrow> Undef)
          else if d = chr CHR ''%'' then bindR (consputc 0x25 s) (\<lambda>_ s. cprintf_loop ds args s)
          else bindR (consputc 0x25 s) (\<lambda>_ s. bindR (consputc (ucast d) s) (\<lambda>_ s. cprintf_loop ds args s)))"

text \<open>A format that is a null pointer is \<open>None\<close>.\<close>

definition cprintf :: "uchar list option \<Rightarrow> parg list \<Rightarrow> 'z kst_cons_scheme \<Rightarrow> (unit, 'z kst_cons_scheme) res" where
  "cprintf fmt args s =
     (let locking = cons_locking s in
      bindR (if locking then acquire LkCons s else Ret () s) (\<lambda>_ s.
      case fmt of None \<Rightarrow> Panic ''null fmt''
      | Some f \<Rightarrow>
          bindR (cprintf_loop f args s) (\<lambda>_ s.
          if locking then release LkCons s else Ret () s)))"

subsection \<open>Process listing\<close>

text \<open>The return addresses found along the chain of frame pointers; the code fills the array of
  ten with zeros behind them.\<close>

primrec callerpcs_loop :: "nat \<Rightarrow> addr \<Rightarrow> memory \<Rightarrow> uint list" where
  "callerpcs_loop 0 ebp m = []"
| "callerpcs_loop (Suc n) ebp m =
     (if ebp = 0 \<or> ebp < KERNBASE \<or> ebp = 0xFFFFFFFF then []
      else load32 m (ebp + 4) # callerpcs_loop n (load32 m ebp) m)"

definition getcallerpcs :: "addr \<Rightarrow> memory \<Rightarrow> uint list" where
  "getcallerpcs v m = (let l = callerpcs_loop 10 (v - 8) m in l @ replicate (10 - length l) 0)"

definition state_name :: "procstate \<Rightarrow> string" where
  "state_name st = (case st of UNUSED \<Rightarrow> ''unused'' | EMBRYO \<Rightarrow> ''embryo'' | SLEEPING \<Rightarrow> ''sleep ''
     | RUNNABLE \<Rightarrow> ''runble'' | RUNNING \<Rightarrow> ''run   '' | ZOMBIE \<Rightarrow> ''zombie'')"

definition name_chars :: "bytes \<Rightarrow> uchar list" where
  "name_chars b = takeWhile (\<lambda>c. c \<noteq> 0) (map b [0..<16])"

fun procdump_pcs :: "uint list \<Rightarrow> 'z kst_cons_scheme \<Rightarrow> (unit, 'z kst_cons_scheme) res" where
  "procdump_pcs [] s = Ret () s"
| "procdump_pcs (pc # rest) s =
     (if pc = 0 then Ret () s
      else bindR (cprintf (Some (chrs '' %p'')) [PWord pc] s) (\<lambda>_ s. procdump_pcs rest s))"

fun procdump_loop :: "nat list \<Rightarrow> 'z kst_cons_scheme \<Rightarrow> (unit, 'z kst_cons_scheme) res" where
  "procdump_loop [] s = Ret () s"
| "procdump_loop (p # ps) s =
     (let q = procs s p in
      if p_state q = UNUSED then procdump_loop ps s
      else
        bindR (cprintf (Some (chrs ''%d %s %s'')) [PWord (of_int (p_pid q)), PStr (Some (chrs (state_name (p_state q)))),
                 PStr (Some (name_chars (p_name q)))] s) (\<lambda>_ s.
        bindR (if p_state q = SLEEPING
               then procdump_pcs (getcallerpcs (ctx_ebp (p_context q) + 8) (mem s)) s else Ret () s) (\<lambda>_ s.
        bindR (cprintf (Some [10]) [] s) (\<lambda>_ s.
        procdump_loop ps s))))"

definition procdump :: "'z kst_cons_scheme \<Rightarrow> (unit, 'z kst_cons_scheme) res" where
  "procdump s = procdump_loop [0..<NPROC] s"

subsection \<open>Panic\<close>

text \<open>
  What \<open>panic\<close> prints before it stops in its endless loop, as the state in which it loops. The
  result \<open>Panic\<close> of the rest of the model stands for a call of this function; the call stack it
  prints comes from the frame of the caller, at address \<open>v\<close>.
\<close>

fun panic_pcs :: "uint list \<Rightarrow> 'z kst_cons_scheme \<Rightarrow> (unit, 'z kst_cons_scheme) res" where
  "panic_pcs [] s = Ret () s"
| "panic_pcs (pc # rest) s = bindR (cprintf (Some (chrs '' %p'')) [PWord pc] s) (\<lambda>_ s. panic_pcs rest s)"

definition panic :: "uchar list \<Rightarrow> addr \<Rightarrow> 'z kst_cons_scheme \<Rightarrow> (unit, 'z kst_cons_scheme) res" where
  "panic msg v s =
     bindR (cprintf (Some (chrs ''lapicid %d: panic: '')) [PWord (of_nat (lapicid (mach s)))] ((cli s)\<lparr>cons_locking := False\<rparr>)) (\<lambda>_ s.
     bindR (cprintf (Some msg) [] s) (\<lambda>_ s.
     bindR (cprintf (Some [10]) [] s) (\<lambda>_ s.
     bindR (panic_pcs (getcallerpcs v (mem s)) s) (\<lambda>_ s.
     Ret () (s\<lparr>panicked := True\<rparr>)))))"

subsection \<open>Input\<close>

definition INPUT_BUF :: nat where "INPUT_BUF = 128"

definition ctrl :: "char \<Rightarrow> uint" where
  "ctrl c = of_char c - 0x40"

text \<open>The loop for control-U: it runs at most \<open>e - w\<close> times.\<close>

primrec kill_line :: "nat \<Rightarrow> 'z kst_cons_scheme \<Rightarrow> (unit, 'z kst_cons_scheme) res" where
  "kill_line 0 s = Ret () s"
| "kill_line (Suc n) s =
     (if in_e s \<noteq> in_w s \<and> in_buf s (unat (in_e s - 1) mod INPUT_BUF) \<noteq> 10
      then bindR (consputc BACKSPACE (s\<lparr>in_e := in_e s - 1\<rparr>)) (\<lambda>_ s. kill_line n s)
      else Ret () s)"

definition consoleintr_char :: "uint \<Rightarrow> 'z kst_cons_scheme \<Rightarrow> (unit, 'z kst_cons_scheme) res" where
  "consoleintr_char c s =
     (if c = ctrl CHR ''U'' then kill_line (unat (in_e s - in_w s)) s
      else if c = ctrl CHR ''H'' \<or> c = 0x7F
      then (if in_e s \<noteq> in_w s then consputc BACKSPACE (s\<lparr>in_e := in_e s - 1\<rparr>) else Ret () s)
      else if c \<noteq> 0 \<and> in_e s - in_r s < of_nat INPUT_BUF
      then
        let c = (if c = 13 then 10 else c);
            s = s\<lparr>in_buf := (in_buf s)(unat (in_e s) mod INPUT_BUF := ucast c), in_e := in_e s + 1\<rparr>
        in
        bindR (consputc c s) (\<lambda>_ s.
        if c = 10 \<or> c = ctrl CHR ''D'' \<or> in_e s = in_r s + of_nat INPUT_BUF
        then wakeup ChInput (s\<lparr>in_w := in_e s\<rparr>)
        else Ret () s)
      else Ret () s)"

text \<open>The device is read by \<open>getc\<close>, once for each element of a list of port readings.\<close>

fun consoleintr_loop :: "('p \<Rightarrow> 'z kst_cons_scheme \<Rightarrow> int \<times> 'z kst_cons_scheme) \<Rightarrow> 'p list \<Rightarrow> bool \<Rightarrow>
    'z kst_cons_scheme \<Rightarrow> (bool, 'z kst_cons_scheme) res" where
  "consoleintr_loop getc [] dump s = Ret dump s"
| "consoleintr_loop getc (p # ps) dump s =
     (let (c, s) = getc p s in
      if c < 0 then Ret dump s
      else if of_int c = ctrl CHR ''P'' then consoleintr_loop getc ps True s
      else bindR (consoleintr_char (of_int c) s) (\<lambda>_ s. consoleintr_loop getc ps dump s))"

definition consoleintr :: "('p \<Rightarrow> 'z kst_cons_scheme \<Rightarrow> int \<times> 'z kst_cons_scheme) \<Rightarrow> 'p list \<Rightarrow>
    'z kst_cons_scheme \<Rightarrow> (unit, 'z kst_cons_scheme) res" where
  "consoleintr getc ps s =
     bindR (acquire LkCons s) (\<lambda>_ s.
     bindR (consoleintr_loop getc ps False s) (\<lambda>doprocdump s.
     bindR (release LkCons s) (\<lambda>_ s.
     if doprocdump then procdump s else Ret () s)))"

subsection \<open>Keyboard and serial line\<close>

text \<open>An array initialised by a list of values and by values at given indices; the rest is zero.\<close>

definition key_table :: "uchar list \<Rightarrow> (nat \<times> uchar) list \<Rightarrow> nat \<Rightarrow> uchar" where
  "key_table vs ds i = (case map_of ds i of Some v \<Rightarrow> v | None \<Rightarrow> if i < length vs then vs ! i else 0)"

definition shiftcode :: "nat \<Rightarrow> uchar" where
  "shiftcode = key_table [] [(0x1D, 2), (0x2A, 1), (0x36, 1), (0x38, 4), (0x9D, 2), (0xB8, 4)]"

definition togglecode :: "nat \<Rightarrow> uchar" where
  "togglecode = key_table [] [(0x3A, 8), (0x45, 16), (0x46, 32)]"

definition normalmap :: "nat \<Rightarrow> uchar" where
  "normalmap = key_table
     [0, 27, 49, 50, 51, 52, 53, 54, 55, 56, 57, 48, 45, 61, 8, 9,
      113, 119, 101, 114, 116, 121, 117, 105, 111, 112, 91, 93, 10, 0, 97, 115,
      100, 102, 103, 104, 106, 107, 108, 59, 39, 96, 0, 92, 122, 120, 99, 118,
      98, 110, 109, 44, 46, 47, 0, 42, 0, 32, 0, 0, 0, 0, 0, 0,
      0, 0, 0, 0, 0, 0, 0, 55, 56, 57, 45, 52, 53, 54, 43, 49,
      50, 51, 48, 46, 0, 0, 0, 0]
     [(0x9C, 10), (0xB5, 47), (0xC8, 226), (0xD0, 227), (0xC9, 230), 
      (0xD1, 231), (0xCB, 228), (0xCD, 229), (0x97, 224), (0xCF, 225), 
      (0xD2, 232), (0xD3, 233)]"

definition shiftmap :: "nat \<Rightarrow> uchar" where
  "shiftmap = key_table
     [0, 27, 33, 64, 35, 36, 37, 94, 38, 42, 40, 41, 95, 43, 8, 9,
      81, 87, 69, 82, 84, 89, 85, 73, 79, 80, 123, 125, 10, 0, 65, 83,
      68, 70, 71, 72, 74, 75, 76, 58, 34, 126, 0, 124, 90, 88, 67, 86,
      66, 78, 77, 60, 62, 63, 0, 42, 0, 32, 0, 0, 0, 0, 0, 0,
      0, 0, 0, 0, 0, 0, 0, 55, 56, 57, 45, 52, 53, 54, 43, 49,
      50, 51, 48, 46, 0, 0, 0, 0]
     [(0x9C, 10), (0xB5, 47), (0xC8, 226), (0xD0, 227), (0xC9, 230), 
      (0xD1, 231), (0xCB, 228), (0xCD, 229), (0x97, 224), (0xCF, 225), 
      (0xD2, 232), (0xD3, 233)]"

definition ctlmap :: "nat \<Rightarrow> uchar" where
  "ctlmap = key_table
     [0, 0, 0, 0, 0, 0, 0, 0, 0, 0, 0, 0, 0, 0, 0, 0,
      17, 23, 5, 18, 20, 25, 21, 9, 15, 16, 0, 0, 13, 0, 1, 19,
      4, 6, 7, 8, 10, 11, 12, 0, 0, 0, 0, 28, 26, 24, 3, 22,
      2, 14, 13, 0, 0, 239, 0, 0]
     [(0x9C, 13), (0xB5, 239), (0xC8, 226), (0xD0, 227), (0xC9, 230), 
      (0xD1, 231), (0xCB, 228), (0xCD, 229), (0x97, 224), (0xCF, 225), 
      (0xD2, 232), (0xD3, 233)]"

definition E0ESC :: uint where "E0ESC = 0x40"

definition CAPSLOCK :: uint where "CAPSLOCK = 8"

definition charcode :: "nat \<Rightarrow> nat \<Rightarrow> uchar" where
  "charcode i = [normalmap, shiftmap, ctlmap, ctlmap] ! i"

text \<open>\<open>kbdgetc\<close> with the values of the status and the data port.\<close>

definition kbdgetc :: "uchar \<times> uchar \<Rightarrow> 'z kst_cons_scheme \<Rightarrow> int \<times> 'z kst_cons_scheme" where
  "kbdgetc port s =
     (let (st, d) = port; data = (ucast d :: uint); shift = kbd_shift s in
      if st AND 1 = 0 then (- 1, s)
      else if data = 0xE0 then (0, s\<lparr>kbd_shift := shift OR E0ESC\<rparr>)
      else if data AND 0x80 \<noteq> 0
      then let data = (if shift AND E0ESC \<noteq> 0 then data else data AND 0x7F)
           in (0, s\<lparr>kbd_shift := shift AND NOT (ucast (shiftcode (unat data)) OR E0ESC)\<rparr>)
      else
        let (data, shift) = (if shift AND E0ESC \<noteq> 0 then (data OR 0x80, shift AND NOT E0ESC) else (data, shift));
            shift = shift OR ucast (shiftcode (unat data));
            shift = shift XOR ucast (togglecode (unat data));
            c = uint (charcode (unat (shift AND 3)) (unat data));
            c = (if shift AND CAPSLOCK \<noteq> 0
                 then if 97 \<le> c \<and> c \<le> 122 then c - 32
                      else if 65 \<le> c \<and> c \<le> 90 then c + 32 else c
                 else c)
        in (c, s\<lparr>kbd_shift := shift\<rparr>))"

definition kbdintr :: "(uchar \<times> uchar) list \<Rightarrow> 'z kst_cons_scheme \<Rightarrow> (unit, 'z kst_cons_scheme) res" where
  "kbdintr ports s = consoleintr kbdgetc ports s"

definition uartgetc :: "uchar \<times> uchar \<Rightarrow> 'z kst_cons_scheme \<Rightarrow> int \<times> 'z kst_cons_scheme" where
  "uartgetc port s =
     (if \<not> uart s then (- 1, s)
      else if fst port AND 1 = 0 then (- 1, s)
      else (uint (snd port), s))"

definition uartintr :: "(uchar \<times> uchar) list \<Rightarrow> 'z kst_cons_scheme \<Rightarrow> (unit, 'z kst_cons_scheme) res" where
  "uartintr ports s = consoleintr uartgetc ports s"

definition consoleinit :: "'z kst_cons_scheme \<Rightarrow> 'z kst_cons_scheme" where
  "consoleinit s =
     (let s = initlock LkCons ''console'' s
      in s\<lparr>devsw := (devsw s)(1 := True), cons_locking := True\<rparr>)"

subsection \<open>The screen\<close>

text \<open>\<open>screen s\<close>: the cursor is in the first 24 rows, and no processor has panicked.\<close>

definition screen :: "'z kst_cons_scheme \<Rightarrow> bool" where
  "screen s \<longleftrightarrow> crtpos s < 24 * 80 \<and> \<not> panicked s"

text \<open>What output changes: the serial line and the screen.\<close>

definition shown :: "'z kst_cons_scheme \<Rightarrow> 'z kst_cons_scheme \<Rightarrow> bool" where
  "shown s s' \<longleftrightarrow> (\<exists>u p m. p < 24 * 80 \<and> s' = s\<lparr>uart_out := u, crtpos := p, crt := m\<rparr>)"

lemma shownE:
  assumes "shown s s'"
  obtains u p m where "p < 24 * 80" "s' = s\<lparr>uart_out := u, crtpos := p, crt := m\<rparr>"
  using assms by (auto simp: shown_def)

lemma shown_refl: "screen s \<Longrightarrow> shown s s"
  unfolding shown_def screen_def by (intro exI [of _ "uart_out s"] exI [of _ "crtpos s"] exI [of _ "crt s"]) simp

lemma shownI: "p < 24 * 80 \<Longrightarrow> s' = s\<lparr>uart_out := u, crtpos := p, crt := m\<rparr> \<Longrightarrow> shown s s'"
  unfolding shown_def by blast

lemma shown_trans: "shown s t \<Longrightarrow> shown t u \<Longrightarrow> shown s u"
  by (elim shownE, erule shownI, simp)

lemma shown_screen: "shown s t \<Longrightarrow> screen s \<Longrightarrow> screen t"
  by (auto simp: shown_def screen_def)

lemma shown_fields:
  assumes "shown s t"
  shows "mach t = mach s" "in_buf t = in_buf s" "in_r t = in_r s" "in_w t = in_w s" "in_e t = in_e s"
    "procs t = procs s" "cons_locking t = cons_locking s" "mem t = mem s" "kbd_shift t = kbd_shift s" "uart t = uart s"
  using assms by (auto simp: shown_def)

lemma uartputc_fields [simp]:
  "crtpos (uartputc c s) = crtpos s" "panicked (uartputc c s) = panicked s"
  by (simp_all add: uartputc_def)

lemma uartputc_upd: "\<exists>u. uartputc c s = s\<lparr>uart_out := u\<rparr>"
  by (cases "uart s") (auto simp: uartputc_def intro: exI [of _ "uart_out s"])

lemma cgaputc_ok:
  assumes "crtpos s < 24 * 80"
  shows "\<exists>p m. p < 24 * 80 \<and> cgaputc c s = Ret () (s\<lparr>crtpos := p, crt := m\<rparr>)"
proof -
  define q where "q = (if c = 10 then crtpos s + (80 - crtpos s mod 80)
    else if c = BACKSPACE then (if crtpos s > 0 then crtpos s - 1 else crtpos s) else crtpos s + 1)"
  have "crtpos s mod 80 < 80" by simp
  moreover have "crtpos s + (80 - crtpos s mod 80) = 80 * (crtpos s div 80 + 1)"
    using div_mult_mod_eq [of "crtpos s" 80] by presburger
  moreover have "crtpos s div 80 < 24" using assms by (simp add: less_mult_imp_div_less)
  ultimately have q: "q \<le> 24 * 80" using assms by (auto simp: q_def)
  define q' where "q' = (if 24 \<le> q div 80 then q - 80 else q)"
  obtain mem' where mem': "(if c = 10 then (crtpos s + (80 - crtpos s mod 80), crt s)
      else if c = BACKSPACE then (if crtpos s > 0 then crtpos s - 1 else crtpos s, crt s)
      else (crtpos s + 1, (crt s)(crtpos s := ucast (c AND 0xFF) OR 0x0700))) = (q, mem')"
    unfolding q_def by (cases "c = 10"; cases "c = BACKSPACE") simp_all
  have "\<exists>m. cgaputc c s = Ret () (s\<lparr>crtpos := q' mod 2 ^ 16, crt := m\<rparr>)"
    unfolding cgaputc_def Let_def mem' q'_def using q by (cases "24 \<le> q div 80") (simp_all, blast+)
  moreover have "q' < 24 * 80" using q unfolding q'_def by (cases "q = 1920") auto
  ultimately show ?thesis by (intro exI [of _ q']) simp
qed

lemma consputc_shown:
  assumes "screen s"
  shows "\<exists>t. consputc c s = Ret () t \<and> shown s t"
proof -
  define t where "t = (if c = BACKSPACE then uartputc 8 (uartputc 32 (uartputc 8 s)) else uartputc c s)"
  have "\<exists>u. t = s\<lparr>uart_out := u\<rparr>"
    unfolding t_def by (cases "uart s") (auto simp: uartputc_def intro: exI [of _ "uart_out s"])
  then obtain u where u: "t = s\<lparr>uart_out := u\<rparr>" ..
  then have "crtpos t < 24 * 80" using assms by (simp add: screen_def)
  from cgaputc_ok [OF this, of c] obtain p m where "p < 24 * 80" "cgaputc c t = Ret () (t\<lparr>crtpos := p, crt := m\<rparr>)"
    by blast
  moreover have "consputc c s = cgaputc c t" using assms by (simp add: consputc_def t_def screen_def)
  ultimately show ?thesis using u by (auto intro!: shownI [of p])
qed

lemma consputc_wp [wp_intros]: "screen s \<Longrightarrow> wp (consputc c s) (\<lambda>_ t. shown s t)"
  using consputc_shown [of s c] by auto

lemma consputs_wp [wp_intros]: "screen s \<Longrightarrow> wp (consputs cs s) (\<lambda>_ t. shown s t)"
proof (induction cs arbitrary: s)
  case (Cons c cs)
  obtain t where t: "consputc (ucast c) s = Ret () t" "shown s t"
    using consputc_shown [OF Cons.prems, of "ucast c"] by blast
  then show ?case
    using Cons.IH [OF shown_screen [OF t(2) Cons.prems]] by (auto intro: wp_mono shown_trans)
qed (simp add: shown_refl)

subsection \<open>Line editing\<close>

text \<open>
  The typed lines that no reader has taken are \<open>pending\<close>, the line being edited is \<open>editing\<close>.
\<close>

definition pending :: "'z kst_cons_scheme \<Rightarrow> uchar list" where
  "pending s = rseg INPUT_BUF (in_buf s) (in_r s) (unat (in_w s - in_r s))"

definition editing :: "'z kst_cons_scheme \<Rightarrow> uchar list" where
  "editing s = rseg INPUT_BUF (in_buf s) (in_w s) (unat (in_e s - in_w s))"

definition input_ok :: "'z kst_cons_scheme \<Rightarrow> bool" where
  "input_ok s \<longleftrightarrow> length (pending s) + length (editing s) \<le> INPUT_BUF \<and> 10 \<notin> set (editing s)"

text \<open>The line discipline: what a typed character does to the pending and the edited text.\<close>

definition edit_char :: "uchar \<Rightarrow> uchar list \<times> uchar list \<Rightarrow> uchar list \<times> uchar list" where
  "edit_char c = (\<lambda>(q, l).
     if c = 0x10 \<or> c = 0 then (q, l)
     else if c = 0x15 then (q, [])
     else if c = 8 \<or> c = 0x7F then (q, butlast l)
     else if length q + length l < INPUT_BUF
     then let l = l @ [if c = 13 then 10 else c]
          in if c = 10 \<or> c = 13 \<or> c = 4 \<or> length q + length l = INPUT_BUF then (q @ l, []) else (q, l)
     else (q, l))"

lemma INPUT_BUF_dvd: "INPUT_BUF dvd 2 ^ 32"
  by (simp add: INPUT_BUF_def)

lemma length_pending [simp]: "length (pending s) = unat (in_w s - in_r s)"
  by (simp add: pending_def)

lemma length_editing [simp]: "length (editing s) = unat (in_e s - in_w s)"
  by (simp add: editing_def)

lemma pending_editing:
  assumes "input_ok s"
  shows "unat (in_e s - in_r s) = length (pending s @ editing s)"
    and "pending s @ editing s = rseg INPUT_BUF (in_buf s) (in_r s) (unat (in_e s - in_r s))"
proof -
  have "in_e s - in_r s = (in_w s - in_r s) + (in_e s - in_w s)" by simp
  then have "unat (in_e s - in_r s) = unat (in_w s - in_r s) + unat (in_e s - in_w s)"
    using assms unat_word_ariths(1) [of "in_w s - in_r s" "in_e s - in_w s"] by (simp add: input_ok_def INPUT_BUF_def)
  then show "unat (in_e s - in_r s) = length (pending s @ editing s)" by simp
  then show "pending s @ editing s = rseg INPUT_BUF (in_buf s) (in_r s) (unat (in_e s - in_r s))"
    by (simp add: rseg_add pending_def editing_def)
qed

lemma editing_nonempty: "in_e s \<noteq> in_w s \<Longrightarrow> \<exists>k. unat (in_e s - in_w s) = Suc k \<and> in_e s - 1 = in_w s + of_nat k"
proof -
  assume "in_e s \<noteq> in_w s"
  then obtain k where k: "unat (in_e s - in_w s) = Suc k" by (metis eq_iff_diff_eq_0 not0_implies_Suc unat_eq_zero)
  then have "in_e s - in_w s = of_nat (Suc k)" by (simp only: k [symmetric]) simp
  then have "in_e s - 1 = in_w s + of_nat k" by (simp add: algebra_simps)
  with k show ?thesis by blast
qed

lemma editing_back:
  assumes "in_e s \<noteq> in_w s"
  shows "editing (s\<lparr>in_e := in_e s - 1\<rparr>) = butlast (editing s)"
    and "in_buf s (unat (in_e s - 1) mod INPUT_BUF) \<in> set (editing s)"
    and "unat (in_e s - in_w s) = Suc (unat (in_e s - 1 - in_w s))"
proof -
  obtain k where k: "unat (in_e s - in_w s) = Suc k" "in_e s - 1 = in_w s + of_nat k"
    using editing_nonempty [OF assms] by blast
  have "k < 2 ^ 32" using k(1) unat32_less [of "in_e s - in_w s"] by simp
  then have u: "unat (in_e s - 1 - in_w s) = k" using k(2) by (simp add: unat_of_nat)
  show "editing (s\<lparr>in_e := in_e s - 1\<rparr>) = butlast (editing s)" using k u by (simp add: editing_def rseg_Suc)
  show "in_buf s (unat (in_e s - 1) mod INPUT_BUF) \<in> set (editing s)" using k by (simp add: editing_def rseg_Suc)
  show "unat (in_e s - in_w s) = Suc (unat (in_e s - 1 - in_w s))" using k u by simp
qed

lemma pending_in_e [simp]: "pending (s\<lparr>in_e := e\<rparr>) = pending s"
  by (simp add: pending_def)

lemma screen_fields [simp]:
  "screen (s\<lparr>in_e := e\<rparr>) = screen s" "screen (s\<lparr>in_w := w\<rparr>) = screen s" "screen (s\<lparr>in_buf := b\<rparr>) = screen s"
  "screen (s\<lparr>mach := m\<rparr>) = screen s" "screen (s\<lparr>procs := ps\<rparr>) = screen s" "screen (s\<lparr>kbd_shift := k\<rparr>) = screen s"
  by (simp_all add: screen_def)

lemma shown_input: "shown s t \<Longrightarrow> pending t = pending s" "shown s t \<Longrightarrow> editing t = editing s"
  by (simp_all add: pending_def editing_def shown_fields)

lemma kill_line_ok:
  assumes "n = unat (in_e s - in_w s)" "10 \<notin> set (editing s)" "screen s"
  shows "\<exists>t. kill_line n s = Ret () t \<and> shown (s\<lparr>in_e := in_w s\<rparr>) t"
  using assms
proof (induction n arbitrary: s)
  case 0
  then have "in_e s = in_w s" by (metis eq_iff_diff_eq_0 unat_eq_zero)
  then have "s\<lparr>in_e := in_w s\<rparr> = s" by simp
  then show ?case using 0 by (simp add: shown_refl)
next
  case (Suc n)
  have ne: "in_e s \<noteq> in_w s" using Suc.prems(1) by auto
  note eb = editing_back [OF ne]
  obtain t where t: "consputc BACKSPACE (s\<lparr>in_e := in_e s - 1\<rparr>) = Ret () t" "shown (s\<lparr>in_e := in_e s - 1\<rparr>) t"
    using consputc_shown [of "s\<lparr>in_e := in_e s - 1\<rparr>" BACKSPACE] Suc.prems(3) by auto
  note f = shown_fields [OF t(2)] shown_input [OF t(2)]
  have "\<exists>u. kill_line n t = Ret () u \<and> shown (t\<lparr>in_e := in_w t\<rparr>) u"
    using Suc.prems eb f shown_screen [OF t(2)] by (intro Suc.IH) (auto dest: in_set_butlastD)
  moreover have "shown (s\<lparr>in_e := in_w s\<rparr>) (t\<lparr>in_e := in_w t\<rparr>)"
  proof -
    obtain u p m where "p < 24 * 80" "t = s\<lparr>in_e := in_e s - 1, uart_out := u, crtpos := p, crt := m\<rparr>"
      using t(2) by (rule shownE)
    then show ?thesis by (intro shownI [where p = p and u = u and m = m]) simp_all
  qed
  moreover have "in_buf s (unat (in_e s - 1) mod INPUT_BUF) \<noteq> 10" using Suc.prems(2) eb(2) by metis
  ultimately show ?case using ne t(1) by (auto intro: shown_trans)
qed

lemma typed_char:
  assumes ok: "input_ok s" and room: "length (pending s) + length (editing s) < INPUT_BUF"
    and t: "t = s\<lparr>in_buf := (in_buf s)(unat (in_e s) mod INPUT_BUF := c), in_e := in_e s + 1\<rparr>"
  shows "pending t = pending s" "editing t = editing s @ [c]" "unat (in_e t - in_r t) = Suc (unat (in_e s - in_r s))"
    "pending (t\<lparr>in_w := in_e t\<rparr>) = pending s @ editing s @ [c]" "editing (t\<lparr>in_w := in_e t\<rparr>) = []"
proof -
  define k where "k = unat (in_e s - in_r s)"
  define p where "p = unat (in_w s - in_r s)"
  define n where "n = unat (in_e s - in_w s)"
  note pe = pending_editing [OF ok, folded k_def]
  have k: "k < INPUT_BUF" "k = p + n" using pe(1) room by (simp_all add: INPUT_BUF_def p_def n_def)
  have ek: "in_e s = in_r s + of_nat k" "in_e s = in_w s + of_nat n" "in_w s = in_r s + of_nat p"
    by (simp_all add: k_def n_def p_def)
  have u: "unat (in_e s + 1 - in_r s) = Suc k" "unat (in_e s + 1 - in_w s) = Suc n"
  proof -
    have "in_e s + 1 - in_r s = of_nat (Suc k)" by (simp add: k_def)
    then show "unat (in_e s + 1 - in_r s) = Suc k" using k(1) by (simp only: unat_of_nat) (simp add: INPUT_BUF_def)
    have "in_e s + 1 - in_w s = of_nat (Suc n)" by (simp add: n_def)
    then show "unat (in_e s + 1 - in_w s) = Suc n" using k by (simp only: unat_of_nat) (simp add: INPUT_BUF_def)
  qed
  have n: "n < INPUT_BUF" "p < INPUT_BUF" using k by simp_all
  show "editing t = editing s @ [c]"
    using rseg_upd_end [OF INPUT_BUF_dvd n(1), of "in_buf s" "in_w s" c] by (simp add: t editing_def u n_def [symmetric] ek(2) [symmetric])
  have all: "rseg INPUT_BUF (in_buf t) (in_r s) (Suc k) = pending s @ editing s @ [c]"
    using rseg_upd_end [OF INPUT_BUF_dvd k(1), of "in_buf s" "in_r s" c] pe(2) by (simp add: t ek(1) [symmetric])
  then have "rseg INPUT_BUF (in_buf t) (in_r s) p @ rseg INPUT_BUF (in_buf t) (in_r s + of_nat p) (Suc n) = pending s @ editing s @ [c]"
    using k by (simp only: rseg_add [symmetric] add_Suc_right)
  then have "rseg INPUT_BUF (in_buf t) (in_r s) p = pending s" by (simp add: append_eq_append_conv p_def)
  then show "pending t = pending s" by (simp add: pending_def t p_def)
  show "unat (in_e t - in_r t) = Suc (unat (in_e s - in_r s))" using u by (simp add: t k_def)
  show "pending (t\<lparr>in_w := in_e t\<rparr>) = pending s @ editing s @ [c]"
    using all by (simp add: pending_def u t)
  show "editing (t\<lparr>in_w := in_e t\<rparr>) = []" by (simp add: editing_def)
qed

lemma input_okI: "length q + length l \<le> INPUT_BUF \<Longrightarrow> 10 \<notin> set l \<Longrightarrow> pending t = q \<Longrightarrow> editing t = l \<Longrightarrow> input_ok t"
  by (auto simp: input_ok_def)

lemma wakeup1_input [simp]:
  "pending (wakeup1 ch s) = pending s" "editing (wakeup1 ch s) = editing s" "screen (wakeup1 ch s) = screen s"
  "in_r (wakeup1 ch s) = in_r s" "uart (wakeup1 ch s) = uart s" "cons_locking (wakeup1 ch s) = cons_locking s"
  "in_w (wakeup1 ch s) = in_w s" "in_e (wakeup1 ch s) = in_e s"
  "input_ok (wakeup1 ch s) = input_ok s"
  by (simp_all add: input_ok_def pending_def editing_def screen_def wakeup1_def)

text \<open>The characters of the line discipline, read from the 32-bit value \<open>getc\<close> returns.\<close>

lemma ctrl_eqs:
  "(ucast (c :: uchar) = ctrl CHR ''P'') = (c = 0x10)" "(ucast c = ctrl CHR ''U'') = (c = 0x15)"
  "(ucast c = ctrl CHR ''H'') = (c = 8)" "(ucast c = (0x7F :: uint)) = (c = 0x7F)" "(ucast c = (0 :: uint)) = (c = 0)"
  "(ucast c = ctrl CHR ''D'') = (c = 4)" "(ucast c = (10 :: uint)) = (c = 10)" "(ucast c = (13 :: uint)) = (c = 13)"
proof -
  have u: "unat (ucast d :: uint) = unat d" for d :: uchar
    using unsigned_less [of d, where 'a = nat] by (simp add: unsigned_ucast_eq take_bit_nat_eq_self)
  have *: "(ucast c = (ucast d :: uint)) = (c = d)" for d :: uchar
    by (simp add: word_unat_eq_iff u)
  show "(ucast (c :: uchar) = ctrl CHR ''P'') = (c = 0x10)" "(ucast c = ctrl CHR ''U'') = (c = 0x15)"
    "(ucast c = ctrl CHR ''H'') = (c = 8)" "(ucast c = (0x7F :: uint)) = (c = 0x7F)" "(ucast c = (0 :: uint)) = (c = 0)"
    "(ucast c = ctrl CHR ''D'') = (c = 4)" "(ucast c = (10 :: uint)) = (c = 10)" "(ucast c = (13 :: uint)) = (c = 13)"
    using * [of "0x10"] * [of "0x15"] * [of 8] * [of "0x7F"] * [of 0] * [of 4] * [of 10] * [of 13]
    by (simp_all add: ctrl_def)
qed

lemma ucast_ucast: "ucast (ucast (d :: uchar) :: uint) = d"
  by (rule bit_word_eqI) (auto simp: bit_simps)

definition edited :: "uchar list \<times> uchar list \<Rightarrow> 'z kst_cons_scheme \<Rightarrow> 'z kst_cons_scheme \<Rightarrow> bool" where
  "edited ql s t \<longleftrightarrow> (pending t, editing t) = ql \<and> input_ok t \<and> screen t \<and> mach t = mach s \<and> in_r t = in_r s \<and> uart t = uart s \<and> cons_locking t = cons_locking s"

lemma shown_edited:
  "shown s' t \<Longrightarrow> (pending s', editing s') = ql \<Longrightarrow> input_ok s' \<Longrightarrow> screen s' \<Longrightarrow> mach s' = mach s \<Longrightarrow> in_r s' = in_r s \<Longrightarrow>
   uart s' = uart s \<Longrightarrow> cons_locking s' = cons_locking s \<Longrightarrow> edited ql s t"
  by (auto simp: edited_def input_ok_def shown_fields shown_input shown_screen)

lemma typed_ok:
  assumes ok: "input_ok s" "screen s" and m: "calm (mach s)" "free_lock LkPtable (mach s)"
    and c: "c \<noteq> 0" "c \<noteq> 0x10" "c \<noteq> 0x15" "c \<noteq> 8" "c \<noteq> 0x7F"
  shows "\<exists>t. consoleintr_char (ucast c) s = Ret () t \<and> edited (edit_char c (pending s, editing s)) s t"
proof (cases "length (pending s) + length (editing s) < INPUT_BUF")
  case False
  have "unat (in_e s - in_r s) = length (pending s) + length (editing s)" using pending_editing(1) [OF ok(1)] by simp
  then have "\<not> in_e s - in_r s < of_nat INPUT_BUF" using False by (simp add: word_less_nat_alt INPUT_BUF_def)
  then show ?thesis using c ok False by (simp add: consoleintr_char_def ctrl_eqs edit_char_def edited_def)
next
  case True
  define d where "d = (if c = 13 then 10 else c)"
  define s1 where "s1 = s\<lparr>in_buf := (in_buf s)(unat (in_e s) mod INPUT_BUF := d), in_e := in_e s + 1\<rparr>"
  note ty = typed_char [OF ok(1) True s1_def]
  have k: "unat (in_e s - in_r s) = length (pending s) + length (editing s)" using pending_editing(1) [OF ok(1)] by simp
  obtain t where t: "consputc (ucast d) s1 = Ret () t" "shown s1 t"
    using consputc_shown [of s1 "ucast d"] ok(2) by (auto simp: s1_def)
  note f = shown_fields [OF t(2)] shown_input [OF t(2)] shown_screen [OF t(2)]
  define full where "full \<longleftrightarrow> d = 10 \<or> d = 4 \<or> length (pending s) + Suc (length (editing s)) = INPUT_BUF"
  have full: "(in_e t = in_r t + of_nat INPUT_BUF) = (length (pending s) + Suc (length (editing s)) = INPUT_BUF)"
  proof -
    have "(in_e t = in_r t + of_nat INPUT_BUF) = (in_e t - in_r t = of_nat INPUT_BUF)" by (simp add: diff_eq_eq add.commute)
    also have "\<dots> = (unat (in_e t - in_r t) = INPUT_BUF)" unfolding word_unat_eq_iff by (simp add: INPUT_BUF_def)
    finally show ?thesis using ty(3) k f(3,5) by simp
  qed
  have run: "consoleintr_char (ucast c) s = (if full then wakeup ChInput (t\<lparr>in_w := in_e t\<rparr>) else Ret () t)"
  proof -
    have "in_e s - in_r s < of_nat INPUT_BUF" using True k by (simp add: word_less_nat_alt INPUT_BUF_def)
    moreover have "(if ucast c = (13 :: uint) then 10 else ucast c) = (ucast d :: uint)" by (simp add: ctrl_eqs d_def)
    moreover have "ucast (ucast d :: uint) = d" by (rule ucast_ucast)
    ultimately have "consoleintr_char (ucast c) s = bindR (consputc (ucast d) s1) (\<lambda>_ s.
        if ucast d = (10 :: uint) \<or> ucast d = ctrl CHR ''D'' \<or> in_e s = in_r s + of_nat INPUT_BUF
        then wakeup ChInput (s\<lparr>in_w := in_e s\<rparr>) else Ret () s)"
      using c by (simp only: consoleintr_char_def ctrl_eqs Let_def s1_def if_False if_True simp_thms)
    then show ?thesis by (simp add: t(1) ctrl_eqs full full_def)
  qed
  have ed: "edit_char c (pending s, editing s) =
      (if full then (pending s @ editing s @ [d], []) else (pending s, editing s @ [d]))"
    using c True by (auto simp: edit_char_def full_def d_def Let_def)
  have m1: "mach s1 = mach s" "in_r s1 = in_r s" "uart s1 = uart s" "cons_locking s1 = cons_locking s" "screen s1"
    using ok(2) by (simp_all add: s1_def)
  show ?thesis
  proof (cases full)
    case True
    let ?t = "t\<lparr>in_w := in_e t\<rparr>"
    have p: "pending ?t = pending s @ editing s @ [d]" "editing ?t = []"
      using ty(4,5) f by (simp_all add: pending_def editing_def)
    then have "input_ok ?t" using \<open>length (pending s) + length (editing s) < INPUT_BUF\<close> by (simp add: input_ok_def)
    then have "edited (edit_char c (pending s, editing s)) s (wakeup1 ChInput ?t)"
      using ed p True m1 f by (simp add: edited_def)
    then show ?thesis using run True wakeup_calm [of ?t ChInput] m m1 f by simp
  next
    case False
    have "10 \<notin> set (editing s @ [d])" using False ok(1) by (auto simp: input_ok_def full_def)
    then have "input_ok s1" using ty True by (intro input_okI [OF _ _ ty(1,2)]) simp_all
    then show ?thesis using run False ed ty m1 t(2) by (auto intro!: shown_edited [of s1])
  qed
qed

lemma consoleintr_char_ok:
  assumes ok: "input_ok s" "screen s" and m: "calm (mach s)" "free_lock LkPtable (mach s)" and c: "c \<noteq> 0x10"
  shows "\<exists>t. consoleintr_char (ucast c) s = Ret () t \<and> edited (edit_char c (pending s, editing s)) s t"
proof -
  have e: "10 \<notin> set (editing s)" "length (pending s) + length (editing s) \<le> 128"
    using ok(1) by (simp_all add: input_ok_def INPUT_BUF_def)
  have k: "unat (in_e s - in_r s) = length (pending s) + length (editing s)" using pending_editing(1) [OF ok(1)] by simp
  consider "c = 0" | "c = 0x15" | "c = 8 \<or> c = 0x7F"
    | "c \<noteq> 0" "c \<noteq> 0x15" "c \<noteq> 8" "c \<noteq> 0x7F" by blast
  then show ?thesis
  proof cases
    case 1
    then show ?thesis using ok by (simp add: consoleintr_char_def ctrl_def edited_def edit_char_def)
  next
    case 2
    obtain t where "kill_line (unat (in_e s - in_w s)) s = Ret () t" "shown (s\<lparr>in_e := in_w s\<rparr>) t"
      using kill_line_ok [OF refl e(1) ok(2)] by blast
    moreover have "input_ok (s\<lparr>in_e := in_w s\<rparr>)"
      using e(2) by (intro input_okI [of "pending s" "[]"]) (simp_all add: editing_def INPUT_BUF_def)
    ultimately show ?thesis using 2 ok
      by (auto simp: consoleintr_char_def ctrl_def edit_char_def editing_def intro!: shown_edited)
  next
    case 3
    show ?thesis
    proof (cases "in_e s = in_w s")
      case True
      then have "editing s = []" by (simp add: editing_def)
      then show ?thesis using 3 True ok by (auto simp: consoleintr_char_def ctrl_def edited_def edit_char_def)
    next
      case False
      note eb = editing_back [OF False]
      obtain t where t: "consputc BACKSPACE (s\<lparr>in_e := in_e s - 1\<rparr>) = Ret () t" "shown (s\<lparr>in_e := in_e s - 1\<rparr>) t"
        using consputc_shown [of "s\<lparr>in_e := in_e s - 1\<rparr>" BACKSPACE] ok(2) by auto
      have "input_ok (s\<lparr>in_e := in_e s - 1\<rparr>)"
        using e eb(1) by (intro input_okI [of "pending s" "butlast (editing s)"]) (auto simp: INPUT_BUF_def dest: in_set_butlastD)
      moreover have "edit_char c (pending s, editing s) = (pending s, butlast (editing s))"
        using 3 by (auto simp: edit_char_def)
      ultimately have "edited (edit_char c (pending s, editing s)) s t"
        using ok(2) by (intro shown_edited [OF t(2)]) (simp_all add: eb(1))
      moreover have "consoleintr_char (ucast c) s = Ret () t"
        using 3 t(1) False by (auto simp: consoleintr_char_def ctrl_def)
      ultimately show ?thesis by blast
    qed
  next
    case 4
    then show ?thesis using typed_ok [OF ok m] c by blast
  qed
qed

lemma edited_trans: "edited ql s t \<Longrightarrow> edited ql' t u \<Longrightarrow> edited ql' s u"
  by (simp add: edited_def)

lemma editedD:
  assumes "edited ql s t"
  shows "pending t = fst ql" "editing t = snd ql" "input_ok t" "screen t" "mach t = mach s" "uart t = uart s"
    "cons_locking t = cons_locking s"
  using assms by (auto simp: edited_def)

definition serial :: "uchar list \<Rightarrow> (uchar \<times> uchar) list" where
  "serial ds = map (\<lambda>d. (1, d)) ds"

lemma of_int_uint8: "(of_int (uint (c :: uchar)) :: uint) = ucast c"
  by (rule bit_word_eqI) (auto simp: bit_simps)

lemma edit_char_P: "edit_char 0x10 ql = ql"
  by (cases ql) (simp add: edit_char_def)

lemma serial_loop_ok:
  assumes "input_ok s" "screen s" "calm (mach s)" "free_lock LkPtable (mach s)" "uart s"
  shows "\<exists>t. consoleintr_loop uartgetc (serial ds) b s = Ret (b \<or> 0x10 \<in> set ds) t \<and>
    edited (fold edit_char ds (pending s, editing s)) s t"
  using assms
proof (induction ds arbitrary: s b)
  case Nil
  then show ?case by (simp add: serial_def edited_def)
next
  case (Cons c ds)
  have g: "uartgetc (1, c) s = (uint c, s)" using Cons.prems(5) by (simp add: uartgetc_def)
  show ?case
  proof (cases "c = 0x10")
    case True
    then show ?thesis using Cons.IH [OF Cons.prems, of True] g
      by (auto simp: serial_def ctrl_def edit_char_P)
  next
    case False
    obtain t where t: "consoleintr_char (ucast c) s = Ret () t" "edited (edit_char c (pending s, editing s)) s t"
      using consoleintr_char_ok [OF Cons.prems(1-4) False] by blast
    note e = editedD [OF t(2)]
    obtain u where u: "consoleintr_loop uartgetc (serial ds) b t = Ret (b \<or> 0x10 \<in> set ds) u"
        "edited (fold edit_char ds (pending t, editing t)) t u"
      using Cons.IH [of t b] e Cons.prems by auto
    have "edited (fold edit_char (c # ds) (pending s, editing s)) s u" using u(2) e(1,2) edited_trans [OF t(2) u(2)] by simp
    moreover have "consoleintr_loop uartgetc (serial (c # ds)) b s = Ret (b \<or> 0x10 \<in> set (c # ds)) u"
      using g t(1) u(1) False by (simp add: serial_def of_int_uint8 ctrl_eqs)
    ultimately show ?thesis by blast
  qed
qed

subsection \<open>Formatted output\<close>

text \<open>The usual way to write a number: the digits of the higher places, then the digit of the units. Negative numbers
  have a sign in front.\<close>

definition digit :: "nat \<Rightarrow> uchar" where
  "digit d = of_nat (if d < 10 then 48 + d else 87 + d)"

fun show_nat :: "nat \<Rightarrow> nat \<Rightarrow> uchar list" where
  "show_nat b n = (if b < 2 \<or> n < b then [digit n] else show_nat b (n div b) @ [digit (n mod b)])"

declare show_nat.simps [simp del]

definition show_int :: "int \<Rightarrow> uchar list" where
  "show_int i = (if i < 0 then 0x2D # show_nat 10 (nat (- i)) else show_nat 10 (nat i))"

text \<open>The number a list of digits stands for.\<close>

definition digit_val :: "uchar \<Rightarrow> nat" where
  "digit_val c = (if c < 0x3A then unat c - 48 else unat c - 87)"

definition read_nat :: "nat \<Rightarrow> uchar list \<Rightarrow> nat" where
  "read_nat b cs = foldl (\<lambda>v c. v * b + digit_val c) 0 cs"

lemma read_show_nat: "2 \<le> b \<Longrightarrow> b \<le> 16 \<Longrightarrow> read_nat b (show_nat b n) = n"
proof (induction b n rule: show_nat.induct)
  case (1 b n)
  have d: "digit_val (digit k) = k" if "k < 16" for k
    using that by (auto simp: digit_val_def digit_def word_less_nat_alt unat_of_nat)
  show ?case
  proof (cases "n < b")
    case True
    then show ?thesis using "1.prems" d by (subst show_nat.simps) (simp add: read_nat_def)
  next
    case False
    have "n mod b < 16" using mod_less_divisor [of b n] "1.prems" by linarith
    then show ?thesis using False "1.IH" "1.prems" d by (subst show_nat.simps) (simp add: read_nat_def)
  qed
qed

lemma rdigits_show_nat: "2 \<le> base \<Longrightarrow> base \<le> 16 \<Longrightarrow> rev (rdigits x base) = show_nat (unat base) (unat x)"
proof (induction x base rule: rdigits.induct)
  case (1 x base)
  have b: "2 \<le> unat base" "unat base \<le> 16" using "1.prems" by (simp_all add: word_le_nat_alt)
  have "digit_chars = map digit [0..<16]" by (simp add: digit_chars_def digit_def chrs_def chr_def upt_rec)
  then have "digit_chars ! k = digit k" if "k < 16" for k using nth_map_upt [of k 16 0 digit] that by (metis add_0 diff_zero)
  moreover have "unat (x mod base) < 16" unfolding unat_mod using mod_less_divisor [of "unat base" "unat x"] b by linarith
  ultimately have d: "digit_chars ! unat (x mod base) = digit (unat x mod unat base)" by (simp add: unat_mod)
  have z: "x div base = 0 \<longleftrightarrow> unat x < unat base"
    using b by (simp add: word_unat_eq_iff unat_div div_eq_0_iff)
  show ?case
  proof (cases "x div base = 0")
    case True
    then show ?thesis using z d b "1.prems" by (subst rdigits.simps, subst show_nat.simps) simp
  next
    case False
    have "\<not> (base < 2 \<or> x div base = 0)" using False "1.prems" by simp
    have nb: "(base < 2) = False" using "1.prems" by (simp add: not_less)
    from "1.IH" [OF \<open>\<not> (base < 2 \<or> x div base = 0)\<close>] False z d b "1.prems" show ?thesis
      by (subst rdigits.simps, subst show_nat.simps) (simp add: unat_div nb)
  qed
qed

lemma unat_minus_sint: "sint (w :: uint) < 0 \<Longrightarrow> unat (- w) = nat (- sint w)"
proof -
  assume n: "sint w < 0"
  have "- w = word_of_int (- sint w)" by simp
  then have "uint (- w) = (- sint w) mod 2 ^ 32" using uint_word_of_int [of "- sint w", where 'a = 32] by simp
  moreover have "- sint w < 2 ^ 32" using sint_ge [of w] by simp
  ultimately have "uint (- w) = - sint w" using n by (simp add: mod_pos_pos_trivial)
  then show ?thesis by (simp add: unat_eq_nat_uint)
qed

lemma format_int_show:
  "format_int w 10 True = show_int (sint w)" "format_int w 16 False = show_nat 16 (unat w)"
proof -
  have "uint w = sint w mod 2 ^ 32" using uint_word_of_int [of "sint w", where 'a = 32] by simp
  moreover have "sint w < 2 ^ 32" using sint_lt [of w] by simp
  ultimately have "unat w = nat (sint w)" if "\<not> sint w < 0"
    using that by (simp add: mod_pos_pos_trivial unat_eq_nat_uint)
  then show "format_int w 10 True = show_int (sint w)"
    by (simp add: format_int_def show_int_def rdigits_show_nat unat_minus_sint Let_def chr_def)
  show "format_int w 16 False = show_nat 16 (unat w)"
    by (simp add: format_int_def rdigits_show_nat Let_def)
qed

text \<open>\<open>fmt_ok\<close>: the arguments have the types the format asks for. \<open>sformat\<close>: the text it stands for.\<close>

fun fmt_ok :: "uchar list \<Rightarrow> parg list \<Rightarrow> bool" where
  "fmt_ok [] args = True"
| "fmt_ok (c # cs) args =
     (if c = 0 then True
      else if c \<noteq> chr CHR ''%'' then fmt_ok cs args
      else case cs of [] \<Rightarrow> True
      | d # ds \<Rightarrow>
          if d = 0 then True
          else if d = chr CHR ''d'' \<or> d = chr CHR ''x'' \<or> d = chr CHR ''p''
          then (case args of PWord w # as \<Rightarrow> fmt_ok ds as | _ \<Rightarrow> False)
          else if d = chr CHR ''s'' then (case args of PStr p # as \<Rightarrow> fmt_ok ds as | _ \<Rightarrow> False)
          else fmt_ok ds args)"

fun sformat :: "uchar list \<Rightarrow> parg list \<Rightarrow> uchar list" where
  "sformat [] args = []"
| "sformat (c # cs) args =
     (if c = 0 then []
      else if c \<noteq> chr CHR ''%'' then c # sformat cs args
      else case cs of [] \<Rightarrow> []
      | d # ds \<Rightarrow>
          if d = 0 then []
          else if d = chr CHR ''d'' then (case args of PWord w # as \<Rightarrow> show_int (sint w) @ sformat ds as | _ \<Rightarrow> [])
          else if d = chr CHR ''x'' \<or> d = chr CHR ''p''
          then (case args of PWord w # as \<Rightarrow> show_nat 16 (unat w) @ sformat ds as | _ \<Rightarrow> [])
          else if d = chr CHR ''s''
          then (case args of PStr p # as \<Rightarrow> (case p of None \<Rightarrow> chrs ''(null)'' | Some t \<Rightarrow> takeWhile (\<lambda>c. c \<noteq> 0) t) @ sformat ds as | _ \<Rightarrow> [])
          else if d = chr CHR ''%'' then d # sformat ds args
          else [0x25, d] @ sformat ds args)"

definition prints :: "uchar list \<Rightarrow> 'z kst_cons_scheme \<Rightarrow> 'z kst_cons_scheme \<Rightarrow> bool" where
  "prints cs s t \<longleftrightarrow> shown s t \<and> uart_out t = (if uart s then uart_out s @ cs else uart_out s)"

lemma prints_Nil: "screen s \<Longrightarrow> prints [] s s"
  by (simp add: prints_def shown_refl)

lemma prints_trans: "prints cs s t \<Longrightarrow> prints ds t u \<Longrightarrow> prints (cs @ ds) s u"
  by (auto simp: prints_def shown_fields intro: shown_trans)

lemma ucast_BACKSPACE: "ucast (c :: uchar) \<noteq> BACKSPACE"
proof
  assume "ucast c = BACKSPACE"
  then have "bit (ucast c :: uint) 8" by (simp add: BACKSPACE_def bit_numeral_rec)
  then show False by (auto simp: bit_simps dest: bit_imp_le_length)
qed

lemma cgaputc_uart: "cgaputc c s = Ret () t \<Longrightarrow> uart_out t = uart_out s"
  by (auto simp: cgaputc_def Let_def split: prod.splits if_splits)

lemma consputc_prints: "screen s \<Longrightarrow> \<exists>t. consputc (ucast (c :: uchar)) s = Ret () t \<and> prints [c] s t"
proof -
  assume s: "screen s"
  then obtain t where t: "consputc (ucast c) s = Ret () t" "shown s t" using consputc_shown by blast
  then have "cgaputc (ucast c) (uartputc (ucast c) s) = Ret () t"
    using s by (simp add: consputc_def screen_def ucast_BACKSPACE)
  from cgaputc_uart [OF this] show ?thesis using t by (simp add: prints_def uartputc_def ucast_ucast)
qed

lemma prints_screen: "prints cs s t \<Longrightarrow> screen s \<Longrightarrow> screen t"
  by (auto simp: prints_def shown_screen)

lemma consputs_prints: "screen s \<Longrightarrow> \<exists>t. consputs cs s = Ret () t \<and> prints cs s t"
proof (induction cs arbitrary: s)
  case (Cons c cs)
  obtain t where t: "consputc (ucast c) s = Ret () t" "prints [c] s t" using consputc_prints [OF Cons.prems] by blast
  obtain u where "consputs cs t = Ret () u" "prints cs t u" using Cons.IH [OF prints_screen [OF t(2) Cons.prems]] by blast
  then show ?case using t prints_trans [OF t(2)] by fastforce
qed (simp add: prints_Nil)

text \<open>One piece of output, followed by more.\<close>

lemma prints_then:
  assumes "\<exists>t. m = Ret () t \<and> prints cs s t" and "screen s"
    and "\<And>t. screen t \<Longrightarrow> \<exists>u. f () t = Ret () u \<and> prints ds t u"
  shows "\<exists>u. bindR m f = Ret () u \<and> prints (cs @ ds) s u"
proof -
  obtain t where t: "m = Ret () t" "prints cs s t" using assms(1) by blast
  obtain u where "f () t = Ret () u" "prints ds t u" using assms(3) prints_screen [OF t(2) assms(2)] by blast
  then show ?thesis using t prints_trans [OF t(2)] by auto
qed

lemma cprintf_loop_prints:
  "fmt_ok fmt args \<Longrightarrow> screen s \<Longrightarrow> \<exists>t. cprintf_loop fmt args s = Ret () t \<and> prints (sformat fmt args) s t"
proof (induction "length fmt" arbitrary: fmt args s rule: less_induct)
  case (less fmt args s)
  have IH: "\<exists>t. cprintf_loop f as s = Ret () t \<and> prints (sformat f as) s t"
    if "length f < length fmt" "fmt_ok f as" "screen s" for f as and s :: "'a kst_cons_scheme" using less.hyps that by blast
  note one = consputc_prints and pct = consputc_prints [where c = "0x25", simplified]
    and int = consputs_prints [of _ "format_int w 10 True" for w, folded printint_def, unfolded format_int_show]
      consputs_prints [of _ "format_int w 16 False" for w, folded printint_def, unfolded format_int_show]
  have no: "chr CHR ''%'' = 0x25" "chr CHR ''d'' = 0x64" "chr CHR ''x'' = 0x78" "chr CHR ''p'' = 0x70" "chr CHR ''s'' = 0x73"
    by (simp_all add: chr_def)
  consider "fmt = []" | c cs where "fmt = c # cs" "c = 0 \<or> c \<noteq> 0x25" | "fmt = [0x25]" | d ds where "fmt = 0x25 # d # ds"
    by (cases fmt; cases "tl fmt") auto
  then show ?case
  proof cases
    case (2 c cs)
    then show ?thesis using less.prems prints_Nil [of s]
      by (cases "c = 0") (auto simp: no intro!: prints_then [of _ "[_]" s, simplified] one IH)
  next
    case (4 d ds)
    have more: "\<exists>u. bindR m (\<lambda>_ s. cprintf_loop ds as s) = Ret () u \<and> prints (cs @ sformat ds as) s u"
      if "\<exists>t. m = Ret () t \<and> prints cs s t" "screen s" "fmt_ok ds as" for m cs as and s :: "'a kst_cons_scheme"
      using that 4 by (intro prints_then [of m cs s] IH) auto
    consider "d = 0" | "d = 0x64" | "d = 0x78 \<or> d = 0x70" | "d = 0x73" | "d = 0x25"
      | "d \<noteq> 0" "d \<noteq> 0x64" "d \<noteq> 0x78" "d \<noteq> 0x70" "d \<noteq> 0x73" "d \<noteq> 0x25" by blast
    then show ?thesis
    proof cases
      case 6
      then show ?thesis using 4 less.prems more [OF one, of _ args d] prints_then [OF pct, of s] by (simp add: no)
    qed (use 4 less.prems more [OF int(1)] more [OF int(2)] more [OF consputs_prints] more [OF pct, of s args] prints_Nil [of s] in
        \<open>auto simp: no split: list.splits parg.splits\<close>)
  qed (use less.prems in \<open>simp_all add: no prints_Nil\<close>)
qed

lemma prints_mach: "prints cs s t \<Longrightarrow> prints cs (s\<lparr>mach := m\<rparr>) (t\<lparr>mach := m\<rparr>)"
proof -
  assume p: "prints cs s t"
  then obtain u q k where "q < 24 * 80" "t = s\<lparr>uart_out := u, crtpos := q, crt := k\<rparr>"
    unfolding prints_def by (blast elim: shownE)
  then show ?thesis using p unfolding prints_def by (auto intro!: shownI [where p = q and u = u and m = k])
qed

lemma prints_shown: "prints cs s t \<Longrightarrow> shown s t"
  by (simp add: prints_def)

lemma cprintf_prints:
  assumes "calm (mach s)" "free_lock LkCons (mach s)" "screen s" "fmt_ok fmt args"
  shows "\<exists>t. cprintf (Some fmt) args s = Ret () t \<and> prints (sformat fmt args) s t"
proof (cases "cons_locking s")
  case True
  let ?s = "s\<lparr>mach := acq LkCons (mach s)\<rparr>"
  obtain t where t: "cprintf_loop fmt args ?s = Ret () t" "prints (sformat fmt args) ?s t"
    using cprintf_loop_prints [of fmt args ?s] assms by auto
  then have m: "mach t = acq LkCons (mach s)" by (auto simp: prints_def shown_fields)
  have "prints (sformat fmt args) s (t\<lparr>mach := mach s\<rparr>)" using prints_mach [OF t(2), of "mach s"] by simp
  then show ?thesis using True assms t(1) m by (simp add: cprintf_def acquire_calm release_calm)
next
  case False
  then show ?thesis using cprintf_loop_prints [OF assms(4,3)] by (auto simp: cprintf_def bindR_eq_Ret)
qed

lemma shown_then:
  assumes "\<exists>t. m = Ret () t \<and> shown s t" "\<And>t. shown s t \<Longrightarrow> \<exists>u. f () t = Ret () u \<and> shown t u"
  shows "\<exists>u. bindR m f = Ret () u \<and> shown s u"
  using assms by (auto intro: shown_trans) (metis shown_trans)

lemma cprintf_shown:
  assumes "calm (mach s)" "free_lock LkCons (mach s)" "screen s" "fmt_ok fmt args"
  shows "\<exists>t. cprintf (Some fmt) args s = Ret () t \<and> shown s t"
  using cprintf_prints [OF assms] by (auto simp: prints_def)

lemma fmt_ok_procdump:
  "fmt_ok (chrs '' %p'') [PWord w]" "fmt_ok [10] []" "fmt_ok (chrs ''%d %s %s'') [PWord w, PStr a, PStr b]"
  by (simp_all add: chrs_def chr_def)

lemma procdump_pcs_shown:
  "calm (mach s) \<Longrightarrow> free_lock LkCons (mach s) \<Longrightarrow> screen s \<Longrightarrow> \<exists>t. procdump_pcs l s = Ret () t \<and> shown s t"
proof (induction l arbitrary: s)
  case (Cons a l)
  then show ?case
    by (auto simp: shown_refl fmt_ok_procdump shown_fields intro!: shown_then cprintf_shown Cons.IH elim: shown_screen)
qed (simp add: shown_refl)

lemma procdump_loop_shown:
  "calm (mach s) \<Longrightarrow> free_lock LkCons (mach s) \<Longrightarrow> screen s \<Longrightarrow> \<exists>t. procdump_loop l s = Ret () t \<and> shown s t"
proof (induction l arbitrary: s)
  case (Cons a l)
  have p: "\<exists>t. (if b then procdump_pcs k s else Ret () s) = Ret () t \<and> shown s t"
    if "calm (mach s)" "free_lock LkCons (mach s)" "screen s" for b k and s :: "'a kst_cons_scheme"
    using procdump_pcs_shown [OF that] shown_refl [OF that(3)] by simp
  show ?case
  proof (cases "p_state (procs s a) = UNUSED")
    case False
    then show ?thesis using Cons.prems
      by (simp only: procdump_loop.simps Let_def if_False)
        (intro shown_then cprintf_shown p Cons.IH fmt_ok_procdump; (simp add: shown_fields)?; (blast intro: shown_screen)?)
  qed (use Cons in simp)
qed (simp add: shown_refl)

lemma procdump_shown:
  "calm (mach s) \<Longrightarrow> free_lock LkCons (mach s) \<Longrightarrow> screen s \<Longrightarrow> \<exists>t. procdump s = Ret () t \<and> shown s t"
  by (simp add: procdump_def procdump_loop_shown)

subsection \<open>Properties\<close>

text \<open>A console that has printed nothing, on the machine of \<open>log3\<close>.\<close>

definition cons3 :: kst_cons where
  "cons3 = kst_log.extend (log3 0 (\<lambda>_ _. 0)) \<lparr>cons_locking = True, panicked = False, crt = (\<lambda>_. 0), crtpos = 1919,
     uart = True, uart_out = [], kbd_shift = 0, in_buf = (\<lambda>_. 0), in_r = 0xFFFFFFFF, in_w = 0xFFFFFFFF,
     in_e = 0xFFFFFFFF, devsw = (\<lambda>_. False)\<rparr>"

lemma cons3_simps [simp]:
  "mach cons3 = mach3" "screen cons3" "uart cons3" "uart_out cons3 = []" "pending cons3 = []" "editing cons3 = []" "input_ok cons3"
  by (simp_all add: cons3_def kst_log.defs screen_def pending_def editing_def input_ok_def INPUT_BUF_def)

text \<open>
  C18: \<open>cprintf\<close> called with arguments of the types its format asks for, by a processor that does not hold the
  console lock and with the cursor on the screen, returns: it does not panic with "pos under/overflow",
  it sends exactly the formatted text to the serial line, it leaves the cursor on the screen, and it changes
  nothing else of the kernel (the lock is free again). The formatted text has numbers in the usual notation, most
  significant digit first: decimal with a sign, or hexadecimal. A null format panics.
\<close>

theorem cprintf_correct:
  fixes s :: "'z kst_cons_scheme"
  assumes "calm (mach s)" "free_lock LkCons (mach s)" "\<not> panicked s" "crtpos s < 24 * 80" "fmt_ok fmt args"
  shows "(\<exists>p m. p < 24 * 80 \<and> cprintf (Some fmt) args s =
      Ret () (s\<lparr>uart_out := uart_out s @ (if uart s then sformat fmt args else []), crtpos := p, crt := m\<rparr>)) \<and>
    cprintf None args s = Panic ''null fmt''"
proof
  have "screen s" using assms by (simp add: screen_def)
  then obtain t where t: "cprintf (Some fmt) args s = Ret () t" "prints (sformat fmt args) s t"
    using cprintf_prints assms by blast
  then obtain u p m where "p < 24 * 80" "t = s\<lparr>uart_out := u, crtpos := p, crt := m\<rparr>"
    unfolding prints_def by (blast elim: shownE)
  moreover then have "u = uart_out s @ (if uart s then sformat fmt args else [])" using t(2) by (simp add: prints_def)
  ultimately show "\<exists>p m. p < 24 * 80 \<and> cprintf (Some fmt) args s =
      Ret () (s\<lparr>uart_out := uart_out s @ (if uart s then sformat fmt args else []), crtpos := p, crt := m\<rparr>)"
    using t(1) by blast
  show "cprintf None args s = Panic ''null fmt''" using assms by (simp add: cprintf_def acquire_calm)
qed

theorem cprintf_correct_witness:
  "\<exists>p m. p < 24 * 80 \<and> cprintf (Some (chrs ''pid %d %s %x'')) [PWord (- 271), PStr None, PWord 0xBEEF] cons3 =
     Ret () (cons3\<lparr>uart_out := chrs ''pid -271 (null) beef'', crtpos := p, crt := m\<rparr>)"
proof -
  have f: "fmt_ok (chrs ''pid %d %s %x'') [PWord (- 271), PStr None, PWord 0xBEEF]" by (simp add: chrs_def chr_def)
  have "sformat (chrs ''pid %d %s %x'') [PWord (- 271), PStr None, PWord 0xBEEF] = chrs ''pid -271 (null) beef''"
    by (simp add: chrs_def chr_def show_int_def show_nat.simps digit_def)
  then show ?thesis
    using cprintf_correct [where s = cons3, OF _ _ _ _ f] aloneD(1) [OF alone3] aloneD(3) [OF alone3, where l = LkCons] cons3_simps(2)
    by (simp add: screen_def)
qed

text \<open>
  C17: an interrupt of the serial line that delivers the characters \<open>ds\<close> changes the typed text exactly as the line
  discipline says, for every sequence of characters, also when the indices of the circular buffer wrap around
  at \<open>2^32\<close>: control-U empties the line being edited, backspace removes its last character, a line
  end, control-D or a full buffer moves it to the text readers can take, and no character of that
  text is lost or changed. The handler returns with the lock free and the cursor on the screen, also when control-P
  asks for a process listing.
\<close>

theorem console_line_discipline:
  fixes s :: "'z kst_cons_scheme"
  assumes "calm (mach s)" "free_lock LkCons (mach s)" "free_lock LkPtable (mach s)" "screen s" "uart s" "input_ok s"
  shows "\<exists>t. uartintr (serial ds) s = Ret () t \<and> (pending t, editing t) = fold edit_char ds (pending s, editing s) \<and>
    input_ok t \<and> screen t \<and> mach t = mach s"
proof -
  let ?s = "s\<lparr>mach := acq LkCons (mach s)\<rparr>"
  have in_s: "input_ok ?s" "screen ?s" "uart ?s" "pending ?s = pending s" "editing ?s = editing s"
    using assms by (simp_all add: input_ok_def screen_def pending_def editing_def)
  obtain t where t: "consoleintr_loop uartgetc (serial ds) False ?s = Ret (0x10 \<in> set ds) t"
      "edited (fold edit_char ds (pending s, editing s)) ?s t"
    using serial_loop_ok [of ?s ds False] in_s assms by auto
  let ?t = "t\<lparr>mach := mach s\<rparr>"
  note e = editedD [OF t(2)]
  have t': "(pending ?t, editing ?t) = fold edit_char ds (pending s, editing s)" "input_ok ?t" "screen ?t"
    using e by (simp_all add: input_ok_def pending_def editing_def)
  have run: "uartintr (serial ds) s = (if 0x10 \<in> set ds then procdump ?t else Ret () ?t)"
    using assms t(1) e(5) by (simp add: uartintr_def consoleintr_def acquire_calm release_calm)
  show ?thesis
  proof (cases "0x10 \<in> set ds")
    case True
    obtain u where u: "procdump ?t = Ret () u" "shown ?t u"
      using procdump_shown [of ?t] assms t'(3) by auto
    then show ?thesis using run True t' by (auto simp: shown_fields shown_input shown_screen input_ok_def)
  qed (use run t' in auto)
qed

theorem console_line_discipline_witness:
  "\<exists>t. uartintr (serial (chrs ''lx'' @ [8] @ chrs ''s'' @ [13] @ chrs ''rm'' @ [0x15] @ chrs ''e'')) cons3 = Ret () t \<and>
     pending t = chrs ''ls'' @ [10] \<and> editing t = chrs ''e''"
proof -
  have "fold edit_char (chrs ''lx'' @ [8] @ chrs ''s'' @ [13] @ chrs ''rm'' @ [0x15] @ chrs ''e'') ([], []) =
      (chrs ''ls'' @ [10], chrs ''e'')"
    by (simp add: chrs_def chr_def edit_char_def INPUT_BUF_def)
  then show ?thesis
    using console_line_discipline [of cons3 "chrs ''lx'' @ [8] @ chrs ''s'' @ [13] @ chrs ''rm'' @ [0x15] @ chrs ''e''"]
      aloneD(1) [OF alone3] aloneD(3) [OF alone3, where l = LkCons] aloneD(3) [OF alone3, where l = LkPtable] by auto
qed

end
