(* ===== verification/Xv6_Inode.thy ===== *)
theory Xv6_Inode
  imports Xv6_Console
begin

section \<open>Blocks and inodes (fs.c)\<close>

text \<open>
  The block allocator and the inode layer. A pointer to an inode is the index of its entry of
  \<open>icache\<close>; the copy of the disk inode inside \<open>struct inode\<close> is the field \<open>i_di\<close>. Panics, the
  sleep inside \<open>ilock\<close> and \<open>iput\<close>, and block numbers at 32 bits are as in the code. A loop over
  an int index is a recursion over the number of rounds left. Messages printed by \<open>cprintf\<close> are
  left out here.
\<close>

definition CONSOLE :: nat where "CONSOLE = 1"

record inode =
  i_dev :: uint
  i_inum :: uint
  i_ref :: int
  i_valid :: int
  i_di :: dinode

record kst_fs = kst_cons +
  sb :: superblock
  icache :: "nat \<Rightarrow> inode"

definition upd_inode :: "nat \<Rightarrow> (inode \<Rightarrow> inode) \<Rightarrow> 'z kst_fs_scheme \<Rightarrow> 'z kst_fs_scheme" where
  "upd_inode ip f s = s\<lparr>icache := (icache s)(ip := f (icache s ip))\<rparr>"

definition upd_di :: "nat \<Rightarrow> (dinode \<Rightarrow> dinode) \<Rightarrow> 'z kst_fs_scheme \<Rightarrow> 'z kst_fs_scheme" where
  "upd_di ip f s = upd_inode ip (\<lambda>i. i\<lparr>i_di := f (i_di i)\<rparr>) s"

abbreviation idi :: "'z kst_fs_scheme \<Rightarrow> nat \<Rightarrow> dinode" where
  "idi s ip \<equiv> i_di (icache s ip)"

definition IBLOCK :: "uint \<Rightarrow> superblock \<Rightarrow> uint" where
  "IBLOCK i b = i div of_nat IPB + sb_inodestart b"

definition BBLOCK :: "uint \<Rightarrow> superblock \<Rightarrow> uint" where
  "BBLOCK b sbk = b div of_nat BPB + sb_bmapstart sbk"

subsection \<open>Blocks\<close>

definition bzero :: "uint \<Rightarrow> uint \<Rightarrow> 'z kst_fs_scheme \<Rightarrow> (unit, 'z kst_fs_scheme) res" where
  "bzero dev bno s =
     bindR (bread dev bno s) (\<lambda>bp s.
     let s = upd_buf bp (\<lambda>k. k\<lparr>b_data := (\<lambda>i. if i < BSIZE then 0 else b_data k i)\<rparr>) s in
     bindR (log_write bp s) (\<lambda>_ s.
     brelse bp s))"

definition bit_used :: "bytes \<Rightarrow> nat \<Rightarrow> bool" where
  "bit_used d bi \<longleftrightarrow> d (bi div 8) AND push_bit (bi mod 8) 1 \<noteq> 0"

definition mark_bit :: "nat \<Rightarrow> bytes \<Rightarrow> bytes" where
  "mark_bit bi d = d(bi div 8 := d (bi div 8) OR push_bit (bi mod 8) 1)"

definition clear_bit :: "nat \<Rightarrow> bytes \<Rightarrow> bytes" where
  "clear_bit bi d = d(bi div 8 := d (bi div 8) AND NOT (push_bit (bi mod 8) 1))"

text \<open>The inner loop of \<open>balloc\<close>: the first free bit among \<open>n\<close> bits from \<open>bi\<close> on.\<close>

primrec first_free :: "nat \<Rightarrow> nat \<Rightarrow> bytes \<Rightarrow> nat option" where
  "first_free 0 bi d = None"
| "first_free (Suc n) bi d = (if \<not> bit_used d bi then Some bi else first_free n (Suc bi) d)"

primrec balloc_loop :: "nat \<Rightarrow> nat \<Rightarrow> uint \<Rightarrow> 'z kst_fs_scheme \<Rightarrow> (uint, 'z kst_fs_scheme) res" where
  "balloc_loop 0 b dev s = Panic ''balloc: out of blocks''"
| "balloc_loop (Suc n) b dev s =
     bindR (bread dev (BBLOCK (of_nat b) (sb s)) s) (\<lambda>bp s.
     case first_free (min BPB (unat (sb_size (sb s)) - b)) 0 (b_data (bufs s bp)) of
       Some bi \<Rightarrow>
         let s = upd_buf bp (\<lambda>k. k\<lparr>b_data := mark_bit bi (b_data k)\<rparr>) s in
         bindR (log_write bp s) (\<lambda>_ s.
         bindR (brelse bp s) (\<lambda>_ s.
         bindR (bzero dev (of_nat (b + bi)) s) (\<lambda>_ s.
         Ret (of_nat (b + bi)) s)))
     | None \<Rightarrow>
         bindR (brelse bp s) (\<lambda>_ s. balloc_loop n (b + BPB) dev s))"

definition balloc :: "uint \<Rightarrow> 'z kst_fs_scheme \<Rightarrow> (uint, 'z kst_fs_scheme) res" where
  "balloc dev s = balloc_loop ((unat (sb_size (sb s)) + BPB - 1) div BPB) 0 dev s"

definition bfree :: "uint \<Rightarrow> uint \<Rightarrow> 'z kst_fs_scheme \<Rightarrow> (unit, 'z kst_fs_scheme) res" where
  "bfree dev b s =
     bindR (readsb dev s) (\<lambda>sbk s.
     let s = s\<lparr>sb := sbk\<rparr> in
     bindR (bread dev (BBLOCK b (sb s)) s) (\<lambda>bp s.
     let bi = unat b mod BPB in
     if \<not> bit_used (b_data (bufs s bp)) bi then Panic ''freeing free block''
     else
       let s = upd_buf bp (\<lambda>k. k\<lparr>b_data := clear_bit bi (b_data k)\<rparr>) s in
       bindR (log_write bp s) (\<lambda>_ s.
       brelse bp s)))"

subsection \<open>Inodes\<close>

definition iinit :: "uint \<Rightarrow> 'z kst_fs_scheme \<Rightarrow> (unit, 'z kst_fs_scheme) res" where
  "iinit dev s =
     (let s = initlock LkIcache ''icache'' s;
          s = fold (\<lambda>i s. initsleeplock (SlInode i) ''inode'' s) [0..<NINODE] s
      in bindR (readsb dev s) (\<lambda>sbk s. Ret () (s\<lparr>sb := sbk\<rparr>)))"

definition dinode_off :: "uint \<Rightarrow> nat" where
  "dinode_off inum = DINODE_SIZE * (unat inum mod IPB)"

definition dinode0 :: dinode where
  "dinode0 = \<lparr>di_type = 0, di_major = 0, di_minor = 0, di_nlink = 0, di_size = 0, di_addrs = (\<lambda>_. 0)\<rparr>"

text \<open>The cache entries \<open>iget\<close> looks for.\<close>

definition icached :: "uint \<Rightarrow> uint \<Rightarrow> (nat \<Rightarrow> inode) \<Rightarrow> nat option" where
  "icached dev inum t = find (\<lambda>i. i_ref (t i) > 0 \<and> i_dev (t i) = dev \<and> i_inum (t i) = inum) [0..<NINODE]"

definition iempty :: "(nat \<Rightarrow> inode) \<Rightarrow> nat option" where
  "iempty t = find (\<lambda>i. i_ref (t i) = 0) [0..<NINODE]"

definition iget :: "uint \<Rightarrow> uint \<Rightarrow> 'z kst_fs_scheme \<Rightarrow> (nat, 'z kst_fs_scheme) res" where
  "iget dev inum s =
     bindR (acquire LkIcache s) (\<lambda>_ s.
     case icached dev inum (icache s) of
       Some ip \<Rightarrow>
         bindR (release LkIcache (upd_inode ip (\<lambda>i. i\<lparr>i_ref := i_ref i + 1\<rparr>) s)) (\<lambda>_ s. Ret ip s)
     | None \<Rightarrow>
         case iempty (icache s) of
           None \<Rightarrow> Panic ''iget: no inodes''
         | Some ip \<Rightarrow>
             bindR (release LkIcache (upd_inode ip (\<lambda>i. i\<lparr>i_dev := dev, i_inum := inum, i_ref := 1,
                      i_valid := 0\<rparr>) s)) (\<lambda>_ s.
             Ret ip s))"

primrec ialloc_loop :: "nat \<Rightarrow> uint \<Rightarrow> uint \<Rightarrow> ushort \<Rightarrow> 'z kst_fs_scheme \<Rightarrow> (nat, 'z kst_fs_scheme) res" where
  "ialloc_loop 0 inum dev type s = Panic ''ialloc: no inodes''"
| "ialloc_loop (Suc n) inum dev type s =
     bindR (bread dev (IBLOCK inum (sb s)) s) (\<lambda>bp s.
     if di_type (dinode_get (b_data (bufs s bp)) (dinode_off inum)) = 0
     then
       let s = upd_buf bp (\<lambda>k. k\<lparr>b_data := dinode_put (dinode_off inum) (dinode0\<lparr>di_type := type\<rparr>) (b_data k)\<rparr>) s in
       bindR (log_write bp s) (\<lambda>_ s.
       bindR (brelse bp s) (\<lambda>_ s.
       iget dev inum s))
     else
       bindR (brelse bp s) (\<lambda>_ s. ialloc_loop n (inum + 1) dev type s))"

definition ialloc :: "uint \<Rightarrow> ushort \<Rightarrow> 'z kst_fs_scheme \<Rightarrow> (nat, 'z kst_fs_scheme) res" where
  "ialloc dev type s = ialloc_loop (unat (sb_ninodes (sb s)) - 1) 1 dev type s"

definition iupdate :: "nat \<Rightarrow> 'z kst_fs_scheme \<Rightarrow> (unit, 'z kst_fs_scheme) res" where
  "iupdate ip s =
     bindR (bread (i_dev (icache s ip)) (IBLOCK (i_inum (icache s ip)) (sb s)) s) (\<lambda>bp s.
     let s = upd_buf bp (\<lambda>k. k\<lparr>b_data := dinode_put (dinode_off (i_inum (icache s ip))) (idi s ip) (b_data k)\<rparr>) s in
     bindR (log_write bp s) (\<lambda>_ s.
     brelse bp s))"

definition idup :: "nat \<Rightarrow> 'z kst_fs_scheme \<Rightarrow> (nat, 'z kst_fs_scheme) res" where
  "idup ip s =
     bindR (acquire LkIcache s) (\<lambda>_ s.
     bindR (release LkIcache (upd_inode ip (\<lambda>i. i\<lparr>i_ref := i_ref i + 1\<rparr>) s)) (\<lambda>_ s.
     Ret ip s))"

text \<open>The part of \<open>ilock\<close> after the sleep-lock is taken.\<close>

definition ilock_read :: "nat \<Rightarrow> 'z kst_fs_scheme \<Rightarrow> (unit, 'z kst_fs_scheme) res" where
  "ilock_read ip s =
     (if i_valid (icache s ip) = 0 then
        bindR (bread (i_dev (icache s ip)) (IBLOCK (i_inum (icache s ip)) (sb s)) s) (\<lambda>bp s.
        let s = upd_di ip (\<lambda>_. dinode_get (b_data (bufs s bp)) (dinode_off (i_inum (icache s ip)))) s in
        bindR (brelse bp s) (\<lambda>_ s.
        let s = upd_inode ip (\<lambda>i. i\<lparr>i_valid := 1\<rparr>) s in
        if di_type (idi s ip) = 0 then Panic ''ilock: no type'' else Ret () s))
      else Ret () s)"

definition ilock :: "nat \<Rightarrow> 'z kst_fs_scheme \<Rightarrow> (unit, 'z kst_fs_scheme) res" where
  "ilock ip s =
     (if i_ref (icache s ip) < 1 then Panic ''ilock''
      else bindR (acquiresleep (SlInode ip) s) (\<lambda>_ s. ilock_read ip s))"

definition ilock_return :: "bool \<Rightarrow> nat \<Rightarrow> nat \<Rightarrow> 'z kst_fs_scheme \<Rightarrow> (unit, 'z kst_fs_scheme) res" where
  "ilock_return ie p ip s = bindR (acquiresleep_return ie p (SlInode ip) s) (\<lambda>_ s. ilock_read ip s)"

definition iunlock :: "nat \<Rightarrow> 'z kst_fs_scheme \<Rightarrow> (unit, 'z kst_fs_scheme) res" where
  "iunlock ip s =
     bindR (holdingsleep (SlInode ip) s) (\<lambda>h s.
     if \<not> h \<or> i_ref (icache s ip) < 1 then Panic ''iunlock''
     else releasesleep (SlInode ip) s)"

subsection \<open>Inode content\<close>

definition set_addr :: "nat \<Rightarrow> nat \<Rightarrow> uint \<Rightarrow> 'z kst_fs_scheme \<Rightarrow> 'z kst_fs_scheme" where
  "set_addr ip k a s = upd_di ip (\<lambda>d. d\<lparr>di_addrs := (di_addrs d)(k := a)\<rparr>) s"

text \<open>\<open>if((addr = ip->addrs[k]) == 0) ip->addrs[k] = addr = balloc(ip->dev)\<close>\<close>

definition addr_or_alloc :: "nat \<Rightarrow> nat \<Rightarrow> 'z kst_fs_scheme \<Rightarrow> (uint, 'z kst_fs_scheme) res" where
  "addr_or_alloc ip k s =
     (if di_addrs (idi s ip) k = 0
      then bindR (balloc (i_dev (icache s ip)) s) (\<lambda>a s. Ret a (set_addr ip k a s))
      else Ret (di_addrs (idi s ip) k) s)"

definition bmap :: "nat \<Rightarrow> uint \<Rightarrow> 'z kst_fs_scheme \<Rightarrow> (uint, 'z kst_fs_scheme) res" where
  "bmap ip bn s =
     (if unat bn < NDIRECT then addr_or_alloc ip (unat bn) s
      else
        let j = unat bn - NDIRECT in
        if j < NINDIRECT then
          bindR (addr_or_alloc ip NDIRECT s) (\<lambda>a s.
          bindR (bread (i_dev (icache s ip)) a s) (\<lambda>bp s.
          let addr = get32 (b_data (bufs s bp)) (4 * j) in
          bindR (if addr = 0
                 then bindR (balloc (i_dev (icache s ip)) s) (\<lambda>addr s.
                      let s = upd_buf bp (\<lambda>k. k\<lparr>b_data := put32 (4 * j) addr (b_data k)\<rparr>) s in
                      bindR (log_write bp s) (\<lambda>_ s. Ret addr s))
                 else Ret addr s) (\<lambda>addr s.
          bindR (brelse bp s) (\<lambda>_ s.
          Ret addr s))))
        else Panic ''bmap: out of range'')"

primrec itrunc_direct :: "nat \<Rightarrow> nat \<Rightarrow> nat \<Rightarrow> 'z kst_fs_scheme \<Rightarrow> (unit, 'z kst_fs_scheme) res" where
  "itrunc_direct 0 i ip s = Ret () s"
| "itrunc_direct (Suc n) i ip s =
     bindR (if di_addrs (idi s ip) i \<noteq> 0
            then bindR (bfree (i_dev (icache s ip)) (di_addrs (idi s ip) i) s) (\<lambda>_ s. Ret () (set_addr ip i 0 s))
            else Ret () s) (\<lambda>_ s.
     itrunc_direct n (Suc i) ip s)"

primrec itrunc_indirect :: "nat \<Rightarrow> nat \<Rightarrow> nat \<Rightarrow> nat \<Rightarrow> 'z kst_fs_scheme \<Rightarrow> (unit, 'z kst_fs_scheme) res" where
  "itrunc_indirect 0 j ip bp s = Ret () s"
| "itrunc_indirect (Suc n) j ip bp s =
     (let a = get32 (b_data (bufs s bp)) (4 * j) in
      bindR (if a \<noteq> 0 then bfree (i_dev (icache s ip)) a s else Ret () s) (\<lambda>_ s.
      itrunc_indirect n (Suc j) ip bp s))"

definition itrunc :: "nat \<Rightarrow> 'z kst_fs_scheme \<Rightarrow> (unit, 'z kst_fs_scheme) res" where
  "itrunc ip s =
     bindR (itrunc_direct NDIRECT 0 ip s) (\<lambda>_ s.
     bindR (if di_addrs (idi s ip) NDIRECT \<noteq> 0 then
              bindR (bread (i_dev (icache s ip)) (di_addrs (idi s ip) NDIRECT) s) (\<lambda>bp s.
              bindR (itrunc_indirect NINDIRECT 0 ip bp s) (\<lambda>_ s.
              bindR (brelse bp s) (\<lambda>_ s.
              bindR (bfree (i_dev (icache s ip)) (di_addrs (idi s ip) NDIRECT) s) (\<lambda>_ s.
              Ret () (set_addr ip NDIRECT 0 s)))))
            else Ret () s) (\<lambda>_ s.
     iupdate ip (upd_di ip (\<lambda>d. d\<lparr>di_size := 0\<rparr>) s)))"

definition iput :: "nat \<Rightarrow> 'z kst_fs_scheme \<Rightarrow> (unit, 'z kst_fs_scheme) res" where
  "iput ip s =
     bindR (acquiresleep (SlInode ip) s) (\<lambda>_ s.
     bindR (if i_valid (icache s ip) \<noteq> 0 \<and> di_nlink (idi s ip) = 0 then
              bindR (acquire LkIcache s) (\<lambda>_ s.
              let r = i_ref (icache s ip) in
              bindR (release LkIcache s) (\<lambda>_ s.
              if r = 1 then
                bindR (itrunc ip s) (\<lambda>_ s.
                bindR (iupdate ip (upd_di ip (\<lambda>d. d\<lparr>di_type := 0\<rparr>) s)) (\<lambda>_ s.
                Ret () (upd_inode ip (\<lambda>i. i\<lparr>i_valid := 0\<rparr>) s)))
              else Ret () s))
            else Ret () s) (\<lambda>_ s.
     bindR (releasesleep (SlInode ip) s) (\<lambda>_ s.
     bindR (acquire LkIcache s) (\<lambda>_ s.
     release LkIcache (upd_inode ip (\<lambda>i. i\<lparr>i_ref := i_ref i - 1\<rparr>) s)))))"

definition iunlockput :: "nat \<Rightarrow> 'z kst_fs_scheme \<Rightarrow> (unit, 'z kst_fs_scheme) res" where
  "iunlockput ip s = bindR (iunlock ip s) (\<lambda>_ s. iput ip s)"

record stat =
  st_type :: ushort
  st_dev :: uint
  st_ino :: uint
  st_nlink :: ushort
  st_size :: uint

definition stati :: "nat \<Rightarrow> 'z kst_fs_scheme \<Rightarrow> stat" where
  "stati ip s = \<lparr>st_type = di_type (idi s ip), st_dev = i_dev (icache s ip), st_ino = i_inum (icache s ip),
     st_nlink = di_nlink (idi s ip), st_size = di_size (idi s ip)\<rparr>"

subsection \<open>Block operations inside a transaction\<close>

text \<open>
  \<open>tx_at p H v n s0 s\<close>: process \<open>p\<close> is inside a transaction that started from \<open>s0\<close>; it holds the buffers
  \<open>H\<close>, sees the blocks \<open>v\<close>, and has logged at most \<open>n\<close> blocks.
\<close>

definition tx_at :: "nat \<Rightarrow> nat set \<Rightarrow> (uint \<Rightarrow> bytes) \<Rightarrow> int \<Rightarrow> 'z kst_fs_scheme \<Rightarrow> 'z kst_fs_scheme \<Rightarrow> bool" where
  "tx_at p H v n s0 s \<longleftrightarrow> tx_inv p H s \<and> view s = v \<and> lgn s \<le> n \<and> tx_frame s0 s"

lemma tx_frame_fs: "tx_frame s s' \<Longrightarrow> sb s' = sb s" "tx_frame s s' \<Longrightarrow> icache s' = icache s"
  by (auto simp: tx_frame_def)

lemma tx_atD:
  assumes "tx_at p H v n s0 s"
  shows "tx_inv p H s" "view s = v" "lgn s \<le> n" "tx_frame s0 s" "sb s = sb s0" "icache s = icache s0"
    "disksize s = disksize s0" "in_log (klog s) = in_log (klog s0)" "lg_size (klog s) = lg_size (klog s0)"
    "finite H"
  using assms tx_frame_fs [of s0 s] tx_frameD(6,7,8) [of s0 s] tx_invD(3) [of p H s] by (auto simp: tx_at_def)

lemma tx_at_start: "tx_inv p H s \<Longrightarrow> tx_at p H (view s) (lgn s) s s"
  by (simp add: tx_at_def)

lemma upd_buf_data: "upd_buf q (\<lambda>k. k\<lparr>b_data := F (b_data k)\<rparr>) s = upd_buf q (\<lambda>k. k\<lparr>b_data := F (b_data (bufs s q))\<rparr>) s"
  by (simp add: upd_buf_def)

lemma at_bread:
  assumes s: "tx_at p H v n s0 s" and b: "b < disksize s0" "\<And>i. i \<in> H \<Longrightarrow> b_blockno (bufs s i) \<noteq> b"
    and r: "n + 4 \<le> lg_size (klog s0)" "card H \<le> 3"
  shows "wp (bread 1 b s) (\<lambda>q t. q \<notin> H \<and> tx_at p (insert q H) v n s0 t \<and> b_blockno (bufs t q) = b \<and>
    b_data (bufs t q) = v b \<and> (\<forall>j \<in> H. core (bufs t j) = core (bufs s j)))"
proof -
  note D = tx_atD [OF s]
  have "tx_room 0 s" using D(3,9) r(1) by (simp add: tx_room_def)
  then have "wp (bread 1 b s) (\<lambda>q t. q \<notin> H \<and> tx_inv p (insert q H) t \<and> b_blockno (bufs t q) = b \<and>
      b_data (bufs t q) = view s b \<and> view t = view s \<and> lgn t = lgn s \<and> tx_frame s t \<and>
      (\<forall>j. j \<noteq> q \<longrightarrow> bufs t j = bufs s j))"
    using D b r(2) by (intro tx_bread) simp_all
  then show ?thesis
  proof (rule wp_mono, elim conjE, intro conjI ballI)
    fix q t j assume "q \<notin> H" "\<forall>j. j \<noteq> q \<longrightarrow> bufs t j = bufs s j" "j \<in> H"
    then show "core (bufs t j) = core (bufs s j)" by metis
  qed (use D tx_frame_trans in \<open>auto simp: tx_at_def\<close>)
qed

lemma at_brelse:
  assumes s: "tx_at p H v n s0 s" and q: "q \<in> H"
  shows "wp (brelse q s) (\<lambda>_ t. tx_at p (H - {q}) v n s0 t \<and> (\<forall>j. j \<noteq> q \<longrightarrow> core (bufs t j) = core (bufs s j)))"
  using tx_brelse [OF tx_atD(1) [OF s] q] tx_atD [OF s]
  by (auto elim!: wp_mono intro: tx_frame_trans simp: tx_at_def)

lemma at_brelse_last:
  assumes s: "tx_at p (insert q H) v n s0 s" and q: "q \<notin> H"
  shows "wp (brelse q s) (\<lambda>_ t. tx_at p H v n s0 t \<and> (\<forall>j \<in> H. core (bufs t j) = core (bufs s j)))"
proof -
  have "insert q H - {q} = H" using q by auto
  then show ?thesis using at_brelse [OF s insertI1] q by (auto elim!: wp_mono)
qed

lemma at_write:
  assumes s: "tx_at p H v n s0 s" and q: "q \<in> H" and b: "b = b_blockno (bufs s q)" "\<not> in_log (klog s0) b"
    and r: "n + 5 \<le> lg_size (klog s0)"
  shows "wp (log_write q (upd_buf q (\<lambda>k. k\<lparr>b_data := d\<rparr>) s)) (\<lambda>_ t. tx_at p H (v(b := d)) (n + 1) s0 t \<and>
    b_blockno (bufs t q) = b \<and> b_data (bufs t q) = d \<and> (\<forall>j. j \<noteq> q \<longrightarrow> core (bufs t j) = core (bufs s j)))"
proof -
  note D = tx_atD [OF s]
  have "tx_room 1 s" using D(3,9) r(1) by (simp add: tx_room_def)
  then show ?thesis using tx_write [OF D(1) q b(1), of d] b(2) D
    by (auto elim!: wp_mono intro: tx_frame_trans simp: tx_at_def)
qed

text \<open>Writing a block and releasing it, the tail of most operations.\<close>

lemma at_write_brelse:
  assumes s: "tx_at p (insert q H) v n s0 s" and q: "q \<notin> H" and b: "b = b_blockno (bufs s q)" "\<not> in_log (klog s0) b"
    and r: "n + 5 \<le> lg_size (klog s0)"
    and Q: "\<And>t. tx_at p H (v(b := F (b_data (bufs s q)))) (n + 1) s0 t \<Longrightarrow> \<forall>j \<in> H. core (bufs t j) = core (bufs s j) \<Longrightarrow> Q () t"
  shows "wp (log_write q (upd_buf q (\<lambda>k. k\<lparr>b_data := F (b_data k)\<rparr>) s)) (\<lambda>_ s. wp (brelse q s) Q)"
  unfolding upd_buf_data
proof (rule wp_mono [OF at_write [OF s insertI1 b r]], elim conjE)
  fix u :: unit and t
  assume t: "tx_at p (insert q H) (v(b := F (b_data (bufs s q)))) (n + 1) s0 t" "\<forall>j. j \<noteq> q \<longrightarrow> core (bufs t j) = core (bufs s j)"
  have "insert q H - {q} = H" using q by auto
  then show "wp (brelse q t) Q" using at_brelse [OF t(1) insertI1] t(2) q Q
    by (elim wp_mono) (metis unit.exhaust)
qed

subsection \<open>The bitmap\<close>

lemma bit_used_iff: "bit_used d bi \<longleftrightarrow> bit (d (bi div 8)) (bi mod 8)"
  by (simp add: bit_used_def bit_iff_and_push_bit_not_eq_0)

lemma byte_index_eq: "bi div m = bj div m \<Longrightarrow> bi mod m = bj mod m \<Longrightarrow> bi = (bj :: nat)"
  by (metis div_mult_mod_eq)

lemma bit_used_mark: "bit_used (mark_bit bi d) bj \<longleftrightarrow> bi = bj \<or> bit_used d bj"
  by (auto simp: bit_used_iff mark_bit_def bit_simps dest: byte_index_eq)

lemma bit_used_clear: "bit_used (clear_bit bi d) bj \<longleftrightarrow> bi \<noteq> bj \<and> bit_used d bj"
  by (auto simp: bit_used_iff clear_bit_def bit_simps dest: byte_index_eq)

lemma clear_mark_bit: "\<not> bit_used d bi \<Longrightarrow> clear_bit bi (mark_bit bi d) = d"
proof (rule ext)
  fix i assume nu: "\<not> bit_used d bi"
  show "clear_bit bi (mark_bit bi d) i = d i"
  proof (cases "i = bi div 8")
    case True
    have "(d i OR push_bit (bi mod 8) 1) AND NOT (push_bit (bi mod 8) 1) = d i"
      using nu True by (intro bit_word_eqI) (auto simp: bit_used_iff bit_simps)
    then show ?thesis using True by (simp add: clear_bit_def mark_bit_def)
  qed (simp add: clear_bit_def mark_bit_def)
qed

lemma first_free_find: "first_free n bi d = find (\<lambda>j. \<not> bit_used d j) [bi..<bi + n]"
proof (induction n arbitrary: bi)
  case (Suc n)
  then show ?case using upt_rec [of bi "bi + Suc n"] by simp
qed simp

text \<open>Block \<open>j\<close> is in use, as the bitmap in the blocks \<open>v\<close> says.\<close>

definition used :: "superblock \<Rightarrow> (uint \<Rightarrow> bytes) \<Rightarrow> nat \<Rightarrow> bool" where
  "used sp v j \<longleftrightarrow> bit_used (v (BBLOCK (of_nat j) sp)) (j mod BPB)"

definition free_blocks :: "superblock \<Rightarrow> (uint \<Rightarrow> bytes) \<Rightarrow> nat set" where
  "free_blocks sp v = {j. j < unat (sb_size sp) \<and> \<not> used sp v j}"

definition bitmap :: "superblock \<Rightarrow> uint set" where
  "bitmap sp = (\<lambda>j. BBLOCK (of_nat j) sp) ` {..<unat (sb_size sp)}"

definition inode_blocks :: "superblock \<Rightarrow> uint set" where
  "inode_blocks sp = (\<lambda>i. IBLOCK (of_nat i) sp) ` {..<unat (sb_ninodes sp)}"

text \<open>A block that may hold data: on the disk and none of superblock, log, inodes and bitmap.\<close>

definition data_block :: "'z kst_fs_scheme \<Rightarrow> uint \<Rightarrow> bool" where
  "data_block s b \<longleftrightarrow> b \<noteq> 0 \<and> b \<noteq> 1 \<and> b < disksize s \<and> \<not> in_log (klog s) b \<and> b \<notin> bitmap (sb s) \<and> b \<notin> inode_blocks (sb s)"

text \<open>The layout of the file system: free blocks may hold data, and bitmap, inodes and superblock are
  apart, on the disk and outside of the log.\<close>

definition fs_ok :: "'z kst_fs_scheme \<Rightarrow> (uint \<Rightarrow> bytes) \<Rightarrow> bool" where
  "fs_ok s v \<longleftrightarrow> (\<forall>b \<in> bitmap (sb s) \<union> inode_blocks (sb s) \<union> {1}. b < disksize s \<and> \<not> in_log (klog s) b) \<and>
     bitmap (sb s) \<inter> inode_blocks (sb s) = {} \<and> 1 \<notin> bitmap (sb s) \<union> inode_blocks (sb s) \<and>
     sb_get (v 1) = sb s \<and> (\<forall>j \<in> free_blocks (sb s) v. data_block s (of_nat j))"

definition zeroed :: "bytes \<Rightarrow> bytes" where
  "zeroed d = (\<lambda>i. if i < BSIZE then 0 else d i)"

lemma bzero_ok:
  assumes s: "tx_at p H v n s0 s" and b: "b < disksize s0" "\<not> in_log (klog s0) b" "\<And>i. i \<in> H \<Longrightarrow> b_blockno (bufs s i) \<noteq> b"
    and r: "n + 5 \<le> lg_size (klog s0)" "card H \<le> 3"
  shows "wp (bzero 1 b s) (\<lambda>_ t. tx_at p H (v(b := zeroed (v b))) (n + 1) s0 t \<and> (\<forall>j \<in> H. core (bufs t j) = core (bufs s j)))"
  unfolding bzero_def wp_bindR Let_def
proof (rule wp_mono [OF at_bread [OF s b(1,3) _ r(2)]], goal_cases)
  case (3 q t)
  then have q: "q \<notin> H" and t: "tx_at p (insert q H) v n s0 t" "b_blockno (bufs t q) = b" "b_data (bufs t q) = v b"
    "\<forall>j \<in> H. core (bufs t j) = core (bufs s j)" by blast+
  show ?case
    using at_write_brelse [OF t(1) q t(2) [symmetric] b(2) r(1), where F = zeroed and
        Q = "\<lambda>_ t. tx_at p H (v(b := zeroed (v b))) (n + 1) s0 t \<and> (\<forall>j \<in> H. core (bufs t j) = core (bufs s j))"] t
    by (simp add: zeroed_def)
qed (use r in simp_all)

lemma BBLOCK_of_nat: "j < 2 ^ 32 \<Longrightarrow> BBLOCK (of_nat j) sp = of_nat (j div BPB) + sb_bmapstart sp"
  by (simp add: BBLOCK_def BPB_def BSIZE_def word_arith_nat_div unat_of_nat32)

text \<open>
  The blocks after the allocation of block \<open>j\<close>: its bit is set and it is zeroed.
\<close>

definition allocated :: "superblock \<Rightarrow> nat \<Rightarrow> (uint \<Rightarrow> bytes) \<Rightarrow> uint \<Rightarrow> bytes" where
  "allocated sp j v =
     (let bm = BBLOCK (of_nat j) sp; v = v(bm := mark_bit (j mod BPB) (v bm))
      in v(of_nat j := zeroed (v (of_nat j))))"

lemma bitmap_chunk:
  fixes sp :: superblock and b j :: nat
  defines "sz \<equiv> unat (sb_size sp)"
  assumes j: "j < sz" "\<not> used sp v j" "\<forall>i < j. used sp v i" and b: "BPB dvd b" "b \<le> j"
  shows "first_free (min BPB (sz - b)) 0 (v (BBLOCK (of_nat b) sp)) = (if j < b + BPB then Some (j - b) else None)" (is ?ff)
    and "j < b + BPB \<Longrightarrow> BBLOCK (of_nat j) sp = BBLOCK (of_nat b) sp \<and> j mod BPB = j - b" (is "_ \<Longrightarrow> ?jj")
proof -
  define d where "d = v (BBLOCK (of_nat b) sp)"
  have sz: "sz < 2 ^ 32" using unat32_less [of "sb_size sp"] by (simp add: sz_def)
  have chunk: "BBLOCK (of_nat (b + i)) sp = BBLOCK (of_nat b) sp" "(b + i) mod BPB = i" if "i < BPB" "b + i < sz" for i
    using that b(1) sz by (auto simp: BBLOCK_of_nat simp del: of_nat_add of_nat_mult elim!: dvdE)
  show ?jj if "j < b + BPB" using chunk [of "j - b"] that b(2) j(1) by simp
  have used: "used sp v (b + i) \<longleftrightarrow> bit_used d i" if "i < BPB" "b + i < sz" for i
    using chunk [OF that] by (simp add: used_def d_def)
  show ?ff unfolding d_def [symmetric]
  proof (cases "j < b + BPB")
    case True
    have "bit_used d i" if "i < j - b" for i
      using used [of i] j(3) [rule_format, of "b + i"] that True j(1) by simp
    moreover have "\<not> bit_used d (j - b)" using used [of "j - b"] j(1,2) True b(2) by simp
    moreover have "j - b < min BPB (sz - b)" using True j(1) b(2) by auto
    ultimately show "first_free (min BPB (sz - b)) 0 d = (if j < b + BPB then Some (j - b) else None)"
      using True by (simp add: first_free_find find_upt_Some)
  next
    case False
    have "bit_used d i" if "i < BPB" "i < sz - b" for i
      using used [of i] j(3) [rule_format, of "b + i"] that False by simp
    then show "first_free (min BPB (sz - b)) 0 d = (if j < b + BPB then Some (j - b) else None)"
      using False by (simp add: first_free_find find_upt_None)
  qed
qed

lemma balloc_loop_ok:
  assumes s: "tx_at p H v n s0 s" and ok: "fs_ok s0 v" and r: "n + 6 \<le> lg_size (klog s0)" "card H \<le> 3"
    and H: "\<And>i k. i \<in> H \<Longrightarrow> k < unat (sb_size (sb s0)) \<Longrightarrow> b_blockno (bufs s i) \<noteq> BBLOCK (of_nat k) (sb s0)"
    and j: "j < unat (sb_size (sb s0))" "\<not> used (sb s0) v j" "\<forall>i < j. used (sb s0) v i"
    and jb: "of_nat j < disksize s0" "\<not> in_log (klog s0) (of_nat j)" "\<And>i. i \<in> H \<Longrightarrow> b_blockno (bufs s i) \<noteq> of_nat j"
    and b: "BPB dvd b" "b \<le> j" "j < b + k * BPB"
  shows "wp (balloc_loop k b 1 s) (\<lambda>r t. r = of_nat j \<and> tx_at p H (allocated (sb s0) j v) (n + 2) s0 t \<and>
    (\<forall>i \<in> H. core (bufs t i) = core (bufs s i)))"
  using s H jb(3) b
proof (induction k arbitrary: b s)
  case (Suc k)
  define sz where "sz = unat (sb_size (sb s0))"
  note D = tx_atD [OF Suc.prems(1)]
  have bsz: "b < sz" using Suc.prems(5) j(1) by (simp add: sz_def)
  have bb: "BBLOCK (of_nat b) (sb s0) < disksize s0" "\<not> in_log (klog s0) (BBLOCK (of_nat b) (sb s0))"
    using ok bsz by (auto simp: fs_ok_def bitmap_def sz_def)
  have bH: "b_blockno (bufs s i) \<noteq> BBLOCK (of_nat b) (sb s0)" if "i \<in> H" for i
    using Suc.prems(2) [OF that] bsz by (simp add: sz_def)
  define d where "d = v (BBLOCK (of_nat b) (sb s0))"
  note ch = bitmap_chunk [OF j Suc.prems(4,5), folded sz_def d_def]
  note ff = ch(1)
  show ?case
    unfolding balloc_loop.simps wp_bindR D(5)
  proof (rule wp_mono [OF at_bread [OF Suc.prems(1) bb(1) bH _ r(2)]], goal_cases)
    case (3 q t)
    then have q: "q \<notin> H" and t: "tx_at p (insert q H) v n s0 t" "b_blockno (bufs t q) = BBLOCK (of_nat b) (sb s0)"
      "b_data (bufs t q) = d" "\<forall>j \<in> H. core (bufs t j) = core (bufs s j)" by (auto simp: d_def)
    note E = tx_atD [OF t(1)]
    show ?case
    proof (cases "j < b + BPB")
      case True
      have jj: "BBLOCK (of_nat j) (sb s0) = BBLOCK (of_nat b) (sb s0)" "j mod BPB = j - b"
        using ch(2) [OF True] by simp_all
      define w where "w = v(BBLOCK (of_nat b) (sb s0) := mark_bit (j - b) d)"
      have al: "allocated (sb s0) j v = w(of_nat j := zeroed (w (of_nat j)))"
        by (simp only: allocated_def Let_def jj d_def w_def)
      have "wp (log_write q (upd_buf q (\<lambda>k. k\<lparr>b_data := mark_bit (j - b) (b_data k)\<rparr>) t)) (\<lambda>_ t. wp (brelse q t) (\<lambda>_ t.
          wp (bzero 1 (of_nat j) t) (\<lambda>_ t. tx_at p H (allocated (sb s0) j v) (n + 2) s0 t \<and>
            (\<forall>i \<in> H. core (bufs t i) = core (bufs s i)))))"
      proof (rule at_write_brelse [OF t(1) q t(2) [symmetric] bb(2)], goal_cases)
        case (2 u)
        note 2 = 2 [unfolded t(3), folded w_def]
        have "b_blockno (bufs u i) \<noteq> of_nat j" if "i \<in> H" for i
          using Suc.prems(3) [OF that] core_eqD(3) 2(2) t(4) that by metis
        then show ?case
          by (rule wp_mono [OF bzero_ok [OF 2(1) jb(1,2) _ _ r(2)]])
            (use 2(2) t(3,4) r(1) in \<open>simp_all add: al add.assoc del: fun_upd_apply\<close>)
      qed (use r in simp)
      then show ?thesis using True ff t(3) E(5) Suc.prems(5) by (simp add: sz_def wp_bindR Let_def)
    next
      case False
      have "wp (brelse q t) (\<lambda>_ t. wp (balloc_loop k (b + BPB) 1 t) (\<lambda>r t. r = of_nat j \<and>
          tx_at p H (allocated (sb s0) j v) (n + 2) s0 t \<and> (\<forall>i \<in> H. core (bufs t i) = core (bufs s i))))"
      proof (rule wp_mono [OF at_brelse [OF t(1) insertI1]], elim conjE)
        fix x :: unit and u
        assume u: "tx_at p (insert q H - {q}) v n s0 u" "\<forall>j. j \<noteq> q \<longrightarrow> core (bufs u j) = core (bufs t j)"
        have c: "\<forall>i \<in> H. core (bufs u i) = core (bufs s i)" using u(2) t(4) q by metis
        have bn: "b_blockno (bufs u i) = b_blockno (bufs s i)" if "i \<in> H" for i using c that core_eqD(3) by blast
        show "wp (balloc_loop k (b + BPB) 1 u) (\<lambda>r t. r = of_nat j \<and>
          tx_at p H (allocated (sb s0) j v) (n + 2) s0 t \<and> (\<forall>i \<in> H. core (bufs t i) = core (bufs s i)))"
          using Suc.IH [of u "b + BPB"] u(1) q Suc.prems(2-6) False c by (simp add: bn)
      qed
      then show ?thesis using False ff t(3) E(5) by (simp add: sz_def wp_bindR)
    qed
  qed (use r in simp_all)
qed simp
lemma bitmapI: "i < unat (sb_size sp) \<Longrightarrow> BBLOCK (of_nat i) sp \<in> bitmap sp"
  by (simp add: bitmap_def)

lemma free_blocks_less: "j \<in> free_blocks sp v \<Longrightarrow> j < 2 ^ 32"
  using unat32_less [of "sb_size sp"] by (simp add: free_blocks_def)

lemma BBLOCK_eq_iff:
  assumes "i < unat (sb_size sp)" "j < unat (sb_size sp)"
  shows "BBLOCK (of_nat i) sp = BBLOCK (of_nat j) sp \<longleftrightarrow> i div BPB = j div BPB"
proof -
  have "i < 2 ^ 32" "j < 2 ^ 32" using assms unat32_less [of "sb_size sp"] by simp_all
  moreover have "i div BPB < 2 ^ 32" "j div BPB < 2 ^ 32" using calculation div_le_dividend [of i BPB] div_le_dividend [of j BPB] by linarith+
  ultimately show ?thesis using unat_of_nat32 [of "i div BPB"] unat_of_nat32 [of "j div BPB"]
    by (simp add: BBLOCK_of_nat) metis
qed

lemma allocated_props:
  assumes ok: "fs_ok s v" and j: "j \<in> free_blocks (sb s) v"
  defines "w \<equiv> allocated (sb s) j v"
  shows "i < unat (sb_size (sb s)) \<Longrightarrow> used (sb s) w i \<longleftrightarrow> i = j \<or> used (sb s) v i"
    and "c \<notin> bitmap (sb s) \<Longrightarrow> c \<noteq> of_nat j \<Longrightarrow> w c = v c" and "w (of_nat j) = zeroed (v (of_nat j))"
    and "free_blocks (sb s) w = free_blocks (sb s) v - {j}" and "fs_ok s w"
proof -
  have dj: "data_block s (of_nat j)" and j': "j < unat (sb_size (sb s))" "\<not> used (sb s) v j"
    using ok j by (auto simp: fs_ok_def free_blocks_def)
  have bm: "BBLOCK (of_nat i) (sb s) \<noteq> of_nat j" if "i < unat (sb_size (sb s))" for i
    using dj bitmapI [OF that] by (auto simp: data_block_def)
  have w: "w c = (if c = of_nat j then zeroed (v c) else if c = BBLOCK (of_nat j) (sb s)
      then mark_bit (j mod BPB) (v c) else v c)" for c
    using bm [OF j'(1)] by (auto simp: w_def allocated_def Let_def)
  show u: "used (sb s) w i \<longleftrightarrow> i = j \<or> used (sb s) v i" if i: "i < unat (sb_size (sb s))" for i
  proof (cases "i div BPB = j div BPB")
    case True
    then have "i = j \<longleftrightarrow> j mod BPB = i mod BPB" using byte_index_eq [of i BPB j] by metis
    then show ?thesis using bm [OF i] BBLOCK_eq_iff [OF i j'(1)] True by (simp add: used_def w bit_used_mark)
  next
    case False
    then show ?thesis using bm [OF i] BBLOCK_eq_iff [OF i j'(1)] by (auto simp: used_def w)
  qed
  show ow: "w c = v c" if "c \<notin> bitmap (sb s)" "c \<noteq> of_nat j" for c
    using that bitmapI [OF j'(1)] by (auto simp: w)
  show "w (of_nat j) = zeroed (v (of_nat j))" by (simp add: w)
  show f: "free_blocks (sb s) w = free_blocks (sb s) v - {j}" using u by (auto simp: free_blocks_def)
  have "w 1 = v 1" using ow [of 1] ok dj by (auto simp: fs_ok_def data_block_def)
  then show "fs_ok s w" using ok by (simp add: fs_ok_def f)
qed

lemma balloc_ok:
  assumes s: "tx_at p H v n s0 s" and ok: "fs_ok s0 v" and r: "n + 6 \<le> lg_size (klog s0)" "card H \<le> 3"
    and H: "\<And>i. i \<in> H \<Longrightarrow> b_blockno (bufs s i) \<notin> bitmap (sb s0) \<and> unat (b_blockno (bufs s i)) \<notin> free_blocks (sb s0) v"
    and f: "free_blocks (sb s0) v \<noteq> {}"
  shows "wp (balloc 1 s) (\<lambda>a t. \<exists>j \<in> free_blocks (sb s0) v. (\<forall>i < j. i \<notin> free_blocks (sb s0) v) \<and> a = of_nat j \<and>
    tx_at p H (allocated (sb s0) j v) (n + 2) s0 t \<and> (\<forall>i \<in> H. core (bufs t i) = core (bufs s i)))"
proof -
  define j where "j = (LEAST j. j \<in> free_blocks (sb s0) v)"
  have j: "j \<in> free_blocks (sb s0) v" "\<forall>i < j. i \<notin> free_blocks (sb s0) v"
    using f LeastI_ex [of "\<lambda>j. j \<in> free_blocks (sb s0) v"] not_less_Least by (auto simp: j_def)
  then have j': "j < unat (sb_size (sb s0))" "\<not> used (sb s0) v j" "\<forall>i < j. used (sb s0) v i"
    by (auto simp: free_blocks_def)
  have dj: "of_nat j < disksize s0" "\<not> in_log (klog s0) (of_nat j)" using ok j(1) by (auto simp: fs_ok_def data_block_def)
  have "b_blockno (bufs s i) \<noteq> of_nat j" if "i \<in> H" for i
    using H [OF that] j(1) free_blocks_less [OF j(1)] by (auto simp: unat_of_nat32)
  moreover have "b_blockno (bufs s i) \<noteq> BBLOCK (of_nat k) (sb s0)" if "i \<in> H" "k < unat (sb_size (sb s0))" for i k
    using H [OF that(1)] bitmapI [OF that(2)] by auto
  moreover have "j < 0 + (unat (sb_size (sb s0)) + BPB - 1) div BPB * BPB"
  proof -
    have "unat (sb_size (sb s0)) \<le> (unat (sb_size (sb s0)) + BPB - 1) div BPB * BPB"
      using j'(1) div_mult_mod_eq [of "unat (sb_size (sb s0)) + BPB - 1" BPB] mod_less_divisor [of BPB "unat (sb_size (sb s0)) + BPB - 1"]
      by (simp add: BPB_def BSIZE_def)
    then show ?thesis using j'(1) by simp
  qed
  ultimately have "wp (balloc_loop ((unat (sb_size (sb s0)) + BPB - 1) div BPB) 0 1 s) (\<lambda>r t. r = of_nat j \<and>
      tx_at p H (allocated (sb s0) j v) (n + 2) s0 t \<and> (\<forall>i \<in> H. core (bufs t i) = core (bufs s i)))"
    using balloc_loop_ok [OF s ok r _ j' dj, of 0] by simp
  then show ?thesis using j tx_atD(5) [OF s] by (auto simp: balloc_def elim!: wp_mono)
qed

text \<open>With no free block the scan ends in the panic.\<close>

lemma balloc_loop_full:
  assumes s: "tx_at p H v n s0 s" and ok: "fs_ok s0 v" and r: "n + 4 \<le> lg_size (klog s0)" "card H \<le> 3"
    and H: "\<And>i. i \<in> H \<Longrightarrow> b_blockno (bufs s i) \<notin> bitmap (sb s0)"
    and f: "free_blocks (sb s0) v = {}" and b: "BPB dvd b" "0 < k \<longrightarrow> b + (k - 1) * BPB < unat (sb_size (sb s0))"
  shows "balloc_loop k b 1 s = Panic ''balloc: out of blocks''"
  using s H b
proof (induction k arbitrary: b s)
  case (Suc k)
  note D = tx_atD [OF Suc.prems(1)]
  have bsz: "b < unat (sb_size (sb s0))" using Suc.prems(4) by simp
  have bb: "BBLOCK (of_nat b) (sb s0) < disksize s0" "BBLOCK (of_nat b) (sb s0) \<in> bitmap (sb s0)"
    using ok bsz by (auto simp: fs_ok_def bitmap_def)
  have bn: "b_blockno (bufs s i) \<noteq> BBLOCK (of_nat b) (sb s0)" if "i \<in> H" for i using Suc.prems(2) [OF that] bb(2) by metis
  obtain q t where q: "bread 1 (BBLOCK (of_nat b) (sb s0)) s = Ret q t" "q \<notin> H" "tx_at p (insert q H) v n s0 t"
      "b_data (bufs t q) = v (BBLOCK (of_nat b) (sb s0))" "\<forall>j \<in> H. core (bufs t j) = core (bufs s j)"
    by (rule wpE [OF at_bread [OF Suc.prems(1) bb(1) bn r]]) auto
  obtain u where u: "brelse q t = Ret () u" "tx_at p H v n s0 u" "\<forall>j \<in> H. core (bufs u j) = core (bufs t j)"
    by (rule wpE [OF at_brelse_last [OF q(3,2)]]) auto
  have "first_free (min BPB (unat (sb_size (sb s0)) - b)) 0 (v (BBLOCK (of_nat b) (sb s0))) = None"
    unfolding first_free_find find_upt_None
  proof (intro allI impI, elim conjE)
    fix i assume i: "i < 0 + min BPB (unat (sb_size (sb s0)) - b)"
    have bi: "b + i < unat (sb_size (sb s0))" using i by auto
    have "used (sb s0) v (b + i)" using f bi by (auto simp: free_blocks_def)
    moreover have "(b + i) div BPB = b div BPB" "(b + i) mod BPB = i" using i Suc.prems(3) by (auto elim!: dvdE)
    ultimately show "\<not> \<not> bit_used (v (BBLOCK (of_nat b) (sb s0))) i"
      using BBLOCK_eq_iff [OF bi bsz] by (simp add: used_def)
  qed
  moreover have "balloc_loop k (b + BPB) 1 u = Panic ''balloc: out of blocks''"
  proof (rule Suc.IH [OF u(2)])
    show "b_blockno (bufs u i) \<notin> bitmap (sb s0)" if "i \<in> H" for i
      using Suc.prems(2) [OF that] u(3) q(5) that core_eqD(3) by metis
    show "0 < k \<longrightarrow> b + BPB + (k - 1) * BPB < unat (sb_size (sb s0))" using Suc.prems(4) by (cases k) auto
  qed (use Suc.prems(3) in simp)
  ultimately show ?case using q(1,4) u(1) D(5) tx_atD(5) [OF q(3)] by simp
qed simp

lemma bfree_ok:
  assumes s: "tx_at p H v n s0 s" and ok: "fs_ok s0 v" and r: "n + 5 \<le> lg_size (klog s0)" "card H \<le> 3"
    and H: "\<And>i. i \<in> H \<Longrightarrow> b_blockno (bufs s i) \<notin> insert 1 (bitmap (sb s0))"
    and b: "b < sb_size (sb s0)" "used (sb s0) v (unat b)"
  shows "wp (bfree 1 b s) (\<lambda>_ t. tx_at p H (v(BBLOCK b (sb s0) := clear_bit (unat b mod BPB) (v (BBLOCK b (sb s0))))) (n + 1) s0 t \<and>
    (\<forall>i \<in> H. core (bufs t i) = core (bufs s i)))"
proof -
  have bm: "BBLOCK b (sb s0) \<in> bitmap (sb s0)" "BBLOCK b (sb s0) < disksize s0" "\<not> in_log (klog s0) (BBLOCK b (sb s0))" "1 < disksize s0"
    using ok b(1) image_eqI [of _ "\<lambda>j. BBLOCK (of_nat j) (sb s0)" "unat b"] by (auto simp: fs_ok_def bitmap_def word_less_nat_alt)
  obtain q t where q: "bread 1 1 s = Ret q t" "q \<notin> H" "tx_at p (insert q H) v n s0 t"
      "b_data (bufs t q) = v 1" "\<forall>j \<in> H. core (bufs t j) = core (bufs s j)"
    by (rule wpE [OF at_bread [OF s bm(4) _ _ r(2)]]) (use H r in auto)
  obtain u where u: "brelse q t = Ret () u" "tx_at p H v n s0 u" "\<forall>j \<in> H. core (bufs u j) = core (bufs s j)"
    by (rule wpE [OF at_brelse_last [OF q(3,2)]]) (use q(5) in auto)
  have sb: "u\<lparr>sb := sb s0\<rparr> = u" using tx_atD(5) [OF u(2)] by simp
  have rd: "readsb 1 s = Ret (sb s0) u" using q(1,4) u(1) ok by (simp add: readsb_def Let_def fs_ok_def)
  obtain q' t' where q': "bread 1 (BBLOCK b (sb s0)) u = Ret q' t'" "q' \<notin> H" "tx_at p (insert q' H) v n s0 t'"
      "b_blockno (bufs t' q') = BBLOCK b (sb s0)" "b_data (bufs t' q') = v (BBLOCK b (sb s0))" "\<forall>j \<in> H. core (bufs t' j) = core (bufs u j)"
  proof (rule wpE [OF at_bread [OF u(2) bm(2) _ _ r(2)]])
    show "b_blockno (bufs u i) \<noteq> BBLOCK b (sb s0)" if "i \<in> H" for i
      using H [OF that] bm(1) u(3) that core_eqD(3) by (metis insertI2)
  qed (use r in auto)
  have "bit_used (v (BBLOCK b (sb s0))) (unat b mod BPB)" using b(2) by (simp add: used_def)
  then show ?thesis
    using at_write_brelse [OF q'(3,2) q'(4) [symmetric] bm(3) r(1), where F = "clear_bit (unat b mod BPB)" and
        Q = "\<lambda>_ t. tx_at p H (v(BBLOCK b (sb s0) := clear_bit (unat b mod BPB) (v (BBLOCK b (sb s0))))) (n + 1) s0 t \<and>
               (\<forall>i \<in> H. core (bufs t i) = core (bufs s i))"] u(3) q'(1,5,6) tx_atD(5) [OF u(2)]
    by (simp add: bfree_def rd sb Let_def wp_bindR)
qed

end
