(* ===== verification/Xv6_Uaccess.thy ===== *)
theory Xv6_Uaccess
  imports Xv6_Proc
begin

section \<open>Page faults, user memory and system call arguments (trap.c, syscall.c)\<close>

text \<open>
  Inside a system call the kernel reads and writes user memory through the page table of the
  process. Pages above the break that \<open>sbrk\<close> has moved are not mapped until they are touched: the
  access faults, \<open>trap\<close> handles \<open>T_PGFLT\<close>, and the access is repeated. \<open>page_fault\<close> is that case of
  \<open>trap\<close>; \<open>uaccess\<close> is an access, which translates the address as the hardware does. An access that
  faults again after the fault was handled is repeated for ever and has no outcome.
  On top of it, the functions of \<open>syscall.c\<close> that fetch system call arguments.
\<close>

subsection \<open>The page fault handler\<close>

definition set_killed :: "nat \<Rightarrow> 'z kst_proc_scheme \<Rightarrow> 'z kst_proc_scheme" where
  "set_killed p s = upd_proc p (\<lambda>q. q\<lparr>p_killed := True\<rparr>) s"

text \<open>\<open>myproc()->sz\<close> is read before the test for a null \<open>myproc()\<close>.\<close>

definition page_fault :: "addr \<Rightarrow> 'z kst_proc_scheme \<Rightarrow> (unit, 'z kst_proc_scheme) res" where
  "page_fault va s =
     (let dirPageErr = PGROUNDDOWN va in
      bindR (myproc s) (\<lambda>cp s.
      case cp of None \<Rightarrow> Undef
      | Some p \<Rightarrow>
          if va \<ge> p_sz (procs s p) then Ret () (set_killed p s)
          else if dirPageErr = p_guard_page (procs s p) then Ret () (set_killed p s)
          else
            bindR (kalloc s) (\<lambda>pg s.
            if pg = 0 then Ret () (set_killed p s)
            else
              let s = s\<lparr>mem := memset (mem s) pg 0 PGSIZE\<rparr> in
              bindR (mappages (p_pgdir (procs s p)) dirPageErr PGSIZE (V2P pg) (PTE_W OR PTE_U) s) (\<lambda>r s.
              if r < 0 then bindR (kfree pg s) (\<lambda>_ s. Ret () (set_killed p s))
              else Ret () s))))"

subsection \<open>Access to user memory\<close>

definition uphys :: "nat \<Rightarrow> addr \<Rightarrow> 'z kst_proc_scheme \<Rightarrow> addr option" where
  "uphys p va s = map_option (\<lambda>w. P2V (PTE_ADDR w) + (va AND 0xFFF)) (mapping (mem s) (p_pgdir (procs s p)) va)"

definition uaccess :: "addr \<Rightarrow> 'z kst_proc_scheme \<Rightarrow> (addr, 'z kst_proc_scheme) res" where
  "uaccess va s =
     bindR (myproc s) (\<lambda>cp s.
     case cp of None \<Rightarrow> Undef
     | Some p \<Rightarrow>
         case uphys p va s of Some a \<Rightarrow> Ret a s
         | None \<Rightarrow> bindR (page_fault va s) (\<lambda>_ s.
                     case uphys p va s of Some a \<Rightarrow> Ret a s | None \<Rightarrow> Undef))"

definition uload :: "addr \<Rightarrow> 'z kst_proc_scheme \<Rightarrow> (uchar, 'z kst_proc_scheme) res" where
  "uload va s = bindR (uaccess va s) (\<lambda>a s. Ret (mem s a) s)"

definition ustore :: "addr \<Rightarrow> uchar \<Rightarrow> 'z kst_proc_scheme \<Rightarrow> (unit, 'z kst_proc_scheme) res" where
  "ustore va b s = bindR (uaccess va s) (\<lambda>a s. Ret () (s\<lparr>mem := (mem s)(a := b)\<rparr>))"

primrec uload_bytes :: "nat \<Rightarrow> addr \<Rightarrow> 'z kst_proc_scheme \<Rightarrow> (uchar list, 'z kst_proc_scheme) res" where
  "uload_bytes 0 va s = Ret [] s"
| "uload_bytes (Suc n) va s =
     bindR (uload va s) (\<lambda>b s. bindR (uload_bytes n (va + 1) s) (\<lambda>bs s. Ret (b # bs) s))"

primrec ustore_bytes :: "addr \<Rightarrow> uchar list \<Rightarrow> 'z kst_proc_scheme \<Rightarrow> (unit, 'z kst_proc_scheme) res" where
  "ustore_bytes va [] s = Ret () s"
| "ustore_bytes va (b # bs) s = bindR (ustore va b s) (\<lambda>_ s. ustore_bytes (va + 1) bs s)"

definition uload32 :: "addr \<Rightarrow> 'z kst_proc_scheme \<Rightarrow> (uint, 'z kst_proc_scheme) res" where
  "uload32 va s = bindR (uload_bytes 4 va s) (\<lambda>bs s. Ret (le32 (bs ! 0) (bs ! 1) (bs ! 2) (bs ! 3)) s)"

definition ustore32 :: "addr \<Rightarrow> uint \<Rightarrow> 'z kst_proc_scheme \<Rightarrow> (unit, 'z kst_proc_scheme) res" where
  "ustore32 va w s = ustore_bytes va [byte_of 0 w, byte_of 1 w, byte_of 2 w, byte_of 3 w] s"

subsection \<open>Fetching arguments\<close>

text \<open>The value a function stores through a pointer is part of its result: \<open>None\<close> for the return
  value -1, when nothing is stored.\<close>

definition fetchint :: "uint \<Rightarrow> 'z kst_proc_scheme \<Rightarrow> (uint option, 'z kst_proc_scheme) res" where
  "fetchint va s =
     bindR (myproc s) (\<lambda>cp s.
     case cp of None \<Rightarrow> Undef
     | Some p \<Rightarrow>
         if va \<ge> p_sz (procs s p) \<or> va + 4 > p_sz (procs s p) then Ret None s
         else bindR (uload32 va s) (\<lambda>w s. Ret (Some w) s))"

text \<open>The loop of \<open>fetchstr\<close>: the bytes before the terminating null.\<close>

function fetchstr_loop :: "addr \<Rightarrow> addr \<Rightarrow> 'z kst_proc_scheme \<Rightarrow> (uchar list option, 'z kst_proc_scheme) res" where
  "fetchstr_loop c ep s =
     (if c < ep
      then bindR (uload c s) (\<lambda>b s.
             if b = 0 then Ret (Some []) s
             else bindR (fetchstr_loop (c + 1) ep s) (\<lambda>r s. Ret (map_option ((#) b) r) s))
      else Ret None s)"
  by pat_completeness auto
termination
proof (relation "measure (\<lambda>(c, ep, _). unat ep - unat c)", simp, clarsimp)
  fix c ep :: addr assume lt: "c < ep"
  then have "unat (c + 1) = unat c + 1"
    using unat32_less [of ep] by (simp add: word_less_nat_alt unat_word_ariths)
  with lt show "unat ep - unat (c + 1) < unat ep - unat c" by (simp add: word_less_nat_alt)
qed

declare fetchstr_loop.simps [simp del]

definition fetchstr :: "uint \<Rightarrow> 'z kst_proc_scheme \<Rightarrow> (uchar list option, 'z kst_proc_scheme) res" where
  "fetchstr va s =
     bindR (myproc s) (\<lambda>cp s.
     case cp of None \<Rightarrow> Undef
     | Some p \<Rightarrow> if va \<ge> p_sz (procs s p) then Ret None s else fetchstr_loop va (p_sz (procs s p)) s)"

definition argint :: "nat \<Rightarrow> 'z kst_proc_scheme \<Rightarrow> (uint option, 'z kst_proc_scheme) res" where
  "argint n s =
     bindR (myproc s) (\<lambda>cp s.
     case cp of None \<Rightarrow> Undef
     | Some p \<Rightarrow> fetchint (tf_esp (p_tf (procs s p)) + 4 + 4 * of_nat n) s)"

definition argptr :: "nat \<Rightarrow> int \<Rightarrow> 'z kst_proc_scheme \<Rightarrow> (addr option, 'z kst_proc_scheme) res" where
  "argptr n sz s =
     bindR (myproc s) (\<lambda>cp s.
     bindR (argint n s) (\<lambda>i s.
     case cp of None \<Rightarrow> Undef
     | Some p \<Rightarrow>
         case i of None \<Rightarrow> Ret None s
         | Some i \<Rightarrow>
             if sz < 0 \<or> i \<ge> p_sz (procs s p) \<or> i + of_int sz > p_sz (procs s p) then Ret None s
             else Ret (Some i) s))"

text \<open>The string itself stands for the pointer to it: user memory does not change while the
  system call runs.\<close>

definition argstr :: "nat \<Rightarrow> 'z kst_proc_scheme \<Rightarrow> (uchar list option, 'z kst_proc_scheme) res" where
  "argstr n s =
     bindR (argint n s) (\<lambda>a s.
     case a of None \<Rightarrow> Ret None s | Some a \<Rightarrow> fetchstr a s)"

end
