(* ===== verification/Xv6_Fs.thy ===== *)
theory Xv6_Fs
  imports Xv6_Inode Xv6_Uaccess
begin

section \<open>Files, directories and paths (fs.c, console.c)\<close>

text \<open>
  \<open>readi\<close> returns the bytes it delivers beside its result, and \<open>writei\<close> takes the bytes it stores: the
  callers move them between the kernel and user memory. The console is the only device of the
  device table. A path is the list of its characters before the terminating null.
\<close>

subsection \<open>The console device\<close>

text \<open>\<open>sleep\<close> in the middle of an operation: the process is switched out, and what follows runs when it
  is scheduled again.\<close>

definition sleep_then :: "chan \<Rightarrow> lockid \<Rightarrow> 'z kst_proc_scheme \<Rightarrow> ('a, 'z kst_proc_scheme) res" where
  "sleep_then ch lk s = bindR (sleep ch lk s) (\<lambda>_ _. Undef)"

fun consoleread_loop :: "nat \<Rightarrow> nat \<Rightarrow> nat \<Rightarrow> uchar list \<Rightarrow> 'z kst_fs_scheme \<Rightarrow> (int \<times> uchar list, 'z kst_fs_scheme) res" where
  "consoleread_loop ip target n dst s =
     (let finish = (\<lambda>n dst s. bindR (release LkCons s) (\<lambda>_ s. bindR (ilock ip s) (\<lambda>_ s.
            Ret (int target - int n, dst) s)))
      in case n of 0 \<Rightarrow> finish 0 dst s
      | Suc k \<Rightarrow>
          if in_r s = in_w s then
            bindR (myproc s) (\<lambda>cp s.
            case cp of None \<Rightarrow> Undef
            | Some p \<Rightarrow>
                if p_killed (procs s p)
                then bindR (release LkCons s) (\<lambda>_ s. bindR (ilock ip s) (\<lambda>_ s. Ret (- 1, dst) s))
                else sleep_then ChInput LkCons s)
          else
            let c = in_buf s (unat (in_r s) mod INPUT_BUF); s = s\<lparr>in_r := in_r s + 1\<rparr> in
            if ucast c = ctrl CHR ''D''
            then finish n dst (if n < target then s\<lparr>in_r := in_r s - 1\<rparr> else s)
            else if c = 10 then finish k (dst @ [c]) s
            else consoleread_loop ip target k (dst @ [c]) s)"

declare consoleread_loop.simps [simp del]

definition consoleread :: "nat \<Rightarrow> int \<Rightarrow> 'z kst_fs_scheme \<Rightarrow> (int \<times> uchar list, 'z kst_fs_scheme) res" where
  "consoleread ip n s =
     bindR (iunlock ip s) (\<lambda>_ s.
     bindR (acquire LkCons s) (\<lambda>_ s.
     consoleread_loop ip (nat n) (nat n) [] s))"

definition consoleread_return ::
  "bool \<Rightarrow> nat \<Rightarrow> nat \<Rightarrow> nat \<Rightarrow> nat \<Rightarrow> uchar list \<Rightarrow> 'z kst_fs_scheme \<Rightarrow> (int \<times> uchar list, 'z kst_fs_scheme) res" where
  "consoleread_return ie p ip target n dst s =
     bindR (sleep_return ie p LkCons s) (\<lambda>_ s. consoleread_loop ip target n dst s)"

definition consolewrite :: "nat \<Rightarrow> uchar list \<Rightarrow> 'z kst_fs_scheme \<Rightarrow> (int, 'z kst_fs_scheme) res" where
  "consolewrite ip buf s =
     bindR (iunlock ip s) (\<lambda>_ s.
     bindR (acquire LkCons s) (\<lambda>_ s.
     bindR (consputs buf s) (\<lambda>_ s.
     bindR (release LkCons s) (\<lambda>_ s.
     bindR (ilock ip s) (\<lambda>_ s.
     Ret (int (length buf)) s)))))"

definition no_device :: "nat \<Rightarrow> 'z kst_fs_scheme \<Rightarrow> bool" where
  "no_device ip s \<longleftrightarrow> (let m = sint (di_major (idi s ip)) in
     m < 0 \<or> m \<ge> int NDEV \<or> \<not> devsw s (nat m))"

subsection \<open>Reading and writing\<close>

definition chunk :: "uint \<Rightarrow> nat \<Rightarrow> nat" where
  "chunk off n = min n (BSIZE - unat off mod BSIZE)"

lemma chunk_pos: "0 < n \<Longrightarrow> 0 < chunk off n"
  by (simp add: chunk_def BSIZE_def)

lemma chunk_le: "chunk off n \<le> n"
  by (simp add: chunk_def)

text \<open>The loop of \<open>readi\<close> with \<open>n - tot\<close> bytes to go.\<close>

function readi_loop :: "nat \<Rightarrow> uint \<Rightarrow> nat \<Rightarrow> 'z kst_fs_scheme \<Rightarrow> (uchar list, 'z kst_fs_scheme) res" where
  "readi_loop ip off n s =
     (if n = 0 then Ret [] s
      else
        bindR (bmap ip (off div of_nat BSIZE) s) (\<lambda>b s.
        bindR (bread (i_dev (icache s ip)) b s) (\<lambda>bp s.
        let m = chunk off n; bs = map (\<lambda>i. b_data (bufs s bp) (unat off mod BSIZE + i)) [0..<m] in
        bindR (brelse bp s) (\<lambda>_ s.
        bindR (readi_loop ip (off + of_nat (chunk off n)) (n - chunk off n) s) (\<lambda>rest s.
        Ret (bs @ rest) s)))))"
  by pat_completeness auto
termination
  by (relation "measure (\<lambda>(ip, off, n, s). n)") (use chunk_pos in \<open>auto simp: diff_less\<close>)

declare readi_loop.simps [simp del]

definition readi :: "nat \<Rightarrow> uint \<Rightarrow> uint \<Rightarrow> 'z kst_fs_scheme \<Rightarrow> (int \<times> uchar list, 'z kst_fs_scheme) res" where
  "readi ip off n s =
     (if di_type (idi s ip) = T_DEV
      then if no_device ip s then Ret (- 1, []) s else consoleread ip (sint n) s
      else
        let size = di_size (idi s ip) in
        if off > size \<or> off + n < off then Ret (- 1, []) s
        else
          let n = (if off + n > size then size - off else n) in
          bindR (readi_loop ip off (unat n) s) (\<lambda>bs s.
          Ret (sint n, bs) s))"

text \<open>The loop of \<open>writei\<close> with the bytes still to write; the result is the offset behind them.\<close>

function writei_loop :: "nat \<Rightarrow> uint \<Rightarrow> uchar list \<Rightarrow> 'z kst_fs_scheme \<Rightarrow> (uint, 'z kst_fs_scheme) res" where
  "writei_loop ip off src s =
     (if src = [] then Ret off s
      else
        bindR (bmap ip (off div of_nat BSIZE) s) (\<lambda>b s.
        bindR (bread (i_dev (icache s ip)) b s) (\<lambda>bp s.
        let m = chunk off (length src);
            s = upd_buf bp (\<lambda>k. k\<lparr>b_data := blit (unat off mod BSIZE) (\<lambda>i. src ! i) m (b_data k)\<rparr>) s in
        bindR (log_write bp s) (\<lambda>_ s.
        bindR (brelse bp s) (\<lambda>_ s.
        writei_loop ip (off + of_nat (chunk off (length src))) (drop (chunk off (length src)) src) s)))))"
  by pat_completeness auto
termination
  by (relation "measure (\<lambda>(ip, off, src, s). length src)") (use chunk_pos in \<open>auto simp: diff_less\<close>)

declare writei_loop.simps [simp del]

definition writei :: "nat \<Rightarrow> uchar list \<Rightarrow> uint \<Rightarrow> 'z kst_fs_scheme \<Rightarrow> (int, 'z kst_fs_scheme) res" where
  "writei ip src off s =
     (let n = of_nat (length src) :: uint in
      if di_type (idi s ip) = T_DEV
      then if no_device ip s then Ret (- 1) s else consolewrite ip src s
      else if off > di_size (idi s ip) \<or> off + n < off then Ret (- 1) s
      else if unat (off + n) > MAXFILE * BSIZE then Ret (- 1) s
      else
        bindR (writei_loop ip off src s) (\<lambda>off s.
        bindR (if n > 0 \<and> off > di_size (idi s ip)
               then iupdate ip (upd_di ip (\<lambda>d. d\<lparr>di_size := off\<rparr>) s)
               else Ret () s) (\<lambda>_ s.
        Ret (sint n) s)))"

subsection \<open>Directories\<close>

definition namecmp :: "bytes \<Rightarrow> bytes \<Rightarrow> int" where
  "namecmp s t = strncmp s t DIRSIZ"

text \<open>Reading one entry at a byte offset; anything but 16 bytes is the panic of the caller.\<close>

definition read_dirent :: "string \<Rightarrow> nat \<Rightarrow> uint \<Rightarrow> 'z kst_fs_scheme \<Rightarrow> (dirent, 'z kst_fs_scheme) res" where
  "read_dirent msg dp off s =
     bindR (readi dp off (of_nat DIRENT_SIZE) s) (\<lambda>(r, bs) s.
     if r \<noteq> int DIRENT_SIZE then Panic msg else Ret (dirent_get (\<lambda>i. bs ! i)) s)"

definition dir_rounds :: "uint \<Rightarrow> nat" where
  "dir_rounds sz = (unat sz + DIRENT_SIZE - 1) div DIRENT_SIZE"

primrec dirlookup_loop :: "nat \<Rightarrow> uint \<Rightarrow> nat \<Rightarrow> bytes \<Rightarrow> 'z kst_fs_scheme \<Rightarrow> ((nat \<times> uint) option, 'z kst_fs_scheme) res" where
  "dirlookup_loop 0 off dp name s = Ret None s"
| "dirlookup_loop (Suc n) off dp name s =
     bindR (read_dirent ''dirlookup read'' dp off s) (\<lambda>de s.
     if de_inum de \<noteq> 0 \<and> namecmp name (de_name de) = 0
     then bindR (iget (i_dev (icache s dp)) (ucast (de_inum de)) s) (\<lambda>ip s. Ret (Some (ip, off)) s)
     else dirlookup_loop n (off + of_nat DIRENT_SIZE) dp name s)"

text \<open>The result is the inode and the offset of its entry.\<close>

definition dirlookup :: "nat \<Rightarrow> bytes \<Rightarrow> 'z kst_fs_scheme \<Rightarrow> ((nat \<times> uint) option, 'z kst_fs_scheme) res" where
  "dirlookup dp name s =
     (if di_type (idi s dp) \<noteq> T_DIR then Panic ''dirlookup not DIR''
      else dirlookup_loop (dir_rounds (di_size (idi s dp))) 0 dp name s)"

primrec dirlink_scan :: "nat \<Rightarrow> uint \<Rightarrow> nat \<Rightarrow> 'z kst_fs_scheme \<Rightarrow> (uint, 'z kst_fs_scheme) res" where
  "dirlink_scan 0 off dp s = Ret off s"
| "dirlink_scan (Suc n) off dp s =
     bindR (read_dirent ''dirlink read'' dp off s) (\<lambda>de s.
     if de_inum de = 0 then Ret off s else dirlink_scan n (off + of_nat DIRENT_SIZE) dp s)"

definition dirent_bytes :: "dirent \<Rightarrow> uchar list" where
  "dirent_bytes de = map (dirent_put de) [0..<DIRENT_SIZE]"

definition dirlink :: "nat \<Rightarrow> bytes \<Rightarrow> uint \<Rightarrow> 'z kst_fs_scheme \<Rightarrow> (int, 'z kst_fs_scheme) res" where
  "dirlink dp name inum s =
     bindR (dirlookup dp name s) (\<lambda>r s.
     case r of Some (ip, _) \<Rightarrow> bindR (iput ip s) (\<lambda>_ s. Ret (- 1) s)
     | None \<Rightarrow>
         bindR (dirlink_scan (dir_rounds (di_size (idi s dp))) 0 dp s) (\<lambda>off s.
         let de = \<lparr>de_inum = ucast inum, de_name = strncpy (\<lambda>_. 0) name (int DIRSIZ)\<rparr> in
         bindR (writei dp (dirent_bytes de) off s) (\<lambda>r s.
         if r \<noteq> int DIRENT_SIZE then Panic ''dirlink'' else Ret 0 s)))"

subsection \<open>Paths\<close>

definition SLASH :: uchar where "SLASH = 0x2F"

definition skipelem :: "uchar list \<Rightarrow> bytes \<Rightarrow> (uchar list \<times> bytes) option" where
  "skipelem path name =
     (let path = dropWhile (\<lambda>c. c = SLASH) path in
      if path = [] then None
      else
        let elem = takeWhile (\<lambda>c. c \<noteq> SLASH) path; path = dropWhile (\<lambda>c. c \<noteq> SLASH) path;
            len = length elem;
            name = (if len \<ge> DIRSIZ then blit 0 (\<lambda>i. elem ! i) DIRSIZ name
                    else (blit 0 (\<lambda>i. elem ! i) len name)(len := 0))
        in Some (dropWhile (\<lambda>c. c = SLASH) path, name))"

lemma skipelem_shorter: "skipelem path name = Some (rest, name') \<Longrightarrow> length rest < length path"
proof -
  assume s: "skipelem path name = Some (rest, name')"
  define p where "p = dropWhile (\<lambda>c. c = SLASH) path"
  have p: "p \<noteq> []" "rest = dropWhile (\<lambda>c. c = SLASH) (dropWhile (\<lambda>c. c \<noteq> SLASH) p)"
    using s by (auto simp: skipelem_def p_def Let_def split: if_splits)
  have "hd p \<noteq> SLASH" using p(1) hd_dropWhile [of "\<lambda>c. c = SLASH" path] by (simp add: p_def)
  then have "length (dropWhile (\<lambda>c. c \<noteq> SLASH) p) < length p"
    using p(1) by (cases p) (auto simp: less_Suc_eq_le intro: length_dropWhile_le)
  also have "length p \<le> length path" by (simp add: p_def length_dropWhile_le)
  finally show ?thesis unfolding p(2) by (rule le_less_trans [OF length_dropWhile_le])
qed

function namex_loop :: "uchar list \<Rightarrow> bool \<Rightarrow> bytes \<Rightarrow> nat \<Rightarrow> 'z kst_fs_scheme \<Rightarrow>
    ((nat \<times> bytes) option, 'z kst_fs_scheme) res" where
  "namex_loop path parent name ip s =
     (case skipelem path name of
        None \<Rightarrow>
          if parent then bindR (iput ip s) (\<lambda>_ s. Ret None s) else Ret (Some (ip, name)) s
      | Some (path, name) \<Rightarrow>
          bindR (ilock ip s) (\<lambda>_ s.
          if di_type (idi s ip) \<noteq> T_DIR then bindR (iunlockput ip s) (\<lambda>_ s. Ret None s)
          else if parent \<and> path = [] then bindR (iunlock ip s) (\<lambda>_ s. Ret (Some (ip, name)) s)
          else
            bindR (dirlookup ip name s) (\<lambda>r s.
            case r of None \<Rightarrow> bindR (iunlockput ip s) (\<lambda>_ s. Ret None s)
            | Some (nx, _) \<Rightarrow>
                bindR (iunlockput ip s) (\<lambda>_ s.
                namex_loop path parent name nx s))))"
  by pat_completeness auto
termination
  by (relation "measure (\<lambda>(path, _). length path)") (auto dest: skipelem_shorter)

declare namex_loop.simps [simp del]

definition namex :: "uchar list \<Rightarrow> bool \<Rightarrow> bytes \<Rightarrow> 'z kst_fs_scheme \<Rightarrow> ((nat \<times> bytes) option, 'z kst_fs_scheme) res" where
  "namex path parent name s =
     bindR (if path \<noteq> [] \<and> hd path = SLASH then iget ROOTDEV ROOTINO s
            else bindR (myproc s) (\<lambda>cp s.
                 case cp of None \<Rightarrow> Undef
                 | Some p \<Rightarrow> (case p_cwd (procs s p) of None \<Rightarrow> Undef | Some ip \<Rightarrow> idup ip s))) (\<lambda>ip s.
     namex_loop path parent name ip s)"

definition namei :: "uchar list \<Rightarrow> 'z kst_fs_scheme \<Rightarrow> (nat option, 'z kst_fs_scheme) res" where
  "namei path s = bindR (namex path False (\<lambda>_. 0) s) (\<lambda>r s. Ret (map_option fst r) s)"

definition nameiparent :: "uchar list \<Rightarrow> bytes \<Rightarrow> 'z kst_fs_scheme \<Rightarrow> ((nat \<times> bytes) option, 'z kst_fs_scheme) res" where
  "nameiparent path name s = namex path True name s"

subsection \<open>Path names\<close>

text \<open>The elements of a path: the maximal stretches without a slash.\<close>

function elems :: "uchar list \<Rightarrow> uchar list list" where
  "elems path =
     (let p = dropWhile (\<lambda>c. c = SLASH) path in
      if p = [] then [] else takeWhile (\<lambda>c. c \<noteq> SLASH) p # elems (dropWhile (\<lambda>c. c \<noteq> SLASH) p))"
  by pat_completeness auto
termination
proof (relation "measure length")
  fix path p assume p: "p = dropWhile (\<lambda>c. c = SLASH) path" "p \<noteq> []"
  then have "hd p \<noteq> SLASH" using hd_dropWhile [of "\<lambda>c. c = SLASH" path] by simp
  then have "length (dropWhile (\<lambda>c. c \<noteq> SLASH) p) < length p"
    using p(2) by (cases p) (auto simp: less_Suc_eq_le intro: length_dropWhile_le)
  then show "(dropWhile (\<lambda>c. c \<noteq> SLASH) p, path) \<in> measure length"
    using length_dropWhile_le [of "\<lambda>c. c = SLASH" path] p(1) by simp
qed simp

declare elems.simps [simp del]

lemma elems_slash: "elems (dropWhile (\<lambda>c. c = SLASH) p) = elems p"
  by (subst (1 2) elems.simps) simp

text \<open>What \<open>namecmp\<close> sees of the array \<open>name\<close> after an element is copied into it.\<close>

lemma cstr_short: "length e < n \<Longrightarrow> 0 \<notin> set e \<Longrightarrow> (\<And>i. i < length e \<Longrightarrow> p i = e ! i) \<Longrightarrow> p (length e) = 0 \<Longrightarrow> cstr n p = e"
proof -
  assume a: "length e < n" "0 \<notin> set e" "\<And>i. i < length e \<Longrightarrow> p i = e ! i" "p (length e) = 0"
  have "map p [0..<n] = map p [0..<length e] @ p (length e) # map p [Suc (length e)..<n]"
    using a(1) by (metis append_Cons append_Nil list.simps(9) map_append upt_conv_Cons upt_add_eq_append less_imp_add_positive le_add1 add_0)
  moreover have "map p [0..<length e] = e"
    by (rule nth_equalityI) (simp_all add: a(3))
  moreover have "x \<noteq> 0" if "x \<in> set e" for x using a(2) that by metis
  ultimately show ?thesis using a(4) by (simp add: cstr_def takeWhile_append2)
qed

lemma cstr_long: "length e \<ge> n \<Longrightarrow> 0 \<notin> set e \<Longrightarrow> (\<And>i. i < n \<Longrightarrow> p i = e ! i) \<Longrightarrow> cstr n p = take n e"
proof -
  assume a: "length e \<ge> n" "0 \<notin> set e" "\<And>i. i < n \<Longrightarrow> p i = e ! i"
  have m: "map p [0..<n] = take n e" by (rule nth_equalityI) (use a(1) in \<open>simp_all add: a(3)\<close>)
  show ?thesis unfolding cstr_def m using a(2) by (auto simp: takeWhile_eq_all_conv dest: in_set_takeD)
qed

lemma cstr_elem:
  assumes "0 \<notin> set e"
  shows "cstr DIRSIZ (if length e \<ge> DIRSIZ then blit 0 (\<lambda>i. e ! i) DIRSIZ name
      else (blit 0 (\<lambda>i. e ! i) (length e) name)(length e := 0)) = take DIRSIZ e"
  using assms by (auto simp: blit_def intro!: cstr_short cstr_long)

text \<open>
  C13: \<open>skipelem\<close> takes a path apart at its slashes. It finds no element exactly when the path has none;
  otherwise it copies the first element, cut to \<open>DIRSIZ\<close> characters, into \<open>name\<close>, and the path it
  returns has the remaining elements, does not start with a slash and is shorter than the path given, so that the
  walk of \<open>namex\<close> along a path ends.
\<close>

theorem skipelem_correct:
  assumes "0 \<notin> set path"
  shows "skipelem path name = None \<and> elems path = [] \<or>
    (\<exists>rest name' e. skipelem path name = Some (rest, name') \<and> elems path = e # elems rest \<and>
       cstr DIRSIZ name' = take DIRSIZ e \<and> (rest = [] \<or> hd rest \<noteq> SLASH) \<and> length rest < length path)"
proof -
  define p where "p = dropWhile (\<lambda>c. c = SLASH) path"
  define e where "e = takeWhile (\<lambda>c. c \<noteq> SLASH) p"
  define r where "r = dropWhile (\<lambda>c. c \<noteq> SLASH) p"
  define rest where "rest = dropWhile (\<lambda>c. c = SLASH) r"
  show ?thesis
  proof (cases "p = []")
    case True
    then show ?thesis by (subst elems.simps) (simp add: skipelem_def p_def)
  next
    case False
    obtain name' where s: "skipelem path name = Some (rest, name')" and
      n: "name' = (if length e \<ge> DIRSIZ then blit 0 (\<lambda>i. e ! i) DIRSIZ name else (blit 0 (\<lambda>i. e ! i) (length e) name)(length e := 0))"
      using False by (simp add: skipelem_def Let_def p_def e_def r_def rest_def)
    have "0 \<notin> set e" using assms by (auto simp: e_def p_def dest: set_takeWhileD set_dropWhileD)
    then have "cstr DIRSIZ name' = take DIRSIZ e" unfolding n by (rule cstr_elem)
    moreover have "elems path = e # elems rest"
      unfolding rest_def elems_slash using False by (subst elems.simps) (simp only: p_def [symmetric] e_def r_def Let_def if_False)
    moreover have "rest = [] \<or> hd rest \<noteq> SLASH"
      using hd_dropWhile [of "\<lambda>c. c = SLASH" r] by (auto simp: rest_def)
    ultimately show ?thesis using s skipelem_shorter [OF s] by blast
  qed
qed

theorem skipelem_correct_witness:
  "\<exists>name'. skipelem [SLASH, SLASH, 0x61, SLASH, 0x62, 0x62] (\<lambda>_. 1) = Some ([0x62, 0x62], name') \<and> cstr DIRSIZ name' = [0x61]"
proof -
  have "elems [SLASH, SLASH, 0x61, SLASH, 0x62, 0x62] = [[0x61], [0x62, 0x62]]" "elems [0x62, 0x62] = [[0x62, 0x62]]"
    by (simp_all add: elems.simps SLASH_def)
  moreover obtain n where "skipelem [SLASH, SLASH, 0x61, SLASH, 0x62, 0x62] (\<lambda>_. 1) = Some ([0x62, 0x62], n)"
    by (simp add: skipelem_def SLASH_def Let_def)
  ultimately show ?thesis
    using skipelem_correct [of "[SLASH, SLASH, 0x61, SLASH, 0x62, 0x62]" "\<lambda>_. 1"] by (auto simp: SLASH_def DIRSIZ_def)
qed

end
