(* ===== verification/Xv6_Content.thy ===== *)
theory Xv6_Content
  imports Xv6_Fs
begin

section \<open>Blocks and content of files (fs.c)\<close>

text \<open>
  What the block allocator, \<open>bmap\<close>, \<open>readi\<close> and \<open>writei\<close> do to the file system: \<open>fs_ok\<close> is the layout of
  the disk, \<open>file_ok\<close> a well-formed file, \<open>file_bytes\<close> its content. The lemmas follow the calls: a block is
  allocated (\<open>grow_alloc\<close>), \<open>bmap\<close> finds or adds a block (\<open>bmap_ok\<close>), the loops read and write block by
  block (\<open>readi_loop_ok\<close>, \<open>writei_loop_ok\<close>).
\<close>

subsection \<open>The blocks of a file\<close>

text \<open>The disk block of block \<open>k\<close> of a file, and its indirect block for \<open>k = MAXFILE\<close>; 0 where there is none.\<close>

definition fblk :: "(uint \<Rightarrow> bytes) \<Rightarrow> dinode \<Rightarrow> nat \<Rightarrow> uint" where
  "fblk v d k =
     (if k < NDIRECT then di_addrs d k
      else if k = MAXFILE then di_addrs d NDIRECT
      else if di_addrs d NDIRECT = 0 then 0
      else get32 (v (di_addrs d NDIRECT)) (4 * (k - NDIRECT)))"

text \<open>The blocks of an inode are in use, may hold data and are pairwise different.\<close>

definition inode_ok :: "'z kst_fs_scheme \<Rightarrow> (uint \<Rightarrow> bytes) \<Rightarrow> dinode \<Rightarrow> bool" where
  "inode_ok s v d \<longleftrightarrow> (\<forall>k \<le> MAXFILE. fblk v d k \<noteq> 0 \<longrightarrow> data_block s (fblk v d k) \<and>
       fblk v d k < sb_size (sb s) \<and> used (sb s) v (unat (fblk v d k))) \<and>
     inj_on (fblk v d) {k. k \<le> MAXFILE \<and> fblk v d k \<noteq> 0}"

lemma inode_ok_inj:
  "inode_ok s v d \<Longrightarrow> i \<le> MAXFILE \<Longrightarrow> k \<le> MAXFILE \<Longrightarrow> fblk v d i = fblk v d k \<Longrightarrow> fblk v d i \<noteq> 0 \<Longrightarrow> i = k"
  unfolding inode_ok_def by (auto dest: inj_onD)

text \<open>What an operation on the content of one inode keeps: blocks only come from the free ones and are
  only added, and every block that is neither bitmap nor free nor of this inode is as before.\<close>

definition extends :: "'z kst_fs_scheme \<Rightarrow> (uint \<Rightarrow> bytes) \<Rightarrow> dinode \<Rightarrow> (uint \<Rightarrow> bytes) \<Rightarrow> dinode \<Rightarrow> bool" where
  "extends s v d v' d' \<longleftrightarrow> fs_ok s v' \<and> inode_ok s v' d' \<and> d' = d\<lparr>di_addrs := di_addrs d'\<rparr> \<and>
     free_blocks (sb s) v' \<subseteq> free_blocks (sb s) v \<and>
     (\<forall>k \<le> MAXFILE. if fblk v d k \<noteq> 0 then fblk v' d' k = fblk v d k
        else fblk v' d' k = 0 \<or> unat (fblk v' d' k) \<in> free_blocks (sb s) v) \<and>
     (\<forall>c. c \<notin> bitmap (sb s) \<and> unat c \<notin> free_blocks (sb s) v \<and> (c = 0 \<or> c \<notin> fblk v d ` {..MAXFILE}) \<longrightarrow> v' c = v c)"

lemma extends_refl: "fs_ok s v \<Longrightarrow> inode_ok s v d \<Longrightarrow> extends s v d v d"
  by (simp add: extends_def)

lemma extendsD:
  assumes "extends s v d v' d'"
  shows "fs_ok s v'" "inode_ok s v' d'" "d' = d\<lparr>di_addrs := di_addrs d'\<rparr>" "free_blocks (sb s) v' \<subseteq> free_blocks (sb s) v"
    "k \<le> MAXFILE \<Longrightarrow> fblk v d k \<noteq> 0 \<Longrightarrow> fblk v' d' k = fblk v d k"
    "k \<le> MAXFILE \<Longrightarrow> fblk v d k = 0 \<Longrightarrow> fblk v' d' k = 0 \<or> unat (fblk v' d' k) \<in> free_blocks (sb s) v"
    "c \<notin> bitmap (sb s) \<Longrightarrow> unat c \<notin> free_blocks (sb s) v \<Longrightarrow> c = 0 \<or> c \<notin> fblk v d ` {..MAXFILE} \<Longrightarrow> v' c = v c"
  using assms unfolding extends_def by (blast | presburger)+

lemma extends_trans:
  assumes a: "extends s v d v1 d1" and b: "extends s v1 d1 v2 d2"
  shows "extends s v d v2 d2"
proof -
  note A = extendsD [OF a] and B = extendsD [OF b]
  have "v2 c = v c" if c: "c \<notin> bitmap (sb s)" "unat c \<notin> free_blocks (sb s) v" "c = 0 \<or> c \<notin> fblk v d ` {..MAXFILE}" for c
  proof -
    have "c = 0 \<or> c \<noteq> fblk v1 d1 k" if "k \<le> MAXFILE" for k using A(5,6) [OF that] c(2,3) that by auto
    then have "c = 0 \<or> c \<notin> fblk v1 d1 ` {..MAXFILE}" by blast
    then have "v2 c = v1 c" using B(7) c A(4) by blast
    then show ?thesis using A(7) c by metis
  qed
  moreover have "if fblk v d k \<noteq> 0 then fblk v2 d2 k = fblk v d k
      else fblk v2 d2 k = 0 \<or> unat (fblk v2 d2 k) \<in> free_blocks (sb s) v" if "k \<le> MAXFILE" for k
    using A(5,6) [OF that] B(5,6) [OF that] A(4) by (metis subsetD)
  moreover have "d2 = d\<lparr>di_addrs := di_addrs d2\<rparr>"
  proof -
    have "d2 = (d\<lparr>di_addrs := di_addrs d1\<rparr>)\<lparr>di_addrs := di_addrs d2\<rparr>" using A(3) B(3) by metis
    then show ?thesis by simp
  qed
  ultimately show ?thesis using A(4) B(1,2,4) by (simp add: extends_def)
qed

text \<open>One free block becomes block \<open>k\<close> of the inode.\<close>

lemma extends_alloc:
  assumes ok: "fs_ok s v" "inode_ok s v d" and j: "j \<in> free_blocks (sb s) v" and k: "k \<le> MAXFILE" "fblk v d k = 0"
    and d': "d' = d\<lparr>di_addrs := di_addrs d'\<rparr>"
    and v': "\<And>c. v' c \<noteq> allocated (sb s) j v c \<Longrightarrow> c = fblk v d MAXFILE \<and> c \<noteq> 0"
    and fb: "\<And>i. i \<le> MAXFILE \<Longrightarrow> fblk v' d' i = (if i = k then of_nat j else fblk v d i)"
  shows "extends s v d v' d'" "free_blocks (sb s) v' = free_blocks (sb s) v - {j}"
    "i < MAXFILE \<Longrightarrow> fblk v d i \<noteq> 0 \<Longrightarrow> v' (fblk v d i) = v (fblk v d i)"
proof -
  define w where "w = allocated (sb s) j v"
  note P = allocated_props [OF ok(1) j, folded w_def]
  have I: "data_block s (fblk v d i)" "fblk v d i < sb_size (sb s)" "used (sb s) v (unat (fblk v d i))" if "i \<le> MAXFILE" "fblk v d i \<noteq> 0" for i
    using ok(2) that by (auto simp: inode_ok_def)
  have dj: "data_block s (of_nat j)" "unat (of_nat j :: uint) = j" "j < unat (sb_size (sb s))" "\<not> used (sb s) v j"
    using ok(1) j free_blocks_less [OF j] by (auto simp: fs_ok_def unat_of_nat32 free_blocks_def)
  have v'w: "v' c = w c" if "\<not> data_block s c" for c
    using v' [of c] I [of MAXFILE] that by (auto simp: w_def)
  have us: "used (sb s) v' i \<longleftrightarrow> i = j \<or> used (sb s) v i" if "i < unat (sb_size (sb s))" for i
    using v'w [of "BBLOCK (of_nat i) (sb s)"] bitmapI [OF that] P(1) [OF that] by (simp add: used_def data_block_def)
  show fr: "free_blocks (sb s) v' = free_blocks (sb s) v - {j}" using us by (auto simp: free_blocks_def)
  have "v' 1 = w 1" using v'w [of 1] by (simp add: data_block_def)
  then have fs: "fs_ok s v'" using P(5) fr P(4) by (simp add: fs_ok_def)
  have ne: "fblk v d i \<noteq> of_nat j" if "i \<le> MAXFILE" "fblk v d i \<noteq> 0" for i using I(3) [OF that] dj(2,4) by metis
  have "inode_ok s v' d'"
    unfolding inode_ok_def
  proof (intro conjI allI impI inj_onI; (elim CollectE conjE)?)
    fix i assume i: "i \<le> MAXFILE" "fblk v' d' i \<noteq> 0"
    show "data_block s (fblk v' d' i)" using I(1) [of i] dj i fb by auto
    show l: "fblk v' d' i < sb_size (sb s)" using I(2) [of i] dj i fb by (auto simp: word_less_nat_alt)
    show "used (sb s) v' (unat (fblk v' d' i))" using I(3) [of i] dj i fb us l by (auto simp: word_less_nat_alt)
  next
    fix i i' assume i: "i \<le> MAXFILE" "fblk v' d' i \<noteq> 0" "i' \<le> MAXFILE" "fblk v' d' i' \<noteq> 0" "fblk v' d' i = fblk v' d' i'"
    show "i = i'" using i ne [of i] ne [of i'] fb inode_ok_inj [OF ok(2), of i i'] by (auto split: if_splits)
  qed
  moreover have "v' c = v c" if c: "c \<notin> bitmap (sb s)" "unat c \<notin> free_blocks (sb s) v" "c = 0 \<or> c \<notin> fblk v d ` {..MAXFILE}" for c
  proof -
    have "c \<noteq> of_nat j" using c(2) j dj(2) by auto
    moreover have "v' c = w c" using v' [of c] c(3) by (auto simp: w_def)
    ultimately show ?thesis using P(2) c(1) by simp
  qed
  ultimately show "extends s v d v' d'" using fs fr d' fb k j dj(2) by (auto simp: extends_def)
  show "v' (fblk v d i) = v (fblk v d i)" if i: "i < MAXFILE" "fblk v d i \<noteq> 0"
  proof -
    have "fblk v d i \<noteq> fblk v d MAXFILE" using i inode_ok_inj [OF ok(2), of i MAXFILE] by auto
    then have "v' (fblk v d i) = w (fblk v d i)" using v' [of "fblk v d i"] by (auto simp: w_def)
    then show ?thesis using P(2) I(1) [of i] ne [of i] i by (simp add: data_block_def)
  qed
qed

lemma upd_di_fields [simp]:
  "sb (upd_di ip f s) = sb s" "klog (upd_di ip f s) = klog s" "disksize (upd_di ip f s) = disksize s" "bufs (upd_di ip f s) = bufs s"
  by (simp_all add: upd_di_def upd_inode_def)

lemma upd_di_tx [simp]:
  "view (upd_di ip f s) = view s" "lgn (upd_di ip f s) = lgn s" "tx_inv p H (upd_di ip f s) = tx_inv p H s"
  by (simp_all add: upd_di_def upd_inode_def view_def cached_def fun_eq_iff tx_inv_def log_inv_def bio_inv_def dblocks_def dirties_def
      nxt_def prv_def split: option.split)

lemma upd_di_idi [simp]: "icache (upd_di ip f s) ip = (icache s ip)\<lparr>i_di := f (idi s ip)\<rparr>"
  by (simp_all add: upd_di_def upd_inode_def)

lemma upd_di_ok [simp]:
  "data_block (upd_di ip f s) = data_block s" "fs_ok (upd_di ip f s) = fs_ok s" "inode_ok (upd_di ip f s) = inode_ok s" "extends (upd_di ip f s) = extends s"
  by (simp_all add: fun_eq_iff data_block_def fs_ok_def inode_ok_def extends_def)

lemma tx_frame_upd_di:
  assumes "tx_frame s0 s"
  shows "tx_frame (upd_di ip f s0) (upd_di ip f s)"
proof -
  obtain l t h where "\<forall>i. slocks s (SlInode i) = slocks s0 (SlInode i)" "s = s0\<lparr>slocks := l, bufs := t, klog := (klog s0)\<lparr>lg_lh := h\<rparr>\<rparr>"
    using assms by (auto simp: tx_frame_def)
  then show ?thesis by (intro tx_frameI [where l = l and t = t and h = h]) (simp_all add: upd_di_def upd_inode_def)
qed

lemma tx_at_upd_di: "tx_at p H v n s0 s \<Longrightarrow> tx_at p H v n (upd_di ip f s0) (upd_di ip f s)"
  using tx_frame_upd_di by (auto simp: tx_at_def)

lemma upd_di_upd_di: "upd_di ip f (upd_di ip g s) = upd_di ip (\<lambda>d. f (g d)) s"
  by (simp add: upd_di_def upd_inode_def)

lemma upd_di_const: "upd_di ip f s = upd_di ip (\<lambda>_. f (idi s ip)) s"
  by (simp add: upd_di_def upd_inode_def)

lemma upd_di_id: "upd_di ip (\<lambda>_. idi s ip) s = s"
  by (simp add: upd_di_def upd_inode_def)

text \<open>Growth by at most \<open>m\<close> blocks that keeps the content of the blocks the file has.\<close>

definition grow :: "'z kst_fs_scheme \<Rightarrow> (uint \<Rightarrow> bytes) \<Rightarrow> dinode \<Rightarrow> (uint \<Rightarrow> bytes) \<Rightarrow> dinode \<Rightarrow> nat \<Rightarrow> bool" where
  "grow s v d v' d' m \<longleftrightarrow> extends s v d v' d' \<and> card (free_blocks (sb s) v) \<le> card (free_blocks (sb s) v') + m \<and>
     (\<forall>i < MAXFILE. fblk v d i \<noteq> 0 \<longrightarrow> v' (fblk v d i) = v (fblk v d i))"

lemma grow_refl: "fs_ok s v \<Longrightarrow> inode_ok s v d \<Longrightarrow> grow s v d v d 0"
  by (simp add: grow_def extends_refl)

lemma grow_trans:
  assumes "grow s v d v1 d1 m" "grow s v1 d1 v2 d2 m'"
  shows "grow s v d v2 d2 (m + m')"
proof -
  have "extends s v d v2 d2" using assms extends_trans by (auto simp: grow_def)
  moreover have "v2 (fblk v d i) = v (fblk v d i)" if "i < MAXFILE" "fblk v d i \<noteq> 0" for i
  proof -
    have e: "fblk v1 d1 i = fblk v d i" using extendsD(5) [of s v d v1 d1 i] assms(1) that by (simp add: grow_def)
    have "v2 (fblk v1 d1 i) = v1 (fblk v1 d1 i)" using assms(2) that e by (metis grow_def)
    moreover have "v1 (fblk v d i) = v (fblk v d i)" using assms(1) that by (simp add: grow_def)
    ultimately show ?thesis by (simp add: e)
  qed
  moreover have "card (free_blocks (sb s) v) \<le> card (free_blocks (sb s) v2) + (m + m')" using assms by (simp add: grow_def)
  ultimately show ?thesis by (simp add: grow_def)
qed

lemma grow_weaken: "grow s v d v' d' m \<Longrightarrow> m \<le> m' \<Longrightarrow> grow s v d v' d' m'"
  by (auto simp: grow_def)

lemma finite_free_blocks [simp]: "finite (free_blocks sp v)"
  by (simp add: free_blocks_def)

lemma grow_alloc:
  assumes "fs_ok s v" "inode_ok s v d" "j \<in> free_blocks (sb s) v" "k \<le> MAXFILE" "fblk v d k = 0" "d' = d\<lparr>di_addrs := di_addrs d'\<rparr>"
    "\<And>c. v' c \<noteq> allocated (sb s) j v c \<Longrightarrow> c = fblk v d MAXFILE \<and> c \<noteq> 0"
    "\<And>i. i \<le> MAXFILE \<Longrightarrow> fblk v' d' i = (if i = k then of_nat j else fblk v d i)"
  shows "grow s v d v' d' 1"
  using extends_alloc [OF assms] assms(3) card_Suc_Diff1 [of "free_blocks (sb s) v" j] by (simp add: grow_def)

lemma fblk_cong: "v' (di_addrs d NDIRECT) = v (di_addrs d NDIRECT) \<Longrightarrow> fblk v' d k = fblk v d k"
  by (simp add: fblk_def)

lemma NDIRECT_less [simp]: "NDIRECT < MAXFILE" "\<not> MAXFILE < NDIRECT"
  by (simp_all add: fs_defs)

lemma get32_zeroed: "i + 4 \<le> BSIZE \<Longrightarrow> get32 (zeroed d) i = 0"
  by (simp add: get32_def zeroed_def le32_def)

lemma fblk_alloc:
  assumes ok: "fs_ok s v" "inode_ok s v d" and j: "j \<in> free_blocks (sb s) v" and k: "k \<le> NDIRECT" "di_addrs d k = 0"
    and i: "i \<le> MAXFILE"
  shows "fblk (allocated (sb s) j v) (d\<lparr>di_addrs := (di_addrs d)(k := of_nat j)\<rparr>) i =
    (if i = (if k < NDIRECT then k else MAXFILE) then of_nat j else fblk v d i)"
proof (cases "k < NDIRECT")
  case True
  have "allocated (sb s) j v (di_addrs d NDIRECT) = v (di_addrs d NDIRECT)" if "di_addrs d NDIRECT \<noteq> 0"
  proof (rule allocated_props(2) [OF ok(1) j])
    have f: "fblk v d MAXFILE = di_addrs d NDIRECT" by (simp add: fblk_def MAXFILE_def NDIRECT_def)
    show "di_addrs d NDIRECT \<notin> bitmap (sb s)" "di_addrs d NDIRECT \<noteq> of_nat j"
      using ok(2) that f j free_blocks_less [OF j] by (auto simp: inode_ok_def data_block_def free_blocks_def unat_of_nat32)
  qed
  then show ?thesis using True by (auto simp: fblk_def MAXFILE_def)
next
  case False
  then have [simp]: "k = NDIRECT" using k(1) by simp
  have "of_nat j \<noteq> (0 :: uint)" using ok(1) j by (auto simp: fs_ok_def data_block_def)
  moreover have "get32 (allocated (sb s) j v (of_nat j)) (4 * (i - NDIRECT)) = 0" if "NDIRECT \<le> i" "i < MAXFILE"
    using allocated_props(3) [OF ok(1) j] get32_zeroed that by (auto simp: fs_defs)
  ultimately show ?thesis using k(2) i by (auto simp: fblk_def)
qed

text \<open>What \<open>bmap\<close> and its parts leave: the inode has grown to hold block \<open>k\<close>, at disk block \<open>a\<close>.\<close>

definition grown :: "nat \<Rightarrow> nat \<Rightarrow> 'z kst_fs_scheme \<Rightarrow> (uint \<Rightarrow> bytes) \<Rightarrow> int \<Rightarrow> nat \<Rightarrow> nat \<Rightarrow> uint \<Rightarrow> 'z kst_fs_scheme \<Rightarrow> bool" where
  "grown p ip s0 v n m k a t \<longleftrightarrow> (\<exists>v' d'. tx_at p {} v' n (upd_di ip (\<lambda>_. d') s0) t \<and> grow s0 v (idi s0 ip) v' d' m \<and>
     fblk v' d' k = a \<and> a \<noteq> 0)"

lemma tx_at_mono: "tx_at p H v n s0 s \<Longrightarrow> n \<le> n' \<Longrightarrow> tx_at p H v n' s0 s"
  by (simp add: tx_at_def)

lemma grownI:
  "tx_at p {} v' n (upd_di ip (\<lambda>_. d') s0) t \<Longrightarrow> grow s0 v (idi s0 ip) v' d' m \<Longrightarrow> fblk v' d' k = a \<Longrightarrow> a \<noteq> 0 \<Longrightarrow> grown p ip s0 v n m k a t"
  unfolding grown_def by blast

lemma grown_mono: "grown p ip s0 v n m k a t \<Longrightarrow> n \<le> n' \<Longrightarrow> m \<le> m' \<Longrightarrow> grown p ip s0 v n' m' k a t"
  by (auto simp: grown_def [of p ip s0 v n] intro!: grownI elim: grow_weaken tx_at_mono)

lemma addr_or_alloc_ok:
  assumes s: "tx_at p {} v n s0 s" and ok: "fs_ok s0 v" "inode_ok s0 v (idi s0 ip)" and r: "n + 6 \<le> lg_size (klog s0)"
    and f: "free_blocks (sb s0) v \<noteq> {}" and k: "k \<le> NDIRECT" and dev: "i_dev (icache s0 ip) = 1"
  shows "wp (addr_or_alloc ip k s) (grown p ip s0 v (n + 2) 1 (if k < NDIRECT then k else MAXFILE))"
proof (cases "di_addrs (idi s0 ip) k = 0")
  case True
  define d where "d = idi s0 ip"
  have ic: "icache s = icache s0" using tx_atD(6) [OF s] .
  have fk: "fblk v d (if k < NDIRECT then k else MAXFILE) = 0" using True k by (auto simp: fblk_def d_def not_less)
  have kM: "(if k < NDIRECT then k else MAXFILE) \<le> MAXFILE" using NDIRECT_less(1) by (simp add: less_imp_le less_trans)
  have "wp (balloc 1 s) (\<lambda>a t. grown p ip s0 v (n + 2) 1 (if k < NDIRECT then k else MAXFILE) a (set_addr ip k a t))"
  proof (rule wp_mono [OF balloc_ok [OF s ok(1) r _ _ f]], goal_cases)
    case (3 a t)
    then obtain j where j: "j \<in> free_blocks (sb s0) v" "a = of_nat j" "tx_at p {} (allocated (sb s0) j v) (n + 2) s0 t" by blast
    define d' where "d' = d\<lparr>di_addrs := (di_addrs d)(k := of_nat j)\<rparr>"
    have sa: "set_addr ip k a t = upd_di ip (\<lambda>_. d') t"
      using tx_atD(6) [OF j(3)] by (simp add: set_addr_def d'_def d_def j(2) upd_di_def upd_inode_def)
    have fb: "fblk (allocated (sb s0) j v) d' i = (if i = (if k < NDIRECT then k else MAXFILE) then of_nat j else fblk v d i)" if "i \<le> MAXFILE" for i
      unfolding d'_def d_def using fblk_alloc [OF ok j(1) k True that] .
    have "grow s0 v d (allocated (sb s0) j v) d' 1"
      by (rule grow_alloc [OF ok(1) _ j(1) kM fk, where v' = "allocated (sb s0) j v" and d' = d'])
        (use ok(2) fb in \<open>auto simp: d_def d'_def\<close>)
    moreover have "of_nat j \<noteq> (0 :: uint)" using ok(1) j(1) by (auto simp: fs_ok_def data_block_def)
    moreover have "fblk (allocated (sb s0) j v) d' (if k < NDIRECT then k else MAXFILE) = a"
      using fb [OF kM] j(2) by simp
    ultimately show ?case using tx_at_upd_di [OF j(3), of ip "\<lambda>_. d'"] j(2) unfolding sa d_def by (intro grownI) simp_all
  qed simp_all
  then show ?thesis using True dev ic by (simp add: addr_or_alloc_def wp_bindR)
next
  case False
  have "tx_at p {} v (n + 2) s0 s" using s by (auto simp: tx_at_def)
  moreover have "grow s0 v (idi s0 ip) v (idi s0 ip) 1" using grow_weaken [OF grow_refl [OF ok]] by simp
  ultimately have "grown p ip s0 v (n + 2) 1 (if k < NDIRECT then k else MAXFILE) (di_addrs (idi s0 ip) k) s"
    using False k by (intro grownI [where v' = v and d' = "idi s0 ip"]) (auto simp: upd_di_id fblk_def not_less)
  then show ?thesis using False tx_atD(6) [OF s] by (simp add: addr_or_alloc_def)
qed

lemma fblk_indirect: "NDIRECT \<le> k \<Longrightarrow> k < MAXFILE \<Longrightarrow> di_addrs d NDIRECT \<noteq> 0 \<Longrightarrow> fblk v d k = get32 (v (di_addrs d NDIRECT)) (4 * (k - NDIRECT))"
  by (simp add: fblk_def)

lemma fblk_MAXFILE [simp]: "fblk v d MAXFILE = di_addrs d NDIRECT"
  by (simp add: fblk_def)

text \<open>An entry of the indirect block is filled in.\<close>

lemma grow_indirect:
  assumes ok: "fs_ok s v" "inode_ok s v d" and j: "j \<in> free_blocks (sb s) v" and k: "NDIRECT \<le> k" "k < MAXFILE"
    and a: "a = di_addrs d NDIRECT" "a \<noteq> 0" and z: "fblk v d k = 0"
  defines "v' \<equiv> (allocated (sb s) j v)(a := put32 (4 * (k - NDIRECT)) (of_nat j) (v a))"
  shows "grow s v d v' d 1" "fblk v' d k = of_nat j"
proof -
  have fb: "fblk v' d i = (if i = k then of_nat j else fblk v d i)" if "i \<le> MAXFILE" for i
  proof (cases "NDIRECT \<le> i \<and> i \<noteq> MAXFILE \<and> i \<noteq> k")
    case True
    then have "4 * (i - NDIRECT) + 4 \<le> 4 * (k - NDIRECT) \<or> 4 * (k - NDIRECT) + 4 \<le> 4 * (i - NDIRECT)" using k by arith
    then show ?thesis using True a by (simp add: fblk_def v'_def get_put_other)
  next
    case False
    then show ?thesis using a k that by (auto simp: fblk_def v'_def)
  qed
  show "fblk v' d k = of_nat j" using fb [of k] k by simp
  show "grow s v d v' d 1"
    by (rule grow_alloc [OF ok j less_imp_le [OF k(2)] z]) (use fb a in \<open>auto simp: v'_def split: if_splits\<close>)
qed

lemma bmap_indirect_alloc:
  assumes s: "tx_at p {q} v n s0 s" and ok: "fs_ok s0 v" "inode_ok s0 v d" and r: "n + 7 \<le> lg_size (klog s0)"
    and f: "free_blocks (sb s0) v \<noteq> {}" and k: "NDIRECT \<le> k" "k < MAXFILE" and a: "a = di_addrs d NDIRECT" "a \<noteq> 0"
    and z: "fblk v d k = 0" and q: "b_blockno (bufs s q) = a" "b_data (bufs s q) = v a"
  shows "wp (balloc 1 s) (\<lambda>b t. wp (log_write q (upd_buf q (\<lambda>x. x\<lparr>b_data := put32 (4 * (k - NDIRECT)) b (b_data x)\<rparr>) t)) (\<lambda>_ t.
    wp (brelse q t) (\<lambda>_ t. \<exists>v'. tx_at p {} v' (n + 3) s0 t \<and> grow s0 v d v' d 1 \<and> fblk v' d k = b \<and> b \<noteq> 0)))"
proof (rule wp_mono [OF balloc_ok [OF s ok(1) _ _ _ f]], goal_cases)
  case (3 i)
  have "data_block s0 a" "a < sb_size (sb s0)" "used (sb s0) v (unat a)" using ok(2) a by (auto simp: inode_ok_def)
  then show ?case using 3 q(1) by (auto simp: data_block_def free_blocks_def)
next
  case (4 b t)
  then obtain j where j: "j \<in> free_blocks (sb s0) v" "b = of_nat j" "tx_at p {q} (allocated (sb s0) j v) (n + 2) s0 t"
    "core (bufs t q) = core (bufs s q)" by auto
  have da: "data_block s0 a" using ok(2) a by (auto simp: inode_ok_def)
  have c: "b_blockno (bufs t q) = a" "b_data (bufs t q) = v a" using core_eqD(3,5) [OF j(4)] q by simp_all
  have nz: "b \<noteq> 0" using ok(1) j(1,2) by (auto simp: fs_ok_def data_block_def)
  note G = grow_indirect [OF ok j(1) k a z]
  show ?case
  proof (rule at_write_brelse [OF j(3) _ c(1) [symmetric]], goal_cases)
    case (4 u)
    then show ?case using G nz by (auto simp: c(2) j(2) ac_simps intro!: exI [of _ "(allocated (sb s0) j v)(a := put32 (4 * (k - NDIRECT)) (word_of_nat j) (v a))"])
  qed (use r da in \<open>simp_all add: data_block_def\<close>)
qed (use r in simp_all)

lemma bmap_direct:
  assumes s: "tx_at p {} v n s0 s" and ok: "fs_ok s0 v" "inode_ok s0 v (idi s0 ip)" and r: "n + 6 \<le> lg_size (klog s0)"
    and f: "free_blocks (sb s0) v \<noteq> {}" and k: "k < NDIRECT" and dev: "i_dev (icache s0 ip) = 1"
  shows "wp (bmap ip (of_nat k) s) (grown p ip s0 v (n + 2) 1 k)"
proof -
  have "unat (of_nat k :: uint) = k" using k by (simp add: NDIRECT_def unat_of_nat32)
  then show ?thesis using addr_or_alloc_ok [OF s ok r f less_imp_le [OF k] dev] k by (simp add: bmap_def)
qed

lemma bmap_indirect:
  assumes s: "tx_at p {} v n s0 s" and ok: "fs_ok s0 v" "inode_ok s0 v (idi s0 ip)" and r: "n + 9 \<le> lg_size (klog s0)"
    and f: "2 \<le> card (free_blocks (sb s0) v)" and k: "NDIRECT \<le> k" "k < MAXFILE" and dev: "i_dev (icache s0 ip) = 1"
  shows "wp (bmap ip (of_nat k) s) (grown p ip s0 v (n + 5) 2 k)"
proof -
  have k': "unat (of_nat k :: uint) = k" "k - NDIRECT < NINDIRECT" using k by (simp_all add: fs_defs unat_of_nat32)
  have fne: "free_blocks (sb s0) v \<noteq> {}" using f by auto
  have "wp (addr_or_alloc ip NDIRECT s) (\<lambda>a s. wp (bread (i_dev (icache s ip)) a s) (\<lambda>bp s.
      wp (bindR (if get32 (b_data (bufs s bp)) (4 * (k - NDIRECT)) = 0
                 then bindR (balloc (i_dev (icache s ip)) s) (\<lambda>addr s.
                      bindR (log_write bp (upd_buf bp (\<lambda>x. x\<lparr>b_data := put32 (4 * (k - NDIRECT)) addr (b_data x)\<rparr>) s)) (\<lambda>_ s. Ret addr s))
                 else Ret (get32 (b_data (bufs s bp)) (4 * (k - NDIRECT))) s) (\<lambda>addr s.
          bindR (brelse bp s) (\<lambda>_ s. Ret addr s))) (grown p ip s0 v (n + 5) 2 k)))"
  proof (rule wp_mono [OF addr_or_alloc_ok [OF s ok _ fne order_refl dev]], goal_cases)
    case (2 a t)
    then obtain v1 d1 where t: "tx_at p {} v1 (n + 2) (upd_di ip (\<lambda>_. d1) s0) t" and g: "grow s0 v (idi s0 ip) v1 d1 1"
      and a: "di_addrs d1 NDIRECT = a" "a \<noteq> 0" by (auto simp: grown_def)
    define s1 where "s1 = upd_di ip (\<lambda>_. d1) s0"
    have ok1: "fs_ok s1 v1" "inode_ok s1 v1 d1" using g extendsD(1,2) by (auto simp: grow_def s1_def)
    have ab: "data_block s0 a" using ok1(2) a by (auto simp: inode_ok_def s1_def)
    have ic: "i_dev (icache s1 ip) = 1" "icache t = icache s1" using dev tx_atD(6) [OF t] by (simp_all add: s1_def)
    have f1: "free_blocks (sb s1) v1 \<noteq> {}" using g f by (auto simp: grow_def s1_def)
    show ?case unfolding ic(2) ic(1)
    proof (rule wp_mono [OF at_bread [OF t]], goal_cases)
      case (5 q u)
      then have u: "tx_at p {q} v1 (n + 2) s1 u" "b_blockno (bufs u q) = a" "b_data (bufs u q) = v1 a" by (simp_all add: s1_def)
      have ie: "icache u = icache s1" using tx_atD(6) [OF u(1)] .
      have fk: "fblk v1 d1 k = get32 (v1 a) (4 * (k - NDIRECT))" using fblk_indirect [of k d1 v1] k a by simp
      have fin: "grown p ip s0 v (n + 5) 2 k b x" if "tx_at p {} v2 (n + 5) s1 x" "grow s1 v1 d1 v2 d1 1" "fblk v2 d1 k = b" "b \<noteq> 0" for b x v2
        using that grow_trans [OF g, of v2 d1 1] by (intro grownI [of p v2 _ ip d1]) (auto simp: s1_def grow_def)
      show ?case
      proof (cases "fblk v1 d1 k = 0")
        case True
        have "wp (balloc 1 u) (\<lambda>b t. wp (log_write q (upd_buf q (\<lambda>x. x\<lparr>b_data := put32 (4 * (k - NDIRECT)) b (b_data x)\<rparr>) t)) (\<lambda>_ t.
            wp (brelse q t) (\<lambda>_ t. grown p ip s0 v (n + 5) 2 k b t)))"
          by (rule wp_mono [OF bmap_indirect_alloc [OF u(1) ok1 _ f1 k a(1) [symmetric] a(2) True u(2,3)]], use r in \<open>simp add: s1_def\<close>,
              erule wp_mono, erule wp_mono) (use fin in \<open>auto simp: ac_simps\<close>)
        then show ?thesis using True fk u(3) ie ic(1) by (simp add: wp_bindR)
      next
        case False
        have "wp (brelse q u) (\<lambda>_ t. grown p ip s0 v (n + 5) 2 k (fblk v1 d1 k) t)"
          by (rule wp_mono [OF at_brelse_last [OF u(1)]])
            (use fin grow_weaken [OF grow_refl [OF ok1]] False in \<open>auto simp: tx_at_def\<close>)
        then show ?thesis using False fk u(3) by (simp add: wp_bindR)
      qed
    qed (use r ab in \<open>simp_all add: data_block_def s1_def\<close>)
  qed (use r in simp)
  then show ?thesis using k' k unfolding bmap_def Let_def k'(1) by (simp add: wp_bindR split del: if_split)
qed

lemma bmap_ok:
  assumes s: "tx_at p {} v n s0 s" and ok: "fs_ok s0 v" "inode_ok s0 v (idi s0 ip)" and r: "n + 9 \<le> lg_size (klog s0)"
    and f: "2 \<le> card (free_blocks (sb s0) v)" and k: "k < MAXFILE" and dev: "i_dev (icache s0 ip) = 1"
  shows "wp (bmap ip (of_nat k) s) (grown p ip s0 v (n + 5) 2 k)"
proof (cases "k < NDIRECT")
  case True
  have "free_blocks (sb s0) v \<noteq> {}" using f by auto
  then have "wp (bmap ip (of_nat k) s) (grown p ip s0 v (n + 2) 1 k)" using bmap_direct [OF s ok _ _ True dev] r by simp
  then show ?thesis by (rule wp_mono) (erule grown_mono, simp_all)
qed (use bmap_indirect [OF s ok r f _ k dev] in simp)

text \<open>Where the file has the block, nothing changes.\<close>

lemma bmap_mapped:
  assumes s: "tx_at p {} v n s0 s" and ok: "inode_ok s0 v (idi s0 ip)" and r: "n + 4 \<le> lg_size (klog s0)"
    and k: "k < MAXFILE" "fblk v (idi s0 ip) k \<noteq> 0" and dev: "i_dev (icache s0 ip) = 1"
  shows "wp (bmap ip (of_nat k) s) (\<lambda>a t. a = fblk v (idi s0 ip) k \<and> tx_at p {} v n s0 t)"
proof -
  define d where "d = idi s0 ip"
  have ic: "icache s = icache s0" using tx_atD(6) [OF s] .
  have k': "unat (of_nat k :: uint) = k" using k by (simp add: fs_defs unat_of_nat32)
  show ?thesis
  proof (cases "k < NDIRECT")
    case True
    then show ?thesis using k k' s ic by (simp add: bmap_def addr_or_alloc_def fblk_def)
  next
    case False
    define a where "a = di_addrs d NDIRECT"
    have a: "a \<noteq> 0" "fblk v d k = get32 (v a) (4 * (k - NDIRECT))" using k False by (auto simp: a_def fblk_def d_def split: if_splits)
    have ab: "a < disksize s0" using ok a(1) by (auto simp: inode_ok_def data_block_def a_def d_def dest: spec [of _ MAXFILE])
    have "wp (bread 1 a s) (\<lambda>q t. get32 (b_data (bufs t q)) (4 * (k - NDIRECT)) = fblk v d k \<and> wp (brelse q t) (\<lambda>_ t. tx_at p {} v n s0 t))"
      by (rule wp_mono [OF at_bread [OF s ab]])
        (use r a(2) at_brelse_last in \<open>auto elim!: wp_mono intro!: wp_mono [OF at_brelse_last]\<close>)
    then show ?thesis using k k' False ic dev a by (auto simp: bmap_def addr_or_alloc_def wp_bindR Let_def a_def d_def fs_defs elim!: wp_mono)
  qed
qed

subsection \<open>Content of files\<close>

definition fbyte :: "(uint \<Rightarrow> bytes) \<Rightarrow> dinode \<Rightarrow> nat \<Rightarrow> uchar" where
  "fbyte v d i = v (fblk v d (i div BSIZE)) (i mod BSIZE)"

lemma BSIZE_pos [simp]: "0 < BSIZE" "BSIZE \<noteq> 0"
  by (simp_all add: BSIZE_def)

text \<open>The bytes of one round of the loops lie in one block.\<close>

lemma chunk_block:
  assumes "i < chunk off n"
  shows "(unat off + i) div BSIZE = unat off div BSIZE" "(unat off + i) mod BSIZE = unat off mod BSIZE + i"
proof -
  have l: "unat off mod BSIZE + i < BSIZE" using assms mod_less_divisor [of BSIZE "unat off"] by (auto simp: chunk_def)
  have e: "BSIZE * (unat off div BSIZE) + unat off mod BSIZE = unat off" by simp
  show d: "(unat off + i) div BSIZE = unat off div BSIZE"
    using l e by (intro div_nat_eqI) (linarith, unfold mult_Suc_right, linarith)
  show "(unat off + i) mod BSIZE = unat off mod BSIZE + i"
    using e mult_div_mod_eq [of BSIZE "unat off + i"] unfolding d by linarith
qed

lemma chunk_next:
  assumes "unat off + n \<le> MAXFILE * BSIZE"
  shows "unat (off + of_nat (chunk off n)) = unat off + chunk off n" "off div of_nat BSIZE = of_nat (unat off div BSIZE)"
proof -
  have "unat off + chunk off n < 2 ^ 32" using assms chunk_le [of off n] by (simp add: fs_defs)
  then show "unat (off + of_nat (chunk off n)) = unat off + chunk off n" by (simp add: unat_word_ariths unat_of_nat32)
  show "off div of_nat BSIZE = of_nat (unat off div BSIZE)" by (simp add: BSIZE_def word_arith_nat_div)
qed

lemma upt_chunk: "chunk off n \<le> n \<Longrightarrow> map f [0..<n] = map f [0..<chunk off n] @ map (\<lambda>i. f (chunk off n + i)) [0..<n - chunk off n]"
  by (rule nth_equalityI) (auto simp: nth_append)

lemma readi_loop_ok:
  assumes s: "tx_at p {} v n s0 s" and ok: "inode_ok s0 v (idi s0 ip)" and r: "n + 4 \<le> lg_size (klog s0)"
    and dev: "i_dev (icache s0 ip) = 1" and m: "unat off + m \<le> MAXFILE * BSIZE"
    and mp: "\<And>i. unat off \<le> i \<Longrightarrow> i < unat off + m \<Longrightarrow> fblk v (idi s0 ip) (i div BSIZE) \<noteq> 0"
  shows "wp (readi_loop ip off m s) (\<lambda>bs t. bs = map (\<lambda>i. fbyte v (idi s0 ip) (unat off + i)) [0..<m] \<and> tx_at p {} v n s0 t)"
  using s m mp
proof (induction m arbitrary: off s rule: less_induct)
  case (less m)
  show ?case
  proof (cases "m = 0")
    case True
    then show ?thesis using less.prems(1) by (simp add: readi_loop.simps)
  next
    case False
    define c d k where "c = chunk off m" and "d = idi s0 ip" and "k = unat off div BSIZE"
    have c: "0 < c" "c \<le> m" using False chunk_pos [of m off] chunk_le [of off m] by (simp_all add: c_def)
    note nx = chunk_next [OF less.prems(2), folded c_def k_def]
    have k: "k < MAXFILE" "fblk v d k \<noteq> 0"
      using less.prems(2) less.prems(3) [of "unat off"] False by (auto simp: k_def d_def div_less_iff_less_mult)
    then have kb: "fblk v d k < disksize s0" using ok by (auto simp: inode_ok_def data_block_def d_def)
    have bs: "map (\<lambda>i. v (fblk v d k) (unat off mod BSIZE + i)) [0..<c] = map (\<lambda>i. fbyte v d (unat off + i)) [0..<c]"
      using chunk_block [where off = off and n = m] by (simp add: fbyte_def k_def c_def)
    have rest: "wp (readi_loop ip (off + of_nat c) (m - c) x)
        (\<lambda>bs t. bs = map (\<lambda>i. fbyte v d (unat off + (c + i))) [0..<m - c] \<and> tx_at p {} v n s0 t)" if "tx_at p {} v n s0 x" for x
      using less.IH [OF _ that, of "m - c" "off + of_nat c"] c less.prems(2,3) nx(1) by (simp add: d_def add.assoc)
    have "wp (bmap ip (of_nat k) s) (\<lambda>b s. wp (bread (i_dev (icache s ip)) b s) (\<lambda>bp s. wp (brelse bp s) (\<lambda>_ t.
        wp (readi_loop ip (off + of_nat c) (m - c) t) (\<lambda>rest t.
          map (\<lambda>i. b_data (bufs s bp) (unat off mod BSIZE + i)) [0..<c] @ rest = map (\<lambda>i. fbyte v d (unat off + i)) [0..<m] \<and>
          tx_at p {} v n s0 t))))"
    proof (rule wp_mono [OF bmap_mapped [OF less.prems(1) ok r k(1) k(2) [unfolded d_def] dev]], elim conjE)
      fix b t assume b: "b = fblk v (idi s0 ip) k" and t: "tx_at p {} v n s0 t"
      have "i_dev (icache t ip) = 1" using tx_atD(6) [OF t] dev by simp
      then show "wp (bread (i_dev (icache t ip)) b t) (\<lambda>bp s. wp (brelse bp s) (\<lambda>_ t.
        wp (readi_loop ip (off + of_nat c) (m - c) t) (\<lambda>rest t.
          map (\<lambda>i. b_data (bufs s bp) (unat off mod BSIZE + i)) [0..<c] @ rest = map (\<lambda>i. fbyte v d (unat off + i)) [0..<m] \<and>
          tx_at p {} v n s0 t)))"
      proof (simp only:, intro wp_mono [OF at_bread [OF t]], goal_cases)
        case (5 q x)
        then show ?case
          by (intro wp_mono [OF at_brelse_last] wp_mono [OF rest])
            (use b upt_chunk [of off m "\<lambda>i. fbyte v d (unat off + i)", folded c_def, OF c(2)] in \<open>auto simp: bs d_def [symmetric]\<close>)
      qed (use b kb r in \<open>simp_all add: d_def\<close>)
    qed
    then show ?thesis using False nx(2) by (simp add: readi_loop.simps [of ip off m] wp_bindR Let_def c_def d_def)
  qed
qed

lemma extends_write:
  assumes ok: "fs_ok s v" "inode_ok s v d" and k: "k < MAXFILE" "fblk v d k = b" "b \<noteq> 0"
  shows "extends s v d (v(b := x)) d" "free_blocks (sb s) (v(b := x)) = free_blocks (sb s) v" "fblk (v(b := x)) d i = fblk v d i"
proof -
  have b: "data_block s b" using ok(2) k by (auto simp: inode_ok_def)
  have "di_addrs d NDIRECT \<noteq> b" using inode_ok_inj [OF ok(2), of k MAXFILE] k by auto
  then show fb: "fblk (v(b := x)) d i = fblk v d i" for i by (intro fblk_cong) simp
  have us: "used (sb s) (v(b := x)) i = used (sb s) v i" if "i < unat (sb_size (sb s))" for i
    using bitmapI [OF that] b by (auto simp: used_def data_block_def)
  then show fr: "free_blocks (sb s) (v(b := x)) = free_blocks (sb s) v" by (auto simp: free_blocks_def)
  have "fs_ok s (v(b := x))" using ok(1) b by (auto simp: fs_ok_def fr data_block_def)
  moreover have "inode_ok s (v(b := x)) d" using ok(2) us fb [abs_def] by (auto simp: inode_ok_def word_less_nat_alt)
  ultimately show "extends s v d (v(b := x)) d" using k fb [abs_def] by (auto simp: extends_def fr)
qed

text \<open>The bytes \<open>src\<close> are stored at \<open>off\<close>, and every other byte of the file is as before.\<close>

definition stored :: "(uint \<Rightarrow> bytes) \<Rightarrow> dinode \<Rightarrow> nat \<Rightarrow> uchar list \<Rightarrow> (uint \<Rightarrow> bytes) \<Rightarrow> dinode \<Rightarrow> bool" where
  "stored v d off src v' d' \<longleftrightarrow> (\<forall>i < MAXFILE * BSIZE.
     if off \<le> i \<and> i < off + length src then fblk v' d' (i div BSIZE) \<noteq> 0 \<and> fbyte v' d' i = src ! (i - off)
     else fblk v d (i div BSIZE) \<noteq> 0 \<longrightarrow> fbyte v' d' i = fbyte v d i)"

lemma div_BSIZE: "i < MAXFILE * BSIZE \<Longrightarrow> i div BSIZE < MAXFILE"
  by (simp add: div_less_iff_less_mult)

lemma storedD:
  assumes "stored v d off src v' d'" "i < MAXFILE * BSIZE"
  shows "off \<le> i \<Longrightarrow> i < off + length src \<Longrightarrow> fblk v' d' (i div BSIZE) \<noteq> 0 \<and> fbyte v' d' i = src ! (i - off)"
    "i < off \<or> off + length src \<le> i \<Longrightarrow> fblk v d (i div BSIZE) \<noteq> 0 \<Longrightarrow> fbyte v' d' i = fbyte v d i"
  using assms by (auto simp: stored_def split: if_splits)

lemma stored_trans:
  assumes a: "stored v d off (take c src) v1 d1" and b: "stored v1 d1 (off + c) (drop c src) v2 d2" and c: "c \<le> length src"
    and e: "extends s v d v1 d1" "extends s v1 d1 v2 d2"
  shows "stored v d off src v2 d2"
  unfolding stored_def
proof (intro allI impI)
  fix i assume i: "i < MAXFILE * BSIZE"
  have k: "i div BSIZE \<le> MAXFILE" using div_BSIZE [OF i] by simp
  note A = storedD [OF a i] and B = storedD [OF b i]
  show "if off \<le> i \<and> i < off + length src then fblk v2 d2 (i div BSIZE) \<noteq> 0 \<and> fbyte v2 d2 i = src ! (i - off)
     else fblk v d (i div BSIZE) \<noteq> 0 \<longrightarrow> fbyte v2 d2 i = fbyte v d i"
  proof (cases "off \<le> i \<and> i < off + length src")
    case True
    show ?thesis
    proof (cases "i < off + c")
      case True': True
      then have "fblk v1 d1 (i div BSIZE) \<noteq> 0" "fbyte v1 d1 i = src ! (i - off)" using A(1) True c by auto
      then show ?thesis using B(2) True' True extendsD(5) [OF e(2) k] by simp
    next
      case False
      then show ?thesis using B(1) True c by (simp add: add.commute)
    qed
  next
    case False
    then show ?thesis using A(2) B(2) extendsD(5) [OF e(1) k] c by auto
  qed
qed

lemma stored_chunk:
  assumes g: "grow s v d v1 d1 m" and b: "b = fblk v1 d1 (unat off div BSIZE)" "b \<noteq> 0"
    and n: "unat off + length src \<le> MAXFILE * BSIZE" "src \<noteq> []"
  defines "c \<equiv> chunk off (length src)"
  defines "v2 \<equiv> v1(b := blit (unat off mod BSIZE) ((!) src) c (v1 b))"
  shows "stored v d (unat off) (take c src) v2 d1" "extends s v d v2 d1" "free_blocks (sb s) v2 = free_blocks (sb s) v1"
proof -
  define k where "k = unat off div BSIZE"
  have k: "k < MAXFILE" using div_BSIZE [of "unat off"] n by (cases src) (auto simp: k_def)
  have e: "extends s v d v1 d1" and kept: "\<And>i. i < MAXFILE \<Longrightarrow> fblk v d i \<noteq> 0 \<Longrightarrow> v1 (fblk v d i) = v (fblk v d i)"
    using g by (auto simp: grow_def)
  note W = extends_write [OF extendsD(1,2) [OF e] k b(1) [folded k_def, symmetric] b(2), of "blit (unat off mod BSIZE) ((!) src) c (v1 b)", folded v2_def]
  show "extends s v d v2 d1" using extends_trans [OF e W(1)] .
  show "free_blocks (sb s) v2 = free_blocks (sb s) v1" using W(2) .
  have c: "c \<le> length src" by (simp add: c_def chunk_le)
  have eq: "fblk v1 d1 i = b \<longleftrightarrow> i = k" if "i < MAXFILE" for i
    using inode_ok_inj [OF extendsD(2) [OF e], of i k] that k b by (auto simp: k_def)
  have v2: "v2 b = blit (unat off mod BSIZE) ((!) src) c (v1 b)" "x \<noteq> b \<Longrightarrow> v2 x = v1 x" for x by (simp_all add: v2_def)
  show "stored v d (unat off) (take c src) v2 d1"
    unfolding stored_def
  proof (intro allI impI)
    fix i assume i: "i < MAXFILE * BSIZE"
    note iM = div_BSIZE [OF i]
    have fb2: "fbyte v2 d1 i = (if i div BSIZE = k then blit (unat off mod BSIZE) ((!) src) c (v1 b) (i mod BSIZE) else fbyte v1 d1 i)"
      using eq [OF iM] v2 unfolding fbyte_def W(3) by (cases "i div BSIZE = k") simp_all
    have fb1: "fbyte v1 d1 i = fbyte v d i" if "fblk v d (i div BSIZE) \<noteq> 0"
      using kept [OF iM that] extendsD(5) [OF e _ that] iM by (simp add: fbyte_def)
    show "if unat off \<le> i \<and> i < unat off + length (take c src) then fblk v2 d1 (i div BSIZE) \<noteq> 0 \<and> fbyte v2 d1 i = take c src ! (i - unat off)
        else fblk v d (i div BSIZE) \<noteq> 0 \<longrightarrow> fbyte v2 d1 i = fbyte v d i"
    proof (cases "unat off \<le> i \<and> i < unat off + c")
      case True
      then obtain x where x: "i = unat off + x" "x < c" by (metis add_less_cancel_left le_iff_add)
      have "i div BSIZE = k" "i mod BSIZE = unat off mod BSIZE + x"
        using chunk_block [of x off "length src"] x by (simp_all add: c_def k_def)
      then show ?thesis using x c b eq [OF k] fb2 W(3) by (simp add: blit_def k_def)
    next
      case False
      have "blit (unat off mod BSIZE) ((!) src) c (v1 b) (i mod BSIZE) = v1 b (i mod BSIZE)" if "i div BSIZE = k"
      proof -
        have "k * BSIZE + unat off mod BSIZE = unat off" "k * BSIZE + i mod BSIZE = i"
          using div_mult_mod_eq [of i BSIZE] that by (simp_all add: k_def)
        then have "\<not> (unat off mod BSIZE \<le> i mod BSIZE \<and> i mod BSIZE < unat off mod BSIZE + c)" using False by linarith
        then show ?thesis by (auto simp: blit_def)
      qed
      then have "fbyte v2 d1 i = fbyte v1 d1 i" using fb2 eq [OF iM] b(1) by (auto simp: fbyte_def k_def)
      then show ?thesis using False fb1 c by auto
    qed
  qed
qed

text \<open>The number of rounds: the blocks that \<open>n\<close> bytes from \<open>off\<close> on touch.\<close>

definition rounds :: "nat \<Rightarrow> nat \<Rightarrow> nat" where
  "rounds off n = (if n = 0 then 0 else Suc ((off mod BSIZE + n - 1) div BSIZE))"

lemma rounds_step:
  assumes "0 < n"
  shows "rounds (unat off) n = Suc (rounds (unat off + chunk off n) (n - chunk off n))"
proof (cases "n \<le> BSIZE - unat off mod BSIZE")
  case True
  then have "unat off mod BSIZE + n - 1 < BSIZE" using assms mod_less_divisor [of BSIZE "unat off"] by (simp add: BSIZE_def)
  then show ?thesis using True assms by (simp add: rounds_def chunk_def min_def)
next
  case False
  define o' where "o' = unat off mod BSIZE"
  have o': "o' < BSIZE" by (simp add: o'_def)
  have "BSIZE * (unat off div BSIZE) + o' = unat off" by (simp add: o'_def)
  then have "unat off + (BSIZE - o') = BSIZE * Suc (unat off div BSIZE)" using o' unfolding mult_Suc_right by linarith
  then have "(unat off + (BSIZE - o')) mod BSIZE = 0" by simp
  moreover have "(o' + n - 1) div BSIZE = Suc ((n - (BSIZE - o') - 1) div BSIZE)"
    using False o' div_add_self1 [of BSIZE "n - (BSIZE - o') - 1"] by (simp add: o'_def add.commute)
  ultimately show ?thesis using False assms by (simp add: rounds_def chunk_def min_def o'_def)
qed

lemma writei_round:
  assumes s: "tx_at p {} v n s0 s" and ok: "fs_ok s0 v" "inode_ok s0 v (idi s0 ip)" and dev: "i_dev (icache s0 ip) = 1"
    and l: "unat off + length src \<le> MAXFILE * BSIZE" "src \<noteq> []" and r: "n + 10 \<le> lg_size (klog s0)"
    and f: "2 \<le> card (free_blocks (sb s0) v)"
  defines "c \<equiv> chunk off (length src)"
  shows "wp (bmap ip (of_nat (unat off div BSIZE)) s) (\<lambda>b s. wp (bread (i_dev (icache s ip)) b s) (\<lambda>bp s.
    wp (log_write bp (upd_buf bp (\<lambda>x. x\<lparr>b_data := blit (unat off mod BSIZE) ((!) src) c (b_data x)\<rparr>) s)) (\<lambda>_ s.
    wp (brelse bp s) (\<lambda>_ t. \<exists>v' d'. tx_at p {} v' (n + 6) (upd_di ip (\<lambda>_. d') s0) t \<and> extends s0 v (idi s0 ip) v' d' \<and>
      stored v (idi s0 ip) (unat off) (take c src) v' d' \<and> card (free_blocks (sb s0) v) \<le> card (free_blocks (sb s0) v') + 2))))"
proof -
  define k where "k = unat off div BSIZE"
  have k: "k < MAXFILE" using div_BSIZE [of "unat off"] l by (cases src) (auto simp: k_def)
  show ?thesis
    unfolding k_def [symmetric]
  proof (rule wp_mono [OF bmap_ok [OF s ok _ f k dev]], goal_cases)
    case (2 b t)
    then obtain v1 d1 where t: "tx_at p {} v1 (n + 5) (upd_di ip (\<lambda>_. d1) s0) t" and g: "grow s0 v (idi s0 ip) v1 d1 2"
      and b: "b = fblk v1 d1 k" "b \<noteq> 0" by (auto simp: grown_def)
    have db: "data_block s0 b" using g k b by (auto simp: grow_def inode_ok_def dest: extendsD(2))
    have ic: "i_dev (icache t ip) = 1" using tx_atD(6) [OF t] dev by simp
    note S = stored_chunk [OF g b [unfolded k_def] l, folded c_def k_def]
    show ?case unfolding ic
    proof (rule wp_mono [OF at_bread [OF t]], goal_cases)
      case (5 q u)
      then have u: "tx_at p (insert q {}) v1 (n + 5) (upd_di ip (\<lambda>_. d1) s0) u" "b_blockno (bufs u q) = b" "b_data (bufs u q) = v1 b" by simp_all
      show ?case
      proof (rule at_write_brelse [OF u(1) _ u(2) [symmetric]], goal_cases)
        case (4 w)
        have "card (free_blocks (sb s0) v) \<le> card (free_blocks (sb s0) v1) + 2" using g by (simp add: grow_def)
        moreover have "tx_at p {} (v1(b := blit (unat off mod BSIZE) ((!) src) c (v1 b))) (n + 6) (upd_di ip (\<lambda>_. d1) s0) w"
          using 4(1) by (simp add: u(3) ac_simps)
        ultimately show ?case using S by metis
      qed (use r db in \<open>simp_all add: data_block_def\<close>)
    qed (use r db in \<open>simp_all add: data_block_def\<close>)
  qed (use r in simp)
qed

lemma writei_loop_ok:
  assumes "tx_at p {} v n s0 s" "fs_ok s0 v" "inode_ok s0 v (idi s0 ip)" "i_dev (icache s0 ip) = 1"
    "unat off + length src \<le> MAXFILE * BSIZE" "n + 6 * int (rounds (unat off) (length src)) + 4 \<le> lg_size (klog s0)"
    "2 * rounds (unat off) (length src) \<le> card (free_blocks (sb s0) v)"
  shows "wp (writei_loop ip off src s) (\<lambda>r t. r = off + of_nat (length src) \<and> (\<exists>v' d'.
    tx_at p {} v' (n + 6 * int (rounds (unat off) (length src))) (upd_di ip (\<lambda>_. d') s0) t \<and>
    extends s0 v (idi s0 ip) v' d' \<and> stored v (idi s0 ip) (unat off) src v' d'))"
  using assms
proof (induction "length src" arbitrary: off src v n s0 s rule: less_induct)
  case less
  define d where "d = idi s0 ip"
  show ?case
  proof (cases "src = []")
    case True
    have "stored v d (unat off) src v d" using True by (auto simp: stored_def)
    moreover have "tx_at p {} v n (upd_di ip (\<lambda>_. d) s0) s" using less.prems(1) by (simp add: d_def upd_di_id)
    ultimately show ?thesis using True extends_refl [OF less.prems(2,3)] by (auto simp: writei_loop.simps rounds_def d_def)
  next
    case False
    define c k where "c = chunk off (length src)" and "k = unat off div BSIZE"
    have c: "0 < c" "c \<le> length src" using False chunk_pos [of "length src" off] chunk_le [of off "length src"] by (simp_all add: c_def)
    note nx = chunk_next [OF less.prems(5), folded c_def k_def]
    have k: "k < MAXFILE" using div_BSIZE [of "unat off"] less.prems(5) False by (cases src) (auto simp: k_def)
    define R where "R = rounds (unat (off + of_nat c)) (length src - c)"
    have R: "rounds (unat off) (length src) = Suc R"
      using rounds_step [of "length src" off] False by (simp add: R_def c_def nx(1) [unfolded c_def])
    have "wp (bmap ip (of_nat k) s) (\<lambda>b s. wp (bread (i_dev (icache s ip)) b s) (\<lambda>bp s.
        wp (log_write bp (upd_buf bp (\<lambda>x. x\<lparr>b_data := blit (unat off mod BSIZE) ((!) src) c (b_data x)\<rparr>) s)) (\<lambda>_ s.
        wp (brelse bp s) (\<lambda>_ s. wp (writei_loop ip (off + of_nat c) (drop c src) s) (\<lambda>r t. r = off + of_nat (length src) \<and> (\<exists>v' d'.
          tx_at p {} v' (n + 6 * int (Suc R)) (upd_di ip (\<lambda>_. d') s0) t \<and> extends s0 v d v' d' \<and> stored v d (unat off) src v' d'))))))"
    proof (rule wp_mono [OF writei_round [OF less.prems(1-5) False _ _, folded c_def k_def]], goal_cases)
      case (3 b t)
      show ?case using 3
      proof (elim wp_mono, goal_cases)
        case (1 q u x w y z)
        then obtain v1 d1 where z: "tx_at p {} v1 (n + 6) (upd_di ip (\<lambda>_. d1) s0) z" and e: "extends s0 v d v1 d1"
          and st: "stored v d (unat off) (take c src) v1 d1" and fr: "card (free_blocks (sb s0) v) \<le> card (free_blocks (sb s0) v1) + 2"
          by (auto simp: d_def)
        have ok1: "fs_ok s0 v1" "inode_ok s0 v1 d1" using extendsD(1,2) [OF e] .
        have "wp (writei_loop ip (off + of_nat c) (drop c src) z) (\<lambda>r t. r = off + of_nat c + of_nat (length src - c) \<and> (\<exists>v' d'.
            tx_at p {} v' (n + 6 + 6 * int R) (upd_di ip (\<lambda>_. d') s0) t \<and> extends s0 v1 d1 v' d' \<and>
            stored v1 d1 (unat off + c) (drop c src) v' d'))"
          using less.hyps [of "drop c src" v1 "n + 6" "upd_di ip (\<lambda>_. d1) s0" z "off + of_nat c"] z ok1 c less.prems(4-7) fr nx(1) R
          by (simp add: R_def upd_di_upd_di)
        then show ?case
        proof (rule wp_mono, elim conjE exE, goal_cases)
          case (1 r t v' d')
          have "extends s0 v d v' d'" using extends_trans [OF e 1(4)] .
          moreover have "stored v d (unat off) src v' d'" using stored_trans [OF st 1(5) c(2) e 1(4)] .
          ultimately show ?case using 1(2,3) c(2) by (auto simp: of_nat_diff algebra_simps intro!: exI [of _ v'] exI [of _ d'])
        qed
      qed
    qed (use less.prems(6,7) R in simp_all)
    then show ?thesis using False nx(2) R by (simp add: writei_loop.simps [of ip off src] wp_bindR Let_def c_def d_def)
  qed
qed

text \<open>A file without holes, its content, and its content after a write.\<close>

definition file_ok :: "'z kst_fs_scheme \<Rightarrow> (uint \<Rightarrow> bytes) \<Rightarrow> dinode \<Rightarrow> bool" where
  "file_ok s v d \<longleftrightarrow> inode_ok s v d \<and> unat (di_size d) \<le> MAXFILE * BSIZE \<and>
     (\<forall>i < unat (di_size d). fblk v d (i div BSIZE) \<noteq> 0)"

lemma file_ok_upd_di [simp]: "file_ok (upd_di ip f s) = file_ok s"
  by (simp add: fun_eq_iff file_ok_def)

definition file_bytes :: "(uint \<Rightarrow> bytes) \<Rightarrow> dinode \<Rightarrow> uchar list" where
  "file_bytes v d = map (fbyte v d) [0..<unat (di_size d)]"

definition overlay :: "nat \<Rightarrow> 'a list \<Rightarrow> 'a list \<Rightarrow> 'a list" where
  "overlay off src xs = take off xs @ src @ drop (off + length src) xs"

definition iblock :: "'z kst_fs_scheme \<Rightarrow> nat \<Rightarrow> uint" where
  "iblock s ip = IBLOCK (i_inum (icache s ip)) (sb s)"

lemma iblock_upd_di [simp]: "iblock (upd_di ip f s) ip = iblock s ip"
  by (simp add: iblock_def)

text \<open>Writing a block of the inode area.\<close>

lemma meta_write:
  assumes "fs_ok s v" "c \<in> inode_blocks (sb s)"
  shows "fs_ok s (v(c := x))" "free_blocks (sb s) (v(c := x)) = free_blocks (sb s) v"
    "inode_ok s v d \<Longrightarrow> k \<le> MAXFILE \<Longrightarrow> fblk (v(c := x)) d k = fblk v d k"
    "inode_ok s v d \<Longrightarrow> inode_ok s (v(c := x)) d"
    "inode_ok s v d \<Longrightarrow> k \<le> MAXFILE \<Longrightarrow> fblk v d k \<noteq> 0 \<Longrightarrow> fblk v d k \<noteq> c"
proof -
  have c: "c \<notin> bitmap (sb s)" "c \<noteq> 1" using assms by (auto simp: fs_ok_def)
  have us: "used (sb s) (v(c := x)) i = used (sb s) v i" if "i < unat (sb_size (sb s))" for i
    using bitmapI [OF that] c by (auto simp: used_def)
  then show fr: "free_blocks (sb s) (v(c := x)) = free_blocks (sb s) v" by (auto simp: free_blocks_def)
  show "fs_ok s (v(c := x))" using assms(1) c unfolding fs_ok_def fr by simp
  show nc: "fblk v d k \<noteq> c" if "inode_ok s v d" "k \<le> MAXFILE" "fblk v d k \<noteq> 0" for k
    using that assms(2) by (auto simp: inode_ok_def data_block_def)
  show fb: "fblk (v(c := x)) d k = fblk v d k" if "inode_ok s v d" "k \<le> MAXFILE" for k
    using nc [OF that(1), of MAXFILE] by (cases "di_addrs d NDIRECT = 0") (auto simp: fblk_def)
  show "inode_ok s (v(c := x)) d" if "inode_ok s v d"
    unfolding inode_ok_def
  proof (intro conjI allI impI inj_onI; (elim CollectE conjE)?)
    fix k assume k: "k \<le> MAXFILE" "fblk (v(c := x)) d k \<noteq> 0"
    show "data_block s (fblk (v(c := x)) d k)" "fblk (v(c := x)) d k < sb_size (sb s)" "used (sb s) (v(c := x)) (unat (fblk (v(c := x)) d k))"
      using that k us by (auto simp: inode_ok_def fb [OF that k(1)] word_less_nat_alt)
  next
    fix k k' assume "k \<le> MAXFILE" "fblk (v(c := x)) d k \<noteq> 0" "k' \<le> MAXFILE" "fblk (v(c := x)) d k = fblk (v(c := x)) d k'"
    then show "k = k'" using inode_ok_inj [OF that, of k k'] fb [OF that] by simp
  qed
qed

lemma iupdate_ok:
  assumes s: "tx_at p {} v n s0 s" and ok: "fs_ok s0 v" "iblock s0 ip \<in> inode_blocks (sb s0)" and dev: "i_dev (icache s0 ip) = 1"
    and r: "n + 5 \<le> lg_size (klog s0)"
  shows "wp (iupdate ip s) (\<lambda>_ t. tx_at p {} (v(iblock s0 ip := dinode_put (dinode_off (i_inum (icache s0 ip))) (idi s0 ip) (v (iblock s0 ip))))
    (n + 1) s0 t)"
proof -
  have b: "iblock s0 ip < disksize s0" "\<not> in_log (klog s0) (iblock s0 ip)" using ok by (auto simp: fs_ok_def)
  note D = tx_atD [OF s]
  show ?thesis
    unfolding iupdate_def wp_bindR Let_def D(5,6) dev iblock_def [symmetric]
  proof (rule wp_mono [OF at_bread [OF s b(1)]], goal_cases)
    case (4 q t)
    then have t: "tx_at p (insert q {}) v n s0 t" "iblock s0 ip = b_blockno (bufs t q)" "b_data (bufs t q) = v (iblock s0 ip)" by simp_all
    show ?case unfolding tx_atD(6) [OF t(1)]
      by (rule at_write_brelse [OF t(1) _ t(2) b(2) r, where F = "dinode_put (dinode_off (i_inum (icache s0 ip))) (idi s0 ip)"])
        (simp_all add: t(3))
  qed (use r in simp_all)
qed

lemma fblk_size [simp]: "fblk v (d\<lparr>di_size := x\<rparr>) = fblk v d"
  by (rule ext) (simp add: fblk_def)

lemma inode_ok_size [simp]: "inode_ok s v (d\<lparr>di_size := x\<rparr>) = inode_ok s v d"
  by (simp add: inode_ok_def)

lemma fbyte_size [simp]: "fbyte v (d\<lparr>di_size := x\<rparr>) = fbyte v d"
  by (rule ext) (simp add: fbyte_def)

lemma sint_of_nat_small: "n \<le> MAXFILE * BSIZE \<Longrightarrow> sint (of_nat n :: uint) = int n"
  using sint_sbintrunc' [of "int n", where 'a = 32] by (simp add: fs_defs signed_take_bit_int_eq_self)

text \<open>The bytes after a write, and the invariants, in terms of the blocks before.\<close>

lemma stored_bytes:
  assumes f: "file_ok s v d" and st: "stored v d off src v' d'" and e: "extends s v d v' d'"
    and l: "off \<le> unat (di_size d)" "off + length src \<le> MAXFILE * BSIZE"
  defines "n \<equiv> max (unat (di_size d)) (off + length src)"
  shows "map (fbyte v' d') [0..<n] = overlay off src (file_bytes v d)" "i < n \<Longrightarrow> fblk v' d' (i div BSIZE) \<noteq> 0" "n \<le> MAXFILE * BSIZE"
proof -
  show n: "n \<le> MAXFILE * BSIZE" using f l(2) by (simp add: n_def file_ok_def)
  have b: "(off \<le> i \<and> i < off + length src \<longrightarrow> fbyte v' d' i = src ! (i - off)) \<and>
      (\<not> (off \<le> i \<and> i < off + length src) \<longrightarrow> fbyte v' d' i = fbyte v d i) \<and> fblk v' d' (i div BSIZE) \<noteq> 0" if i: "i < n" for i
  proof -
    have iM: "i < MAXFILE * BSIZE" using i n by simp
    have k: "i div BSIZE \<le> MAXFILE" using div_BSIZE [OF iM] by simp
    show ?thesis
    proof (cases "off \<le> i \<and> i < off + length src")
      case True
      then show ?thesis using storedD(1) [OF st iM] by simp
    next
      case False
      then have "i < unat (di_size d)" using i l(1) by (auto simp: n_def)
      then have "fblk v d (i div BSIZE) \<noteq> 0" using f by (simp add: file_ok_def)
      then show ?thesis using storedD(2) [OF st iM] extendsD(5) [OF e k] False by auto
    qed
  qed
  then show "fblk v' d' (i div BSIZE) \<noteq> 0" if "i < n" for i using that by blast
  show "map (fbyte v' d') [0..<n] = overlay off src (file_bytes v d)"
  proof (rule nth_equalityI)
    show len: "length (map (fbyte v' d') [0..<n]) = length (overlay off src (file_bytes v d))"
      using l(1) by (auto simp: n_def overlay_def file_bytes_def)
    fix i assume "i < length (map (fbyte v' d') [0..<n])"
    then have i: "i < n" by simp
    then have "off + length src \<le> i \<longrightarrow> i < unat (di_size d)" "i < off \<longrightarrow> i < unat (di_size d)" using l(1) by (auto simp: n_def)
    then show "map (fbyte v' d') [0..<n] ! i = overlay off src (file_bytes v d) ! i"
      using b [OF i] i l(1) by (auto simp: overlay_def file_bytes_def nth_append min_def)
  qed
qed

text \<open>What \<open>writei\<close> leaves: the content is spliced, the inode on disk is brought up to date when the size
  changed, and no block of any other file changed.\<close>

definition written_file :: "'z kst_fs_scheme \<Rightarrow> nat \<Rightarrow> (uint \<Rightarrow> bytes) \<Rightarrow> nat \<Rightarrow> uchar list \<Rightarrow> (uint \<Rightarrow> bytes) \<Rightarrow> dinode \<Rightarrow> bool" where
  "written_file s ip v off src v' d' \<longleftrightarrow> fs_ok s v' \<and> file_ok s v' d' \<and>
     file_bytes v' d' = overlay off src (file_bytes v (idi s ip)) \<and>
     d' = (idi s ip)\<lparr>di_size := di_size d', di_addrs := di_addrs d'\<rparr> \<and>
     (unat (di_size (idi s ip)) < off + length src \<longrightarrow>
        v' (iblock s ip) = dinode_put (dinode_off (i_inum (icache s ip))) d' (v (iblock s ip))) \<and>
     (\<forall>c. c \<notin> bitmap (sb s) \<and> unat c \<notin> free_blocks (sb s) v \<and> c \<noteq> iblock s ip \<and> (c = 0 \<or> c \<notin> fblk v (idi s ip) ` {..MAXFILE}) \<longrightarrow> v' c = v c)"

lemma written_small:
  assumes f: "file_ok s v (idi s ip)" and st: "stored v (idi s ip) off src v' d'" and e: "extends s v (idi s ip) v' d'"
    and l: "off \<le> unat (di_size (idi s ip))" "off + length src \<le> unat (di_size (idi s ip))"
  shows "written_file s ip v off src v' d'"
proof -
  have m: "off + length src \<le> MAXFILE * BSIZE" "max (unat (di_size (idi s ip))) (off + length src) = unat (di_size (idi s ip))"
    using f l(2) by (auto simp: file_ok_def max_def)
  note S = stored_bytes [OF f st e l(1) m(1), unfolded m(2)] and E = extendsD [OF e]
  have sz: "di_size d' = di_size (idi s ip)" by (subst E(3)) simp
  have d': "d' = (idi s ip)\<lparr>di_size := di_size d', di_addrs := di_addrs d'\<rparr>" using E(3) by (metis dinode.ext_inject dinode.surjective dinode.update_convs(5,6))
  show ?thesis
    unfolding written_file_def using E(1,2,7) S d' l(2) sz by (simp add: file_ok_def file_bytes_def)
qed

lemma written_grown:
  assumes ok: "fs_ok s v" "iblock s ip \<in> inode_blocks (sb s)"
    and f: "file_ok s v (idi s ip)" and st: "stored v (idi s ip) off src v' d'" and e: "extends s v (idi s ip) v' d'"
    and l: "off \<le> unat (di_size (idi s ip))" "off + length src \<le> MAXFILE * BSIZE" "unat (di_size (idi s ip)) < off + length src"
    and d'': "d'' = d'\<lparr>di_size := w\<rparr>" "unat w = off + length src"
  shows "written_file s ip v off src (v'(iblock s ip := dinode_put (dinode_off (i_inum (icache s ip))) d'' (v' (iblock s ip)))) d''"
    (is "written_file s ip v off src ?v d''")
proof -
  have m: "max (unat (di_size (idi s ip))) (off + length src) = off + length src" using l(3) by simp
  note S = stored_bytes [OF f st e l(1,2), unfolded m] and E = extendsD [OF e]
  note M = meta_write(1-4) [OF E(1) ok(2), where x = "dinode_put (dinode_off (i_inum (icache s ip))) d'' (v' (iblock s ip))"]
  have ib: "v' (iblock s ip) = v (iblock s ip)"
  proof (rule E(7))
    show "iblock s ip \<notin> bitmap (sb s)" using ok by (auto simp: fs_ok_def)
    have "\<not> data_block s (iblock s ip)" using ok(2) by (simp add: data_block_def)
    then show "unat (iblock s ip) \<notin> free_blocks (sb s) v" using ok(1) by (auto simp: fs_ok_def dest: bspec)
    show "iblock s ip = 0 \<or> iblock s ip \<notin> fblk v (idi s ip) ` {..MAXFILE}"
      using f \<open>\<not> data_block s (iblock s ip)\<close> by (auto simp: file_ok_def inode_ok_def)
  qed
  have fb: "fblk ?v d'' (i div BSIZE) = fblk v' d' (i div BSIZE)" "fbyte ?v d'' i = fbyte v' d' i" if "i < off + length src" for i
  proof -
    have k: "i div BSIZE \<le> MAXFILE" using div_BSIZE [of i] that l(2) by simp
    show "fblk ?v d'' (i div BSIZE) = fblk v' d' (i div BSIZE)" using M(3) [OF E(2) k] d''(1) by simp
    then show "fbyte ?v d'' i = fbyte v' d' i" using meta_write(5) [OF E(1) ok(2) E(2) k] S(2) [OF that] by (simp add: fbyte_def)
  qed
  have "file_bytes ?v d'' = overlay off src (file_bytes v (idi s ip))"
    unfolding S(1) [symmetric] file_bytes_def [of _ d''] using fb(2) d''(2) by (simp add: d''(1))
  moreover have "file_ok s ?v d''" using M(4) [OF E(2)] fb(1) S(2) l(2) d'' by (simp add: file_ok_def)
  moreover have "d'' = (idi s ip)\<lparr>di_size := di_size d'', di_addrs := di_addrs d''\<rparr>"
    unfolding d''(1) by (subst E(3)) simp
  ultimately show ?thesis using M(1) E(7) ib by (simp add: written_file_def)
qed

lemma writei_ok:
  assumes s: "tx_at p {} v n s0 s" and ok: "fs_ok s0 v" "iblock s0 ip \<in> inode_blocks (sb s0)" and f: "file_ok s0 v (idi s0 ip)"
    and dev: "i_dev (icache s0 ip) = 1" "di_type (idi s0 ip) \<noteq> T_DEV"
    and l: "off \<le> di_size (idi s0 ip)" "unat off + length src \<le> MAXFILE * BSIZE"
    and r: "n + 6 * int (rounds (unat off) (length src)) + 5 \<le> lg_size (klog s0)"
      "2 * rounds (unat off) (length src) \<le> card (free_blocks (sb s0) v)"
  shows "wp (writei ip src off s) (\<lambda>r t. r = int (length src) \<and> (\<exists>v' d'.
    tx_at p {} v' (n + 6 * int (rounds (unat off) (length src)) + 1) (upd_di ip (\<lambda>_. d') s0) t \<and> written_file s0 ip v (unat off) src v' d'))"
proof -
  define R where "R = rounds (unat off) (length src)"
  have ic: "icache s = icache s0" using tx_atD(6) [OF s] .
  have l': "unat off \<le> unat (di_size (idi s0 ip))" using l(1) by (simp add: word_le_nat_alt)
  have small: "unat off + length src < 2 ^ 32" "length src \<le> MAXFILE * BSIZE" using l(2) by (simp_all add: fs_defs)
  define e where "e = off + of_nat (length src)"
  have un: "unat e = unat off + length src" using small by (simp add: e_def unat_word_ariths unat_of_nat32)
  have nw: "\<not> e < off" using un by (simp add: word_less_nat_alt)
  have "wp (writei_loop ip off src s) (\<lambda>off' t. off' = e \<and> (\<exists>v' d'. tx_at p {} v' (n + 6 * int R) (upd_di ip (\<lambda>_. d') s0) t \<and>
      extends s0 v (idi s0 ip) v' d' \<and> stored v (idi s0 ip) (unat off) src v' d'))"
    unfolding R_def e_def using writei_loop_ok [OF s ok(1) _ dev(1) l(2)] f r by (simp add: file_ok_def)
  then have "wp (writei_loop ip off src s) (\<lambda>off' t. wp (if 0 < (of_nat (length src) :: uint) \<and> di_size (idi t ip) < off'
      then iupdate ip (upd_di ip (\<lambda>d. d\<lparr>di_size := off'\<rparr>) t) else Ret () t) (\<lambda>_ t. \<exists>v' d'.
      tx_at p {} v' (n + 6 * int R + 1) (upd_di ip (\<lambda>_. d') s0) t \<and> written_file s0 ip v (unat off) src v' d'))"
  proof (rule wp_mono, elim conjE exE)
    fix off' t v' d'
    assume o': "off' = e" and t: "tx_at p {} v' (n + 6 * int R) (upd_di ip (\<lambda>_. d') s0) t"
      and x: "extends s0 v (idi s0 ip) v' d'" and st: "stored v (idi s0 ip) (unat off) src v' d'"
    have it: "idi t ip = d'" using tx_atD(6) [OF t] by simp
    have sz: "di_size d' = di_size (idi s0 ip)" by (subst extendsD(3) [OF x]) simp
    show "wp (if 0 < (of_nat (length src) :: uint) \<and> di_size (idi t ip) < off'
      then iupdate ip (upd_di ip (\<lambda>d. d\<lparr>di_size := off'\<rparr>) t) else Ret () t) (\<lambda>_ t. \<exists>v' d'.
      tx_at p {} v' (n + 6 * int R + 1) (upd_di ip (\<lambda>_. d') s0) t \<and> written_file s0 ip v (unat off) src v' d')"
    proof (cases "unat (di_size (idi s0 ip)) < unat off + length src")
      case True
      define d2 where "d2 = d'\<lparr>di_size := e\<rparr>"
      have c: "0 < (of_nat (length src) :: uint) \<and> di_size (idi t ip) < off'"
        using True l' small un unat_of_nat32 [of "length src"] by (auto simp: word_less_nat_alt it sz o')
      have t2: "tx_at p {} v' (n + 6 * int R) (upd_di ip (\<lambda>_. d2) s0) (upd_di ip (\<lambda>d. d\<lparr>di_size := off'\<rparr>) t)"
        using tx_at_upd_di [OF t, of ip "\<lambda>d. d\<lparr>di_size := off'\<rparr>"] by (simp add: upd_di_upd_di d2_def o')
      note W = written_grown [OF ok f st x l' l(2) True d2_def un]
      show ?thesis unfolding if_P [OF c]
        by (rule wp_mono [OF iupdate_ok [OF t2]]) (use W ok dev extendsD(1) [OF x] r in \<open>auto simp: R_def iblock_def\<close>)
    next
      case False
      then have "\<not> (0 < (of_nat (length src) :: uint) \<and> di_size (idi t ip) < off')"
        using un by (simp add: word_less_nat_alt it sz o')
      moreover have "written_file s0 ip v (unat off) src v' d'" using written_small [OF f st x l'] False by simp
      moreover have "tx_at p {} v' (n + 6 * int R + 1) (upd_di ip (\<lambda>_. d') s0) t" using tx_at_mono [OF t] by simp
      ultimately show ?thesis by auto
    qed
  qed
  then show ?thesis
    using dev(2) l small un nw sint_of_nat_small [OF small(2)]
    by (auto simp: writei_def Let_def wp_bindR ic R_def e_def [symmetric] not_less elim!: wp_mono)
qed

lemma readi_ok:
  assumes s: "tx_at p {} v n s0 s" and f: "file_ok s0 v (idi s0 ip)" and dev: "i_dev (icache s0 ip) = 1" "di_type (idi s0 ip) \<noteq> T_DEV"
    and r: "n + 4 \<le> lg_size (klog s0)" and off: "off \<le> di_size (idi s0 ip)" "unat off + unat m < 2 ^ 32"
  defines "bs \<equiv> take (unat m) (drop (unat off) (file_bytes v (idi s0 ip)))"
  shows "wp (readi ip off m s) (\<lambda>r t. r = (int (length bs), bs) \<and> tx_at p {} v n s0 t)"
proof -
  define d sz where "d = idi s0 ip" and "sz = unat (di_size d)"
  have ic: "icache s = icache s0" using tx_atD(6) [OF s] .
  have o': "unat off \<le> sz" using off(1) by (simp add: sz_def d_def word_le_nat_alt)
  have sz: "sz \<le> MAXFILE * BSIZE" using f by (simp add: file_ok_def sz_def d_def)
  have un: "unat (off + m) = unat off + unat m" using off(2) by (simp add: unat_word_ariths)
  define k where "k = (if off + m > di_size d then di_size d - off else m)"
  have k: "unat k = min (unat m) (sz - unat off)"
    using un o' off(1) by (auto simp: k_def word_less_nat_alt sz_def unat_sub d_def)
  have bs: "bs = map (\<lambda>i. fbyte v d (unat off + i)) [0..<unat k]"
    unfolding bs_def k by (rule nth_equalityI) (auto simp: file_bytes_def sz_def d_def)
  have len: "length bs = unat k" by (simp add: bs)
  have "unat k \<le> MAXFILE * BSIZE" using k sz by simp
  then have "sint k = int (unat k)" using sint_of_nat_small [of "unat k"] by simp
  moreover have "wp (readi_loop ip off (unat k) s) (\<lambda>xs t. xs = bs \<and> tx_at p {} v n s0 t)"
    unfolding bs d_def
    by (rule readi_loop_ok [OF s _ r dev(1)]) (use f k o' sz in \<open>auto simp: file_ok_def sz_def d_def\<close>)
  moreover have "\<not> off + m < off" using un by (simp add: word_less_nat_alt)
  ultimately show ?thesis
    using dev(2) off(1) len by (auto simp: readi_def ic Let_def wp_bindR k_def [symmetric] d_def [symmetric] not_less elim!: wp_mono)
qed

text \<open>The invariant of the log and the blocks seen depend on the lower layers of the state only.\<close>

lemma tx_inv_lower:
  fixes s :: "'a kst_log_scheme" and t :: "'b kst_log_scheme"
  assumes "bufs s = bufs t" "slocks s = slocks t" "mach s = mach t" "procs s = procs t" "klog s = klog t" "disk s = disk t" "disksize s = disksize t"
  shows "tx_inv p H s = tx_inv p H t" "view s = view t"
proof -
  show "tx_inv p H s = tx_inv p H t"
    using assms by (simp add: tx_inv_def log_inv_def bio_inv_def dblocks_def dirties_def nxt_def prv_def)
  show "view s = view t" using assms by (intro ext) (simp add: view_def cached_def split: option.split)
qed

text \<open>A file system of 1000 blocks with a file of three bytes in block 59; the blocks from 60 on are free.\<close>

definition sb4 :: superblock where
  "sb4 = \<lparr>sb_size = 1000, sb_nblocks = 941, sb_ninodes = 200, sb_nlog = 30, sb_logstart = 2, sb_inodestart = 32, sb_bmapstart = 58\<rparr>"

definition disk4 :: "uint \<Rightarrow> bytes" where
  "disk4 b = (if b = 1 then sb_put sb4 (\<lambda>_. 0)
     else if b = 58 then (\<lambda>i. if i < 7 then 0xFF else if i = 7 then 0x0F else 0) else (\<lambda>_. 0))"

definition dinode4 :: dinode where
  "dinode4 = \<lparr>di_type = T_FILE, di_major = 0, di_minor = 0, di_nlink = 1, di_size = 3, di_addrs = (\<lambda>_. 0)(0 := 59)\<rparr>"

definition fs4 :: kst_fs where
  "fs4 = kst_cons.extend (kst_log.extend (log3 1 disk4) (kst_log.more cons3)) \<lparr>sb = sb4,
     icache = (\<lambda>_. \<lparr>i_dev = 1, i_inum = 5, i_ref = 1, i_valid = 1, i_di = dinode4\<rparr>)\<rparr>"

lemma fs4_simps [simp]:
  "sb fs4 = sb4" "idi fs4 ip = dinode4" "i_dev (icache fs4 ip) = 1" "i_inum (icache fs4 ip) = 5" "disksize fs4 = 1000"
  "lg_size (klog fs4) = 30" "lgn fs4 = 0" "sb_size sb4 = 1000" "sb_ninodes sb4 = 200" "di_type dinode4 = T_FILE" "di_size dinode4 = 3"
  "lg_start (klog fs4) = 2"
  by (simp_all add: fs4_def kst_log.defs kst_cons.defs sb4_def lhdr0_def dinode4_def)

lemma fs4_tx: "tx_inv 3 {} fs4" "view fs4 = disk4"
  using tx_inv_lower [where s = fs4 and t = "log3 1 disk4"] log3_tx(2) [of disk4] log3(3) [of 1 disk4]
  by (simp_all add: fs4_def kst_log.defs kst_cons.defs)

lemma fs4_bitmap: "bitmap sb4 = {58}" "used sb4 disk4 j \<longleftrightarrow> j < 60" if "j < 1000" for j
proof -
  have B: "BBLOCK (of_nat i) sb4 = 58" if "i < 1000" for i
    using that by (simp add: BBLOCK_of_nat sb4_def BPB_def BSIZE_def)
  show "bitmap sb4 = {58}" using B by (auto simp: bitmap_def intro!: image_eqI [of _ _ 0])
  have b: "bit (15 :: uchar) n \<longleftrightarrow> n < 4" if "n < 8" for n
  proof -
    have m: "(15 :: uchar) = mask 4" by (simp add: mask_eq_exp_minus_1)
    show ?thesis unfolding m bit_mask_iff using that by simp
  qed
  have b': "bit (255 :: uchar) n" if "n < 8" for n
  proof -
    have m: "(255 :: uchar) = mask 8" by (simp add: mask_eq_exp_minus_1)
    show ?thesis unfolding m bit_mask_iff using that by simp
  qed
  have "j mod 4096 = j" using that by simp
  then have "used sb4 disk4 j \<longleftrightarrow> j div 8 < 7 \<or> j div 8 = 7 \<and> j mod 8 < 4"
    using B [OF that] b [of "j mod 8"] b' [of "j mod 8"] by (simp add: used_def disk4_def bit_used_iff BPB_def BSIZE_def)
  also have "\<dots> \<longleftrightarrow> j < 60" by presburger
  finally show "used sb4 disk4 j \<longleftrightarrow> j < 60" .
qed

lemma fs4_free: "free_blocks sb4 disk4 = {60..<1000}"
  using fs4_bitmap(2) by (auto simp: free_blocks_def)

lemma fs4_inodes: "inode_blocks sb4 \<subseteq> {32..56}"
proof
  fix c assume "c \<in> inode_blocks sb4"
  then obtain i where i: "i < 200" "c = IBLOCK (of_nat i) sb4" by (auto simp: inode_blocks_def)
  then have "c = of_nat (i div 8 + 32)" by (simp add: IBLOCK_def IPB_def BSIZE_def sb4_def word_arith_nat_div unat_of_nat32)
  moreover have "unat (of_nat (i div 8 + 32) :: uint) = i div 8 + 32" using i(1) by (intro unat_of_nat32) simp
  ultimately show "c \<in> {32..56}" using i(1) by (simp add: word_le_nat_alt)
qed

lemma fs4_ok: "fs_ok fs4 disk4" "file_ok fs4 disk4 dinode4" "iblock fs4 ip \<in> inode_blocks (sb fs4)" "card (free_blocks sb4 disk4) = 940"
proof -
  have db: "data_block fs4 (of_nat j)" if "59 \<le> j" "j < 1000" for j
  proof -
    have u: "unat (of_nat j :: uint) = j" using that by (simp add: unat_of_nat32)
    have "of_nat j \<notin> inode_blocks sb4" using fs4_inodes u that by (auto simp: word_le_nat_alt)
    moreover have "of_nat j \<noteq> (58 :: uint)" "of_nat j \<noteq> (0 :: uint)" "of_nat j \<noteq> (1 :: uint)" using u that by auto
    ultimately show ?thesis using u that fs4_bitmap(1) [of 0] by (simp add: data_block_def word_less_nat_alt in_log_def)
  qed
  have m: "c < 1000 \<and> \<not> in_log (klog fs4) c \<and> c \<noteq> 58 \<and> c \<noteq> 1" if "c \<in> inode_blocks sb4" for c
  proof -
    have "32 \<le> unat c" "unat c \<le> 56" using fs4_inodes that by (auto simp: word_le_nat_alt)
    then show ?thesis by (auto simp: word_less_nat_alt in_log_def)
  qed
  then show "fs_ok fs4 disk4" using db fs4_free fs4_bitmap(1) [of 0] by (auto simp: fs_ok_def disk4_def in_log_def)
  have fb: "fblk disk4 dinode4 k = (if k = 0 then 59 else 0)" if "k \<le> MAXFILE" for k
    using that by (simp add: fblk_def dinode4_def fs_defs)
  have "inode_ok fs4 disk4 dinode4"
    unfolding inode_ok_def using db [of 59] fs4_bitmap(2) [of 59] fb by (auto simp: inj_on_def)
  then show "file_ok fs4 disk4 dinode4" using fb [of 0] by (simp add: file_ok_def fs_defs)
  show "iblock fs4 ip \<in> inode_blocks (sb fs4)" by (simp add: iblock_def inode_blocks_def image_eqI [of _ _ 5])
  show "card (free_blocks sb4 disk4) = 940" by (simp add: fs4_free)
qed

text \<open>
  C14: \<open>balloc\<close> and \<open>bfree\<close>. With no free block \<open>balloc\<close> panics. Otherwise it returns the first free
  block of the bitmap, marks exactly this one as used, fills it with zeros and changes no other block
  outside the bitmap; freeing it again restores every block but the freed one.
\<close>

theorem balloc_bfree_roundtrip:
  assumes "tx_inv p {} s" "fs_ok s (view s)" "lgn s + 7 \<le> lg_size (klog s)"
  defines "free \<equiv> free_blocks (sb s) (view s)"
  shows "if free = {} then balloc 1 s = Panic ''balloc: out of blocks''
    else \<exists>j t u. j \<in> free \<and> (\<forall>i < j. i \<notin> free) \<and> balloc 1 s = Ret (of_nat j) t \<and>
      free_blocks (sb s) (view t) = free - {j} \<and> (\<forall>i < BSIZE. view t (of_nat j) i = 0) \<and>
      (\<forall>c. c \<notin> bitmap (sb s) \<and> c \<noteq> of_nat j \<longrightarrow> view t c = view s c) \<and>
      bfree 1 (of_nat j) t = Ret () u \<and> (\<forall>c. c \<noteq> of_nat j \<longrightarrow> view u c = view s c)"
proof (cases "free = {}")
  case True
  note s = tx_at_start [OF assms(1)]
  define k where "k = (unat (sb_size (sb s)) + BPB - 1) div BPB"
  have "(k - 1) * BPB < unat (sb_size (sb s))" if "0 < k"
    using that div_times_less_eq_dividend [of "unat (sb_size (sb s)) + BPB - 1" BPB]
    by (cases k) (auto simp: k_def BPB_def BSIZE_def)
  then have "balloc 1 s = Panic ''balloc: out of blocks''"
    using balloc_loop_full [OF s assms(2) _ _ _ True [unfolded free_def], of 0 k] assms(3) by (simp add: balloc_def k_def)
  then show ?thesis using True by simp
next
  case False
  note s = tx_at_start [OF assms(1)]
  obtain a t j where b: "balloc 1 s = Ret a t" and j: "j \<in> free" "\<forall>i < j. i \<notin> free" "a = of_nat j"
      and t: "tx_at p {} (allocated (sb s) j (view s)) (lgn s + 2) s t"
    by (rule wpE [OF balloc_ok [OF s assms(2) _ _ _ False [unfolded free_def]]]) (use assms(3) in \<open>auto simp: free_def\<close>)
  note P = allocated_props [OF assms(2) j(1) [unfolded free_def]]
  have ju: "unat (of_nat j :: uint) = j" "j < unat (sb_size (sb s))" "\<not> used (sb s) (view s) j" "data_block s (of_nat j)"
    using j(1) free_blocks_less [of j "sb s" "view s"] assms(2) by (auto simp: free_def free_blocks_def unat_of_nat32 fs_ok_def)
  have bn: "BBLOCK (of_nat j) (sb s) \<noteq> of_nat j" using bitmapI [OF ju(2)] ju(4) by (auto simp: data_block_def)
  obtain u where u: "bfree 1 (of_nat j) t = Ret () u" "view u = (view t)(BBLOCK (of_nat j) (sb s) :=
      clear_bit (j mod BPB) (view t (BBLOCK (of_nat j) (sb s))))"
    by (rule wpE [OF bfree_ok [OF t P(5) _ _ _, where b = "of_nat j"]])
      (use assms(3) ju P(1) [OF ju(2)] tx_atD(2) [OF t] in \<open>auto simp: word_less_nat_alt dest: tx_atD(2)\<close>)
  have vt: "view t = allocated (sb s) j (view s)" using tx_atD(2) [OF t] .
  have "view t (BBLOCK (of_nat j) (sb s)) = mark_bit (j mod BPB) (view s (BBLOCK (of_nat j) (sb s)))"
    using bn by (simp add: vt allocated_def Let_def)
  then have "view u c = view s c" if "c \<noteq> of_nat j" for c
    using that bn ju(3) clear_mark_bit by (auto simp: u(2) used_def) (simp add: vt allocated_def Let_def)
  then show ?thesis
    using False b j u(1) P(2,3,4) vt by (auto simp: free_def zeroed_def)
qed

theorem balloc_bfree_roundtrip_witness:
  "\<exists>t u. balloc 1 fs4 = Ret 60 t \<and> free_blocks sb4 (view t) = {61..<1000} \<and> bfree 1 60 t = Ret () u \<and> view u 58 = disk4 58"
proof -
  from balloc_bfree_roundtrip [of 3 fs4] obtain j t u where j: "j \<in> {60..<1000}" "\<forall>i < j. i \<notin> {60..<1000}"
      and t: "balloc 1 fs4 = Ret (of_nat j) t" "free_blocks sb4 (view t) = {60..<1000} - {j}" "bfree 1 (of_nat j) t = Ret () u"
        "\<forall>c. c \<noteq> of_nat j \<longrightarrow> view u c = view fs4 c"
    using fs4_tx fs4_ok(1) fs4_free by auto
  have "\<not> 60 < j" using j(2) by force
  then have "j = 60" using j(1) by simp
  moreover have "{60..<1000} - {60 :: nat} = {61..<1000}" by auto
  ultimately show ?thesis using t fs4_tx(2) by auto
qed

text \<open>
  C6: the content of files. Writing bytes at an offset inside a file (or at its end) returns their number;
  afterwards the content of the file is the old one with these bytes laid over it, reading the same range
  returns them, the inode block holds the inode when the file grew, the file system and the file are well
  formed, and no block changed but blocks of this file, its inode block, the bitmap and blocks that were free.
\<close>

theorem file_write_read:
  assumes "tx_inv p {} s" "fs_ok s (view s)" "file_ok s (view s) (idi s ip)" "iblock s ip \<in> inode_blocks (sb s)"
    "i_dev (icache s ip) = 1" "di_type (idi s ip) \<noteq> T_DEV"
    "off \<le> di_size (idi s ip)" "unat off + length src \<le> MAXFILE * BSIZE"
    "lgn s + 6 * int (rounds (unat off) (length src)) + 5 \<le> lg_size (klog s)"
    "2 * rounds (unat off) (length src) \<le> card (free_blocks (sb s) (view s))"
  shows "\<exists>t u. writei ip src off s = Ret (int (length src)) t \<and> tx_inv p {} t \<and>
    written_file s ip (view s) (unat off) src (view t) (idi t ip) \<and>
    readi ip off (of_nat (length src)) t = Ret (int (length src), src) u \<and> view u = view t"
proof -
  note s = tx_at_start [OF assms(1)]
  obtain t v' d' where w: "writei ip src off s = Ret (int (length src)) t"
    and t: "tx_at p {} v' (lgn s + 6 * int (rounds (unat off) (length src)) + 1) (upd_di ip (\<lambda>_. d') s) t"
    and f: "written_file s ip (view s) (unat off) src v' d'"
    by (rule wpE [OF writei_ok [OF s assms(2,4,3,5-10)]]) auto
  have it: "idi t ip = d'" "view t = v'" using tx_atD(2,6) [OF t] by simp_all
  have len: "length src < 2 ^ 32" "unat off + length src < 2 ^ 32" using assms(8) by (simp_all add: fs_defs)
  have fb: "file_bytes v' d' = overlay (unat off) src (file_bytes (view s) (idi s ip))" "file_ok s v' d'"
    using f by (simp_all add: written_file_def)
  have ol: "unat off \<le> length (file_bytes (view s) (idi s ip))" using assms(7) by (simp add: file_bytes_def word_le_nat_alt)
  have "unat (di_size d') = length (file_bytes v' d')" by (simp add: file_bytes_def)
  then have o': "off \<le> di_size d'" using ol by (simp add: word_le_nat_alt fb(1) overlay_def)
  have ty: "di_type d' \<noteq> T_DEV" using f assms(6) by (metis dinode.select_convs(1) dinode.surjective dinode.update_convs(5,6) written_file_def)
  have tk: "take (length src) (drop (unat off) (file_bytes v' d')) = src" using ol by (simp add: fb(1) overlay_def)
  have tl: "min (length (file_bytes v' d') - unat off) (length src) = length src" using arg_cong [OF tk, of length] by simp
  have "wp (readi ip off (of_nat (length src)) t) (\<lambda>r u. r = (int (length src), src) \<and> view u = v')"
    by (rule wp_mono [OF readi_ok [OF t]]) (use fb(2) assms(5,9) ty o' len tk tl in \<open>auto simp: unat_of_nat32 tx_at_def\<close>)
  then show ?thesis using w t f it by (auto simp: wp_iff tx_at_def)
qed

theorem file_write_read_witness:
  "\<exists>t u. writei 0 (replicate 600 7) 2 fs4 = Ret 600 t \<and> file_bytes (view t) (idi t 0) = [0, 0] @ replicate 600 7 \<and>
    readi 0 2 600 t = Ret (600, replicate 600 7) u"
proof -
  have fb: "take 2 (file_bytes disk4 dinode4) = [0, 0]" "length (file_bytes disk4 dinode4) = 3"
    by (simp_all add: file_bytes_def fbyte_def fblk_def dinode4_def disk4_def fs_defs upt_rec)
  obtain t u where "writei 0 (replicate 600 7) 2 fs4 = Ret 600 t" "readi 0 2 600 t = Ret (600, replicate 600 7) u"
    and w: "written_file fs4 0 disk4 2 (replicate 600 7) (view t) (idi t 0)"
    using file_write_read [of 3 fs4 0 2 "replicate 600 7"] fs4_tx fs4_ok(1,2,4) fs4_ok(3) [of 0] by (auto simp: rounds_def fs_defs)
  moreover have "file_bytes (view t) (idi t 0) = [0, 0] @ replicate 600 7"
    using w fb by (simp add: written_file_def overlay_def)
  ultimately show ?thesis by blast
qed

end
