(* ===== verification/Xv6_Dir.thy ===== *)
theory Xv6_Dir
  imports Xv6_Content
begin

section \<open>Directories (fs.c)\<close>

text \<open>
  What \<open>dirlookup\<close> and \<open>dirlink\<close> do to the entries of a directory, as a list read off its content
  (\<open>dents\<close>), on top of the content of files.
\<close>

subsection \<open>Entries\<close>

text \<open>The entries in the content of a directory.\<close>

definition dents_of :: "uchar list \<Rightarrow> dirent list" where
  "dents_of bs = map (\<lambda>k. dirent_get (\<lambda>i. bs ! (DIRENT_SIZE * k + i))) [0..<length bs div DIRENT_SIZE]"

definition dents :: "(uint \<Rightarrow> bytes) \<Rightarrow> dinode \<Rightarrow> dirent list" where
  "dents v d = dents_of (file_bytes v d)"

text \<open>The entry of a name: the first one in use whose name is equal in its first \<open>DIRSIZ\<close> bytes.\<close>

definition is_entry :: "bytes \<Rightarrow> dirent \<Rightarrow> bool" where
  "is_entry name de \<longleftrightarrow> de_inum de \<noteq> 0 \<and> cstr DIRSIZ name = cstr DIRSIZ (de_name de)"

definition entry_of :: "bytes \<Rightarrow> dirent list \<Rightarrow> nat option" where
  "entry_of name es = find (\<lambda>k. is_entry name (es ! k)) [0..<length es]"

definition free_slot :: "dirent list \<Rightarrow> nat" where
  "free_slot es = (case find (\<lambda>k. de_inum (es ! k) = 0) [0..<length es] of Some k \<Rightarrow> k | None \<Rightarrow> length es)"

definition dir_ok :: "dinode \<Rightarrow> bool" where
  "dir_ok d \<longleftrightarrow> di_type d = T_DIR \<and> DIRENT_SIZE dvd unat (di_size d)"

lemma dirent_get_cong: "(\<And>i. i < DIRENT_SIZE \<Longrightarrow> d i = d' i) \<Longrightarrow> dirent_get d = dirent_get d'"
  by (auto simp: dirent_get_def get16_def DIRENT_SIZE_def DIRSIZ_def fun_eq_iff)

lemma entry_less:
  assumes "k < x div DIRENT_SIZE"
  shows "DIRENT_SIZE * k + DIRENT_SIZE \<le> x"
proof -
  have "DIRENT_SIZE * Suc k \<le> DIRENT_SIZE * (x div DIRENT_SIZE)" using assms by (intro mult_le_mono2) simp
  also have "\<dots> \<le> x" by simp
  finally show ?thesis by simp
qed

lemma length_dents: "length (dents v d) = unat (di_size d) div DIRENT_SIZE"
  by (simp add: dents_def dents_of_def file_bytes_def)

lemma length_dents_of: "length (dents_of bs) = length bs div DIRENT_SIZE"
  by (simp add: dents_of_def)

lemma dents_of_overlay:
  assumes "DIRENT_SIZE dvd length bs" "k \<le> length bs div DIRENT_SIZE" "\<And>i. DIRSIZ \<le> i \<Longrightarrow> de_name de i = 0"
  shows "dents_of (overlay (DIRENT_SIZE * k) (dirent_bytes de) bs) = overlay k [de] (dents_of bs)"
proof (rule nth_equalityI)
  obtain m where m: "length bs = DIRENT_SIZE * m" using assms(1) by (elim dvdE)
  have km: "k \<le> m" using assms(2) m by (simp add: DIRENT_SIZE_def)
  define bs' where "bs' = overlay (DIRENT_SIZE * k) (dirent_bytes de) bs"
  have lb: "length (dirent_bytes de) = DIRENT_SIZE" by (simp add: dirent_bytes_def)
  have len': "length bs' = DIRENT_SIZE * max m (Suc k)" using km m lb by (auto simp: bs'_def overlay_def max_def DIRENT_SIZE_def)
  have lm: "length (dents_of bs) = m" by (simp add: dents_of_def m DIRENT_SIZE_def)
  show len: "length (dents_of bs') = length (overlay k [de] (dents_of bs))"
    using km by (auto simp: len' overlay_def lm dents_of_def [of bs'] DIRENT_SIZE_def max_def)
  have nth: "bs' ! (DIRENT_SIZE * j + i) = (if j = k then dirent_put de i else bs ! (DIRENT_SIZE * j + i))"
    if "i < DIRENT_SIZE" "j < max m (Suc k)" for i j
  proof -
    have e: "length (take (DIRENT_SIZE * k) bs) = DIRENT_SIZE * k" using km m by (simp add: DIRENT_SIZE_def)
    consider "j < k" | "j = k" | "k < j" by linarith
    then show ?thesis
    proof cases
      case 1
      then have "DIRENT_SIZE * j + i < DIRENT_SIZE * k" using that(1) by (simp add: DIRENT_SIZE_def)
      then show ?thesis using 1 e by (simp add: bs'_def overlay_def nth_append)
    next
      case 2
      then show ?thesis using e that(1) by (simp add: bs'_def overlay_def nth_append dirent_bytes_def)
    next
      case 3
      then have "\<not> DIRENT_SIZE * j + i < DIRENT_SIZE * k + DIRENT_SIZE" "j < m" using that(2) by (auto simp: DIRENT_SIZE_def)
      then show ?thesis using 3 e that(1) m lb by (auto simp: bs'_def overlay_def nth_append dirent_bytes_def DIRENT_SIZE_def)
    qed
  qed
  fix j assume "j < length (dents_of bs')"
  then have j: "j < max m (Suc k)" using len' by (simp add: dents_of_def DIRENT_SIZE_def)
  have "dents_of bs' ! j = dirent_get (\<lambda>i. bs' ! (DIRENT_SIZE * j + i))" using j len' by (simp add: dents_of_def DIRENT_SIZE_def)
  also have "\<dots> = (if j = k then de else dents_of bs ! j)"
  proof (cases "j = k")
    case True
    then have "dirent_get (\<lambda>i. bs' ! (DIRENT_SIZE * j + i)) = dirent_get (dirent_put de)" using nth [OF _ j] by (intro dirent_get_cong) simp
    then show ?thesis using True dirent_get_put [OF assms(3)] by simp
  next
    case False
    then have "dirent_get (\<lambda>i. bs' ! (DIRENT_SIZE * j + i)) = dirent_get (\<lambda>i. bs ! (DIRENT_SIZE * j + i))"
      using nth [OF _ j] by (intro dirent_get_cong) simp
    moreover have "j < m" using False j km by auto
    ultimately show ?thesis using False m by (simp add: dents_of_def DIRENT_SIZE_def)
  qed
  also have "\<dots> = overlay k [de] (dents_of bs) ! j"
    using j km lm by (auto simp: overlay_def nth_append min_def max_def)
  finally show "dents_of bs' ! j = overlay k [de] (dents_of bs) ! j" .
qed

subsection \<open>Looking up and scanning\<close>

text \<open>The assumptions on a directory inside a transaction.\<close>

definition dir_at :: "nat \<Rightarrow> (uint \<Rightarrow> bytes) \<Rightarrow> int \<Rightarrow> 'z kst_fs_scheme \<Rightarrow> nat \<Rightarrow> 'z kst_fs_scheme \<Rightarrow> bool" where
  "dir_at p v n s0 dp s \<longleftrightarrow> tx_at p {} v n s0 s \<and> file_ok s0 v (idi s0 dp) \<and> dir_ok (idi s0 dp) \<and> i_dev (icache s0 dp) = 1 \<and>
     n + 4 \<le> lg_size (klog s0)"

lemma dir_at_icache: "dir_at p v n s0 dp s \<Longrightarrow> icache s = icache s0"
  using tx_atD(6) [of p "{}" v n s0 s] by (simp add: dir_at_def)

lemma dir_size:
  assumes "dir_at p v n s0 dp s" "k < length (dents v (idi s0 dp))"
  shows "DIRENT_SIZE * k + DIRENT_SIZE \<le> unat (di_size (idi s0 dp))" "unat (di_size (idi s0 dp)) \<le> MAXFILE * BSIZE"
    "unat (of_nat (DIRENT_SIZE * k) :: uint) = DIRENT_SIZE * k"
proof -
  show m: "unat (di_size (idi s0 dp)) \<le> MAXFILE * BSIZE" using assms(1) by (simp add: dir_at_def file_ok_def)
  show k: "DIRENT_SIZE * k + DIRENT_SIZE \<le> unat (di_size (idi s0 dp))" using assms(2) by (simp add: length_dents entry_less)
  show "unat (of_nat (DIRENT_SIZE * k) :: uint) = DIRENT_SIZE * k" using k m by (intro unat_of_nat32) (simp add: fs_defs)
qed

lemma read_dirent_ok:
  assumes s: "dir_at p v n s0 dp s" and k: "k < length (dents v (idi s0 dp))"
  shows "wp (read_dirent msg dp (of_nat (DIRENT_SIZE * k)) s) (\<lambda>de t. de = dents v (idi s0 dp) ! k \<and> dir_at p v n s0 dp t)"
proof -
  define d where "d = idi s0 dp"
  note Z = dir_size [OF s k, folded d_def]
  have D: "tx_at p {} v n s0 s" "file_ok s0 v (idi s0 dp)" "i_dev (icache s0 dp) = 1" "di_type (idi s0 dp) \<noteq> T_DEV" "n + 4 \<le> lg_size (klog s0)"
    using s by (auto simp: dir_at_def dir_ok_def fs_defs)
  have u16: "unat (of_nat DIRENT_SIZE :: uint) = DIRENT_SIZE" by (simp add: DIRENT_SIZE_def)
  define bs where "bs = take DIRENT_SIZE (drop (DIRENT_SIZE * k) (file_bytes v d))"
  have len: "length bs = DIRENT_SIZE" using Z(1) by (simp add: bs_def file_bytes_def)
  have "dirent_get (\<lambda>i. bs ! i) = dents v d ! k"
    using k Z(1) by (auto simp: dents_def dents_of_def bs_def file_bytes_def length_dents d_def intro!: dirent_get_cong)
  moreover have "wp (readi dp (of_nat (DIRENT_SIZE * k)) (of_nat DIRENT_SIZE) s) (\<lambda>r t. r = (int DIRENT_SIZE, bs) \<and> tx_at p {} v n s0 t)"
    using readi_ok [OF D, of "of_nat (DIRENT_SIZE * k)" "of_nat DIRENT_SIZE"] Z len u16
    unfolding bs_def d_def by (simp add: word_le_nat_alt fs_defs)
  ultimately show ?thesis using s by (auto simp: read_dirent_def wp_bindR d_def dir_at_def elim!: wp_mono)
qed

lemma next_entry: "of_nat (DIRENT_SIZE * k) + of_nat DIRENT_SIZE = (of_nat (DIRENT_SIZE * Suc k) :: uint)"
  by (simp add: algebra_simps)

lemma find_upt_step: "k < n \<Longrightarrow> find P [k..<n] = (if P k then Some k else find P [Suc k..<n])"
  by (simp add: upt_conv_Cons)

lemma dirlookup_loop_ok:
  assumes "dir_at p v n s0 dp s" "m = length (dents v (idi s0 dp)) - k"
  shows "\<exists>t. dir_at p v n s0 dp t \<and> dirlookup_loop m (of_nat (DIRENT_SIZE * k)) dp name s =
    (case find (\<lambda>k. is_entry name (dents v (idi s0 dp) ! k)) [k..<length (dents v (idi s0 dp))] of None \<Rightarrow> Ret None t
     | Some j \<Rightarrow> bindR (iget 1 (ucast (de_inum (dents v (idi s0 dp) ! j))) t) (\<lambda>ip s. Ret (Some (ip, of_nat (DIRENT_SIZE * j))) s))"
  using assms
proof (induction m arbitrary: k s)
  case (Suc m)
  have k: "k < length (dents v (idi s0 dp))" using Suc.prems(2) by simp
  obtain t where t: "read_dirent ''dirlookup read'' dp (of_nat (DIRENT_SIZE * k)) s = Ret (dents v (idi s0 dp) ! k) t" "dir_at p v n s0 dp t"
    by (rule wpE [OF read_dirent_ok [OF Suc.prems(1) k]]) auto
  have dev: "i_dev (icache t dp) = 1" using dir_at_icache [OF t(2)] t(2) by (simp add: dir_at_def)
  show ?case
  proof (cases "is_entry name (dents v (idi s0 dp) ! k)")
    case True
    then show ?thesis using t dev find_upt_step [OF k] by (auto simp: is_entry_def namecmp_def strncmp_0)
  next
    case False
    then have "dirlookup_loop (Suc m) (of_nat (DIRENT_SIZE * k)) dp name s = dirlookup_loop m (of_nat (DIRENT_SIZE * Suc k)) dp name t"
      using t(1) by (auto simp: is_entry_def namecmp_def strncmp_0 next_entry simp del: of_nat_mult)
    moreover have "m = length (dents v (idi s0 dp)) - Suc k" using Suc.prems(2) by simp
    ultimately show ?thesis using Suc.IH [OF t(2), of "Suc k"] find_upt_step [OF k] False by (simp del: of_nat_mult)
  qed
qed auto

lemma dir_rounds_eq: "dir_ok d \<Longrightarrow> dir_rounds (di_size d) = length (dents v d)"
  by (auto simp: dir_ok_def dir_rounds_def length_dents DIRENT_SIZE_def elim!: dvdE)

lemma dirlookup_ok:
  assumes "dir_at p v n s0 dp s"
  shows "\<exists>t. dir_at p v n s0 dp t \<and> dirlookup dp name s =
    (case entry_of name (dents v (idi s0 dp)) of None \<Rightarrow> Ret None t
     | Some j \<Rightarrow> bindR (iget 1 (ucast (de_inum (dents v (idi s0 dp) ! j))) t) (\<lambda>ip s. Ret (Some (ip, of_nat (DIRENT_SIZE * j))) s))"
proof -
  have "icache s = icache s0" "di_type (idi s0 dp) = T_DIR" "dir_rounds (di_size (idi s0 dp)) = length (dents v (idi s0 dp))"
    using assms dir_at_icache [OF assms] dir_rounds_eq by (auto simp: dir_at_def dir_ok_def)
  then show ?thesis using dirlookup_loop_ok [OF assms, of "length (dents v (idi s0 dp))" 0 name] by (simp add: dirlookup_def entry_of_def)
qed

lemma dirlink_scan_ok:
  assumes "dir_at p v n s0 dp s" "m = length (dents v (idi s0 dp)) - k" "k \<le> length (dents v (idi s0 dp))"
  shows "\<exists>t. dir_at p v n s0 dp t \<and> dirlink_scan m (of_nat (DIRENT_SIZE * k)) dp s = Ret (of_nat (DIRENT_SIZE *
    (case find (\<lambda>k. de_inum (dents v (idi s0 dp) ! k) = 0) [k..<length (dents v (idi s0 dp))] of None \<Rightarrow> length (dents v (idi s0 dp)) | Some j \<Rightarrow> j))) t"
  using assms
proof (induction m arbitrary: k s)
  case (Suc m)
  have k: "k < length (dents v (idi s0 dp))" using Suc.prems(2) by simp
  obtain t where t: "read_dirent ''dirlink read'' dp (of_nat (DIRENT_SIZE * k)) s = Ret (dents v (idi s0 dp) ! k) t" "dir_at p v n s0 dp t"
    by (rule wpE [OF read_dirent_ok [OF Suc.prems(1) k]]) auto
  show ?case
  proof (cases "de_inum (dents v (idi s0 dp) ! k) = 0")
    case True
    then show ?thesis using t find_upt_step [OF k] by (auto simp del: of_nat_mult)
  next
    case False
    then have "dirlink_scan (Suc m) (of_nat (DIRENT_SIZE * k)) dp s = dirlink_scan m (of_nat (DIRENT_SIZE * Suc k)) dp t"
      using t(1) by (simp add: next_entry del: of_nat_mult)
    moreover have "m = length (dents v (idi s0 dp)) - Suc k" using Suc.prems(2) by simp
    ultimately show ?thesis using Suc.IH [OF t(2), of "Suc k"] k find_upt_step [OF k] False by (simp del: of_nat_mult)
  qed
qed auto

lemma free_slot_le: "free_slot es \<le> length es"
  by (auto simp: free_slot_def find_upt_Some split: option.split)

subsection \<open>Adding an entry\<close>

lemma overlay_one:
  assumes "j \<le> length es"
  shows "length (overlay j [e] es) = max (length es) (Suc j)" "k < max (length es) (Suc j) \<Longrightarrow> overlay j [e] es ! k = (if k = j then e else es ! k)"
  using assms by (auto simp: overlay_def nth_append min_def max_def)

lemma entry_of_Some: "entry_of name es = Some k \<longleftrightarrow> k < length es \<and> is_entry name (es ! k) \<and> (\<forall>i < k. \<not> is_entry name (es ! i))"
  by (simp add: entry_of_def find_upt_Some)

lemma entry_of_None: "entry_of name es = None \<longleftrightarrow> (\<forall>k < length es. \<not> is_entry name (es ! k))"
  by (simp add: entry_of_def find_upt_None)

lemma free_slot_free: "free_slot es < length es \<Longrightarrow> de_inum (es ! free_slot es) = 0"
proof (cases "find (\<lambda>k. de_inum (es ! k) = 0) [0..<length es]")
  case (Some k)
  then have "de_inum (es ! k) = 0" by (simp add: find_upt_Some)
  then show ?thesis using Some by (simp add: free_slot_def)
qed (simp add: free_slot_def)

lemma entry_of_overlay:
  assumes "entry_of name es = None" "is_entry name e"
  shows "entry_of name (overlay (free_slot es) [e] es) = Some (free_slot es)"
  using assms overlay_one [OF free_slot_le [of es], where e = e] free_slot_le [of es]
  unfolding entry_of_Some entry_of_None by (auto dest: less_le_trans)

lemma entry_of_overlay_other:
  assumes "\<not> is_entry other e"
  shows "entry_of other (overlay (free_slot es) [e] es) = entry_of other es"
proof -
  have l: "free_slot es \<le> length es" by (rule free_slot_le)
  note O = overlay_one [OF l, where e = e]
  have n: "\<not> is_entry other (es ! free_slot es)" if "free_slot es < length es"
    using free_slot_free [OF that] by (simp add: is_entry_def)
  have A: "is_entry other (overlay (free_slot es) [e] es ! k) \<longleftrightarrow> is_entry other (es ! k)" if "k < length es" for k
    using O(2) [of k] that n assms by auto
  have B: "\<not> is_entry other (overlay (free_slot es) [e] es ! k)" if "\<not> k < length es" "k < max (length es) (Suc (free_slot es))" for k
    using O(2) [OF that(2)] that l assms by auto
  have "entry_of other (overlay (free_slot es) [e] es) = Some k \<longleftrightarrow> entry_of other es = Some k" for k
  proof (cases "k < length es")
    case True
    then have "\<forall>i < k. is_entry other (overlay (free_slot es) [e] es ! i) = is_entry other (es ! i)" using A by simp
    then show ?thesis using A [OF True] True by (simp add: entry_of_Some O(1) less_max_iff_disj)
  next
    case False
    then show ?thesis using B [OF False] by (auto simp: entry_of_Some O(1))
  qed
  then show ?thesis by (metis not_Some_eq)
qed

definition new_entry :: "bytes \<Rightarrow> uint \<Rightarrow> dirent" where
  "new_entry name inum = \<lparr>de_inum = ucast inum, de_name = strncpy (\<lambda>_. 0) name (int DIRSIZ)\<rparr>"

lemma is_entry_new: "is_entry other (new_entry name inum) \<longleftrightarrow> ucast inum \<noteq> (0 :: ushort) \<and> cstr DIRSIZ other = cstr DIRSIZ name"
  by (simp add: is_entry_def new_entry_def cstr_strncpy)

lemma rounds_entry: "rounds (DIRENT_SIZE * k) DIRENT_SIZE = 1"
proof -
  have "(16 * k) mod 512 = 16 * (k mod 32)" using mult_mod_right [of 16 k 32] by simp
  moreover have "16 * (k mod 32) + 15 < 512" using mod_less_divisor [of 32 k] by simp
  ultimately show ?thesis by (simp add: rounds_def DIRENT_SIZE_def BSIZE_def)
qed

lemma dirlink_ok:
  assumes s: "dir_at p v n s0 dp s" and ok: "fs_ok s0 v" "iblock s0 dp \<in> inode_blocks (sb s0)"
    and r: "unat (di_size (idi s0 dp)) + DIRENT_SIZE \<le> MAXFILE * BSIZE" "n + 11 \<le> lg_size (klog s0)" "2 \<le> card (free_blocks (sb s0) v)"
    and e: "entry_of name (dents v (idi s0 dp)) = None"
  shows "\<exists>t v' d'. dirlink dp name inum s = Ret 0 t \<and> tx_at p {} v' (n + 7) (upd_di dp (\<lambda>_. d') s0) t \<and>
    written_file s0 dp v (DIRENT_SIZE * free_slot (dents v (idi s0 dp))) (dirent_bytes (new_entry name inum)) v' d'"
proof -
  define d j where "d = idi s0 dp" and "j = free_slot (dents v d)"
  obtain t where t: "dir_at p v n s0 dp t" "dirlookup dp name s = Ret None t"
    using dirlookup_ok [OF s, of name] e by auto
  have dr: "dir_rounds (di_size (idi t dp)) = length (dents v d)"
    using t(1) dir_at_icache [OF t(1)] dir_rounds_eq by (simp add: dir_at_def d_def)
  obtain u where u: "dir_at p v n s0 dp u" "dirlink_scan (dir_rounds (di_size (idi t dp))) 0 dp t = Ret (of_nat (DIRENT_SIZE * j)) u"
    using dirlink_scan_ok [OF t(1), of "length (dents v d)" 0, folded d_def] by (auto simp: dr j_def free_slot_def)
  have D: "tx_at p {} v n s0 u" "file_ok s0 v (idi s0 dp)" "i_dev (icache s0 dp) = 1" "di_type (idi s0 dp) \<noteq> T_DEV"
    using u(1) by (auto simp: dir_at_def dir_ok_def fs_defs)
  have "DIRENT_SIZE * j \<le> DIRENT_SIZE * (unat (di_size d) div DIRENT_SIZE)"
    using free_slot_le [of "dents v d"] by (intro mult_le_mono2) (simp add: length_dents j_def)
  also have "\<dots> \<le> unat (di_size d)" by simp
  finally have jm: "DIRENT_SIZE * j \<le> unat (di_size (idi s0 dp))" by (simp add: d_def)
  have uj: "unat (of_nat (DIRENT_SIZE * j) :: uint) = DIRENT_SIZE * j" using jm r(1) by (intro unat_of_nat32) (simp add: fs_defs)
  have lb: "length (dirent_bytes (new_entry name inum)) = DIRENT_SIZE" by (simp add: dirent_bytes_def)
  obtain w v' d' where w: "writei dp (dirent_bytes (new_entry name inum)) (of_nat (DIRENT_SIZE * j)) u = Ret (int DIRENT_SIZE) w"
      "tx_at p {} v' (n + 7) (upd_di dp (\<lambda>_. d') s0) w" "written_file s0 dp v (DIRENT_SIZE * j) (dirent_bytes (new_entry name inum)) v' d'"
    by (rule wpE [OF writei_ok [OF D(1) ok D(2-4), of "of_nat (DIRENT_SIZE * j)" "dirent_bytes (new_entry name inum)"]])
      (use jm r uj in \<open>auto simp: lb rounds_entry word_le_nat_alt ac_simps\<close>)
  have "dirlink dp name inum s = Ret 0 w"
    using t(2) u(2) w(1) by (simp add: dirlink_def new_entry_def)
  then show ?thesis using w(2,3) unfolding j_def d_def by blast
qed

lemma ucast_inum: "inum < 2 ^ 16 \<Longrightarrow> ucast (ucast inum :: ushort) = (inum :: uint)"
  by (simp add: word_unat_eq_iff word_less_nat_alt unsigned_ucast_eq unsigned_take_bit_eq take_bit_nat_eq_self)

lemma written_dir_ok:
  assumes w: "written_file s dp v (DIRENT_SIZE * j) (dirent_bytes de) v' d'" and d: "dir_ok (idi s dp)" "j \<le> length (dents v (idi s dp))"
    and de: "\<And>i. DIRSIZ \<le> i \<Longrightarrow> de_name de i = 0"
  shows "dir_ok d'" "dents v' d' = overlay j [de] (dents v (idi s dp))"
proof -
  define bs where "bs = file_bytes v (idi s dp)"
  have len: "DIRENT_SIZE dvd length bs" using d(1) by (simp add: bs_def file_bytes_def dir_ok_def)
  have fb: "file_bytes v' d' = overlay (DIRENT_SIZE * j) (dirent_bytes de) bs" using w by (simp add: written_file_def bs_def)
  have j: "j \<le> length bs div DIRENT_SIZE" using d(2) by (simp add: dents_def length_dents_of bs_def)
  then show "dents v' d' = overlay j [de] (dents v (idi s dp))"
    using dents_of_overlay [OF len j de] by (simp add: dents_def fb bs_def)
  have "unat (di_size d') = length (file_bytes v' d')" by (simp add: file_bytes_def)
  also have "\<dots> = min (length bs) (DIRENT_SIZE * j) + (DIRENT_SIZE + (length bs - (DIRENT_SIZE * j + DIRENT_SIZE)))"
    by (simp add: fb overlay_def dirent_bytes_def)
  finally have "DIRENT_SIZE dvd unat (di_size d')" using len by (auto simp: min_def dvd_diff_nat)
  moreover have "di_type d' = di_type (idi s dp)"
    using w by (metis dinode.select_convs(1) dinode.surjective dinode.update_convs(5,6) written_file_def)
  ultimately show "dir_ok d'" using d(1) by (simp add: dir_ok_def)
qed

text \<open>
  C7: directories. Linking a name that is not in a directory stores exactly one entry, in the first free
  slot or at the end; looking the name up afterwards reaches that entry and asks for the inode linked,
  and looking up any other name gives what it gave before.
\<close>

theorem dirlink_dirlookup:
  assumes "tx_inv p {} s" "fs_ok s (view s)" "file_ok s (view s) (idi s dp)" "dir_ok (idi s dp)" "iblock s dp \<in> inode_blocks (sb s)"
    "i_dev (icache s dp) = 1" "unat (di_size (idi s dp)) + DIRENT_SIZE \<le> MAXFILE * BSIZE" "lgn s + 11 \<le> lg_size (klog s)"
    "2 \<le> card (free_blocks (sb s) (view s))" "entry_of name (dents (view s) (idi s dp)) = None" "0 < inum" "inum < 2 ^ 16"
  defines "es \<equiv> dents (view s) (idi s dp)"
  shows "\<exists>t u. dirlink dp name inum s = Ret 0 t \<and> dents (view t) (idi t dp) = overlay (free_slot es) [new_entry name inum] es \<and>
    dirlookup dp name t = bindR (iget 1 inum u) (\<lambda>ip w. Ret (Some (ip, of_nat (DIRENT_SIZE * free_slot es))) w) \<and> view u = view t \<and>
    (\<forall>other. cstr DIRSIZ other \<noteq> cstr DIRSIZ name \<longrightarrow> entry_of other (dents (view t) (idi t dp)) = entry_of other es)"
proof -
  have s: "dir_at p (view s) (lgn s) s dp s" using assms tx_at_start [OF assms(1)] by (simp add: dir_at_def)
  obtain t v' d' where t: "dirlink dp name inum s = Ret 0 t" "tx_at p {} v' (lgn s + 7) (upd_di dp (\<lambda>_. d') s) t"
      and w: "written_file s dp (view s) (DIRENT_SIZE * free_slot es) (dirent_bytes (new_entry name inum)) v' d'"
    using dirlink_ok [OF s assms(2,5,7,8,9,10), of inum] unfolding es_def by blast
  have nm: "de_name (new_entry name inum) i = 0" if "DIRSIZ \<le> i" for i using that by (simp add: new_entry_def strncpy_bounds)
  note W = written_dir_ok [OF w assms(4) _ nm, folded es_def, OF free_slot_le]
  have it: "idi t dp = d'" "view t = v'" using tx_atD(2,6) [OF t(2)] by simp_all
  have uc: "ucast inum \<noteq> (0 :: ushort)" "ucast (de_inum (new_entry name inum)) = inum"
    using ucast_inum [OF assms(12)] assms(11) by (auto simp: new_entry_def)
  have "dir_at p v' (lgn s + 7) (upd_di dp (\<lambda>_. d') s) dp t"
    using t(2) w W(1) assms(6,8) by (simp add: dir_at_def written_file_def)
  from dirlookup_ok [OF this, of name] obtain u where u: "dir_at p v' (lgn s + 7) (upd_di dp (\<lambda>_. d') s) dp u"
      "dirlookup dp name t = bindR (iget 1 inum u) (\<lambda>ip w. Ret (Some (ip, of_nat (DIRENT_SIZE * free_slot es))) w)"
    using entry_of_overlay [OF assms(10) [folded es_def], of "new_entry name inum"] overlay_one(2) [OF free_slot_le [of es]] uc
    by (auto simp: is_entry_new W(2))
  have "view u = v'" using u(1) by (simp add: dir_at_def tx_at_def)
  moreover have "entry_of other (dents v' d') = entry_of other es" if "cstr DIRSIZ other \<noteq> cstr DIRSIZ name" for other
    using that entry_of_overlay_other [of other "new_entry name inum" es] by (simp add: W(2) is_entry_new)
  ultimately show ?thesis using t(1) u(2) W(2) it by auto
qed

text \<open>A directory of two empty entries.\<close>

definition fs5 :: kst_fs where
  "fs5 = upd_di 1 (\<lambda>d. d\<lparr>di_type := T_DIR, di_size := 32\<rparr>) fs4"

theorem dirlink_dirlookup_witness:
  "\<exists>t u. dirlink 1 (\<lambda>i. if i = 0 then 97 else 0) 7 fs5 = Ret 0 t \<and>
    dirlookup 1 (\<lambda>i. if i = 0 then 97 else 0) t = bindR (iget 1 7 u) (\<lambda>ip w. Ret (Some (ip, 0)) w)"
proof -
  have i: "idi fs5 1 = dinode4\<lparr>di_type := T_DIR, di_size := 32\<rparr>" "i_dev (icache fs5 1) = 1" "iblock fs5 1 = iblock fs4 1" by (simp_all add: fs5_def)
  have fb: "fblk disk4 (dinode4\<lparr>di_type := x\<rparr>) = fblk disk4 dinode4" for x by (rule ext) (simp add: fblk_def)
  have f0: "fblk disk4 dinode4 0 \<noteq> 0" by (simp add: fblk_def dinode4_def fs_defs)
  have f: "file_ok fs5 disk4 (dinode4\<lparr>di_type := T_DIR, di_size := 32\<rparr>)"
    using fs4_ok(2) f0 by (auto simp: fs5_def file_ok_def inode_ok_def fb fs_defs)
  have z: "file_bytes disk4 (dinode4\<lparr>di_type := T_DIR, di_size := 32\<rparr>) = replicate 32 0"
    by (rule nth_equalityI) (simp_all add: file_bytes_def fbyte_def fblk_def dinode4_def disk4_def fs_defs)
  have d: "dents disk4 (dinode4\<lparr>di_type := T_DIR, di_size := 32\<rparr>) = [dirent_get (\<lambda>_. 0), dirent_get (\<lambda>_. 0)]"
    by (auto simp: dents_def dents_of_def z DIRENT_SIZE_def upt_rec intro!: dirent_get_cong)
  have "de_inum (dirent_get (\<lambda>_. 0)) = 0" by (simp add: dirent_get_def get16_def le16_def)
  then have "entry_of name [dirent_get (\<lambda>_. 0), dirent_get (\<lambda>_. 0)] = None" "free_slot [dirent_get (\<lambda>_. 0), dirent_get (\<lambda>_. 0)] = 0" for name
    by (simp_all add: entry_of_def is_entry_def free_slot_def upt_rec)
  then show ?thesis
    using dirlink_dirlookup [of 3 fs5 1 "\<lambda>i. if i = 0 then 97 else 0" 7] fs4_tx fs4_ok(1,4) fs4_ok(3) [of 1] f i d
    by (auto simp: fs5_def dir_ok_def DIRENT_SIZE_def fs_defs)
qed

end
