(* ===== verification/Xv6_Pipe.thy ===== *)
theory Xv6_Pipe
  imports Xv6_Fs
begin

section \<open>Pipes (pipe.c)\<close>

text \<open>
  A pipe lives in a page of the page allocator and is named by its address. The bytes \<open>pipewrite\<close>
  takes and \<open>piperead\<close> delivers are lists, moved from and to user memory by the callers. Where the
  code sleeps the model switches to the scheduler; the functions with suffix \<open>_return\<close> continue
  from there with the loop they were in.
\<close>

datatype ftype = FD_NONE | FD_PIPE | FD_INODE

record kfile =
  f_type :: ftype
  f_ref :: int
  f_readable :: bool
  f_writable :: bool
  f_pipe :: addr
  f_ip :: nat
  f_off :: uint

record pipe =
  pi_data :: "nat \<Rightarrow> uchar"
  pi_nread :: uint
  pi_nwrite :: uint
  pi_readopen :: int
  pi_writeopen :: int

record kst_file = kst_fs +
  files :: "nat \<Rightarrow> kfile"
  pipes :: "addr \<Rightarrow> pipe"

definition PIPESIZE :: nat where "PIPESIZE = 512"

definition upd_file :: "nat \<Rightarrow> (kfile \<Rightarrow> kfile) \<Rightarrow> 'z kst_file_scheme \<Rightarrow> 'z kst_file_scheme" where
  "upd_file f g s = s\<lparr>files := (files s)(f := g (files s f))\<rparr>"

definition upd_pipe :: "addr \<Rightarrow> (pipe \<Rightarrow> pipe) \<Rightarrow> 'z kst_file_scheme \<Rightarrow> 'z kst_file_scheme" where
  "upd_pipe p g s = s\<lparr>pipes := (pipes s)(p := g (pipes s p))\<rparr>"

definition pipeclose :: "addr \<Rightarrow> bool \<Rightarrow> 'z kst_file_scheme \<Rightarrow> (unit, 'z kst_file_scheme) res" where
  "pipeclose p writable s =
     bindR (acquire (LkPipe p) s) (\<lambda>_ s.
     bindR (if writable then wakeup (ChNread p) (upd_pipe p (\<lambda>q. q\<lparr>pi_writeopen := 0\<rparr>) s)
            else wakeup (ChNwrite p) (upd_pipe p (\<lambda>q. q\<lparr>pi_readopen := 0\<rparr>) s)) (\<lambda>_ s.
     if pi_readopen (pipes s p) = 0 \<and> pi_writeopen (pipes s p) = 0
     then bindR (release (LkPipe p) s) (\<lambda>_ s. kfree p s)
     else release (LkPipe p) s))"

text \<open>The loop of \<open>pipewrite\<close> over the bytes still to write; \<open>n\<close> is the number of all bytes.\<close>

fun pipewrite_loop :: "addr \<Rightarrow> int \<Rightarrow> uchar list \<Rightarrow> 'z kst_file_scheme \<Rightarrow> (int, 'z kst_file_scheme) res" where
  "pipewrite_loop p n [] s =
     bindR (wakeup (ChNread p) s) (\<lambda>_ s.
     bindR (release (LkPipe p) s) (\<lambda>_ s.
     Ret n s))"
| "pipewrite_loop p n (b # bs) s =
     (if pi_nwrite (pipes s p) = pi_nread (pipes s p) + of_nat PIPESIZE then
        bindR (myproc s) (\<lambda>cp s.
        case cp of None \<Rightarrow> Undef
        | Some q \<Rightarrow>
            if pi_readopen (pipes s p) = 0 \<or> p_killed (procs s q)
            then bindR (release (LkPipe p) s) (\<lambda>_ s. Ret (- 1) s)
            else bindR (wakeup (ChNread p) s) (\<lambda>_ s. sleep_then (ChNwrite p) (LkPipe p) s))
      else
        pipewrite_loop p n bs (upd_pipe p (\<lambda>q. q\<lparr>
          pi_data := (pi_data q)(unat (pi_nwrite q) mod PIPESIZE := b), pi_nwrite := pi_nwrite q + 1\<rparr>) s))"

definition pipewrite :: "addr \<Rightarrow> uchar list \<Rightarrow> 'z kst_file_scheme \<Rightarrow> (int, 'z kst_file_scheme) res" where
  "pipewrite p bs s = bindR (acquire (LkPipe p) s) (\<lambda>_ s. pipewrite_loop p (int (length bs)) bs s)"

definition pipewrite_return ::
  "bool \<Rightarrow> nat \<Rightarrow> addr \<Rightarrow> int \<Rightarrow> uchar list \<Rightarrow> 'z kst_file_scheme \<Rightarrow> (int, 'z kst_file_scheme) res" where
  "pipewrite_return ie q p n bs s =
     bindR (sleep_return ie q (LkPipe p) s) (\<lambda>_ s. pipewrite_loop p n bs s)"

text \<open>The copying loop of \<open>piperead\<close>: at most \<open>n\<close> bytes.\<close>

primrec piperead_copy :: "addr \<Rightarrow> nat \<Rightarrow> 'z kst_file_scheme \<Rightarrow> uchar list \<times> 'z kst_file_scheme" where
  "piperead_copy p 0 s = ([], s)"
| "piperead_copy p (Suc n) s =
     (if pi_nread (pipes s p) = pi_nwrite (pipes s p) then ([], s)
      else
        let b = pi_data (pipes s p) (unat (pi_nread (pipes s p)) mod PIPESIZE);
            (bs, s) = piperead_copy p n (upd_pipe p (\<lambda>q. q\<lparr>pi_nread := pi_nread q + 1\<rparr>) s)
        in (b # bs, s))"

definition piperead_loop :: "addr \<Rightarrow> int \<Rightarrow> 'z kst_file_scheme \<Rightarrow> (int \<times> uchar list, 'z kst_file_scheme) res" where
  "piperead_loop p n s =
     (if pi_nread (pipes s p) = pi_nwrite (pipes s p) \<and> pi_writeopen (pipes s p) \<noteq> 0 then
        bindR (myproc s) (\<lambda>cp s.
        case cp of None \<Rightarrow> Undef
        | Some q \<Rightarrow>
            if p_killed (procs s q)
            then bindR (release (LkPipe p) s) (\<lambda>_ s. Ret (- 1, []) s)
            else sleep_then (ChNread p) (LkPipe p) s)
      else
        let (bs, s) = piperead_copy p (nat n) s in
        bindR (wakeup (ChNwrite p) s) (\<lambda>_ s.
        bindR (release (LkPipe p) s) (\<lambda>_ s.
        Ret (int (length bs), bs) s)))"

definition piperead :: "addr \<Rightarrow> int \<Rightarrow> 'z kst_file_scheme \<Rightarrow> (int \<times> uchar list, 'z kst_file_scheme) res" where
  "piperead p n s = bindR (acquire (LkPipe p) s) (\<lambda>_ s. piperead_loop p n s)"

definition piperead_return ::
  "bool \<Rightarrow> nat \<Rightarrow> addr \<Rightarrow> int \<Rightarrow> 'z kst_file_scheme \<Rightarrow> (int \<times> uchar list, 'z kst_file_scheme) res" where
  "piperead_return ie q p n s = bindR (sleep_return ie q (LkPipe p) s) (\<lambda>_ s. piperead_loop p n s)"

subsection \<open>A pipe is a queue\<close>

definition pipe_ok :: "pipe \<Rightarrow> bool" where
  "pipe_ok q \<longleftrightarrow> unat (pi_nwrite q - pi_nread q) \<le> PIPESIZE"

definition pipe_bytes :: "pipe \<Rightarrow> uchar list" where
  "pipe_bytes q = rseg PIPESIZE (pi_data q) (pi_nread q) (unat (pi_nwrite q - pi_nread q))"

definition pipe_put :: "uchar \<Rightarrow> pipe \<Rightarrow> pipe" where
  "pipe_put b q = q\<lparr>pi_data := (pi_data q)(unat (pi_nwrite q) mod PIPESIZE := b), pi_nwrite := pi_nwrite q + 1\<rparr>"

definition pipe_get :: "pipe \<Rightarrow> uchar \<times> pipe" where
  "pipe_get q = (pi_data q (unat (pi_nread q) mod PIPESIZE), q\<lparr>pi_nread := pi_nread q + 1\<rparr>)"

lemma PIPESIZE_dvd: "PIPESIZE dvd 2 ^ 32"
  by (simp add: PIPESIZE_def)

lemma length_pipe_bytes [simp]: "length (pipe_bytes q) = unat (pi_nwrite q - pi_nread q)"
  by (simp add: pipe_bytes_def)

lemma pipe_count_Suc:
  assumes "n = unat (w - r :: uint)" "n < PIPESIZE"
  shows "unat (w + 1 - r) = Suc n" "w = r + of_nat n"
proof -
  show w: "w = r + of_nat n" using assms(1) by simp
  have "w + 1 - r = of_nat (Suc n)" using w by simp
  then show "unat (w + 1 - r) = Suc n" using assms(2) by (simp only: unat_of_nat) (simp add: PIPESIZE_def)
qed

lemma pipe_put_ok:
  assumes "pipe_ok q" "length (pipe_bytes q) < PIPESIZE"
  shows "pipe_ok (pipe_put b q) \<and> pipe_bytes (pipe_put b q) = pipe_bytes q @ [b]"
proof -
  define n where "n = unat (pi_nwrite q - pi_nread q)"
  have n: "n < PIPESIZE" using assms(2) by (simp add: n_def)
  note c = pipe_count_Suc [OF n_def n]
  show ?thesis
    using rseg_upd_end [OF PIPESIZE_dvd n, of "pi_data q" "pi_nread q" b, folded c(2)] c(1) n
    by (simp add: pipe_ok_def pipe_bytes_def pipe_put_def n_def [symmetric])
qed

lemma pipe_get_ok:
  assumes "pipe_ok q" "pipe_bytes q = b # bs"
  shows "fst (pipe_get q) = b \<and> pipe_ok (snd (pipe_get q)) \<and> pipe_bytes (snd (pipe_get q)) = bs"
proof -
  obtain k where k: "unat (pi_nwrite q - pi_nread q) = Suc k"
    using assms(2) length_pipe_bytes [of q] by (metis length_Cons)
  have "pi_nwrite q - pi_nread q = of_nat (Suc k)" by (simp only: k [symmetric]) simp
  then have "pi_nwrite q - (pi_nread q + 1) = of_nat k" by (simp add: algebra_simps)
  moreover have "k < 2 ^ 32" using k unat32_less [of "pi_nwrite q - pi_nread q"] by simp
  ultimately have u: "unat (pi_nwrite q - (pi_nread q + 1)) = k" by (simp add: unat_of_nat)
  show ?thesis using assms k u
    by (simp add: pipe_ok_def pipe_bytes_def pipe_get_def rseg_Cons)
qed

interpretation pipe_queue: bounded_queue pipe_ok pipe_bytes PIPESIZE pipe_put pipe_get
  by unfold_locales (use pipe_put_ok pipe_get_ok in \<open>auto simp: pipe_ok_def\<close>)

subsection \<open>Effects of reading and writing\<close>

lemma pipe_full_iff:
  "pipe_ok q \<Longrightarrow> pi_nwrite q = pi_nread q + of_nat PIPESIZE \<longleftrightarrow> length (pipe_bytes q) = PIPESIZE"
proof -
  have "pi_nwrite q = pi_nread q + of_nat PIPESIZE \<longleftrightarrow> pi_nwrite q - pi_nread q = of_nat PIPESIZE"
    by (simp add: diff_eq_eq add.commute)
  also have "\<dots> \<longleftrightarrow> unat (pi_nwrite q - pi_nread q) = PIPESIZE"
    unfolding word_unat_eq_iff by (simp add: PIPESIZE_def)
  finally show ?thesis by simp
qed

lemma pipe_empty_iff: "pi_nread q = pi_nwrite q \<longleftrightarrow> pipe_bytes q = []"
  by (auto simp: pipe_bytes_def rseg_def unat_eq_zero)

lemma upd_pipe_simps [simp]:
  "pipes (upd_pipe p f s) p = f (pipes s p)" "q \<noteq> p \<Longrightarrow> pipes (upd_pipe p f s) q = pipes s q"
  "mach (upd_pipe p f s) = mach s" "procs (upd_pipe p f s) = procs s"
  "upd_pipe p f (upd_pipe p g s) = upd_pipe p (\<lambda>q. f (g q)) s"
  "upd_pipe p f (s\<lparr>mach := m\<rparr>) = (upd_pipe p f s)\<lparr>mach := m\<rparr>" "upd_pipe p (\<lambda>q. q) s = s"
  by (simp_all add: upd_pipe_def)

lemma wakeup1_pipes [simp]: "pipes (wakeup1 ch s) = pipes s"
  by (simp add: wakeup1_def)

lemma pipewrite_loop_append:
  assumes "pipe_ok (pipes s p)" "length (pipe_bytes (pipes s p)) + length as \<le> PIPESIZE"
  shows "pipewrite_loop p n (as @ bs) s = pipewrite_loop p n bs (upd_pipe p (fold pipe_put as) s)"
  using assms
proof (induction as arbitrary: s)
  case (Cons a as)
  let ?s = "upd_pipe p (pipe_put a) s"
  have put: "pipe_ok (pipes ?s p)" "pipe_bytes (pipes ?s p) = pipe_bytes (pipes s p) @ [a]"
    using pipe_put_ok [OF Cons.prems(1), of a] Cons.prems(2) by simp_all
  have "pipewrite_loop p n ((a # as) @ bs) s = pipewrite_loop p n (as @ bs) ?s"
    using Cons.prems by (simp add: pipe_full_iff pipe_put_def [abs_def])
  also have "\<dots> = pipewrite_loop p n bs (upd_pipe p (fold pipe_put as) ?s)"
    using put Cons.prems(2) by (intro Cons.IH) (simp_all del: length_pipe_bytes)
  finally show ?case by (simp add: comp_def)
qed (simp add: id_def)

lemma piperead_copy_eq:
  "pipe_ok (pipes s p) \<Longrightarrow> piperead_copy p n s =
     (fst (pipe_queue.deqs n (pipes s p)), upd_pipe p (\<lambda>q. snd (pipe_queue.deqs n (pipes s p))) s)"
proof (induction n arbitrary: s)
  case 0
  then show ?case by (simp add: upd_pipe_def)
next
  case (Suc n)
  let ?s = "upd_pipe p (\<lambda>q. q\<lparr>pi_nread := pi_nread q + 1\<rparr>) s"
  show ?case
  proof (cases "pipe_bytes (pipes s p)")
    case Nil
    then show ?thesis by (simp add: pipe_empty_iff) (simp add: upd_pipe_def)
  next
    case (Cons b bs)
    have g: "pipe_get (pipes s p) = (b, pipes ?s p)" "pipe_ok (pipes ?s p)"
      using pipe_get_ok [OF Suc.prems Cons] by (simp_all add: pipe_get_def)
    have "piperead_copy p (Suc n) s = (b # fst (piperead_copy p n ?s), snd (piperead_copy p n ?s))"
      using Cons g(1) by (simp add: pipe_empty_iff pipe_get_def split_beta)
    then show ?thesis using Suc.IH [OF g(2)] Cons g(1) by (simp add: split_beta)
  qed
qed

text \<open>The lock of the pipe is free, so is that of the process table, and the processor is in order.\<close>

definition pipe_free :: "addr \<Rightarrow> 'z kst_file_scheme \<Rightarrow> bool" where
  "pipe_free p s \<longleftrightarrow> calm (mach s) \<and> free_lock (LkPipe p) (mach s) \<and> free_lock LkPtable (mach s) \<and> pipe_ok (pipes s p)"

lemma pipewrite_all:
  assumes "pipe_free p s" "length (pipe_bytes (pipes s p)) + length bs \<le> PIPESIZE"
  shows "pipewrite p bs s = Ret (int (length bs)) (wakeup1 (ChNread p) (upd_pipe p (fold pipe_put bs) s))"
proof -
  let ?s = "s\<lparr>mach := acq (LkPipe p) (mach s)\<rparr>"
  have "pipewrite_loop p n (bs @ []) ?s = pipewrite_loop p n [] (upd_pipe p (fold pipe_put bs) ?s)" for n
    using assms by (intro pipewrite_loop_append) (simp_all add: pipe_free_def)
  then show ?thesis using assms
    by (simp add: pipewrite_def pipe_free_def acquire_calm release_calm wakeup_calm)
qed

lemma piperead_some:
  assumes "pipe_free p s" "pipe_bytes (pipes s p) \<noteq> [] \<or> pi_writeopen (pipes s p) = 0"
  shows "piperead p n s = Ret (int (length (take (nat n) (pipe_bytes (pipes s p)))), take (nat n) (pipe_bytes (pipes s p)))
    (wakeup1 (ChNwrite p) (upd_pipe p (\<lambda>q. snd (pipe_queue.deqs (nat n) q)) s))"
proof -
  let ?s = "s\<lparr>mach := acq (LkPipe p) (mach s)\<rparr>"
  have "piperead_copy p (nat n) ?s =
      (take (nat n) (pipe_bytes (pipes s p)), upd_pipe p (\<lambda>q. snd (pipe_queue.deqs (nat n) (pipes s p))) ?s)"
    using assms piperead_copy_eq [of ?s p "nat n"] pipe_queue.deqs [of "pipes s p" "nat n"] by (simp add: pipe_free_def)
  moreover have "upd_pipe p (\<lambda>q. snd (pipe_queue.deqs (nat n) (pipes s p))) s = upd_pipe p (\<lambda>q. snd (pipe_queue.deqs (nat n) q)) s"
    by (simp add: upd_pipe_def)
  ultimately show ?thesis using assms
    by (auto simp: piperead_def piperead_loop_def pipe_free_def pipe_empty_iff acquire_calm release_calm wakeup_calm)
qed

lemma pipewrite_full:
  assumes f: "pipe_free p s" and m: "mycli (mach s) = 0" "curproc (mach s) = Some q"
    and q: "\<not> p_killed (procs s q)" "pi_readopen (pipes s p) \<noteq> 0"
    and r: "room = PIPESIZE - length (pipe_bytes (pipes s p))" "room < length bs"
  shows "pipewrite p bs s = Swtch (upd_proc q (\<lambda>k. k\<lparr>p_chan := Some (ChNwrite p), p_state := SLEEPING\<rparr>)
    ((wakeup1 (ChNread p) (upd_pipe p (fold pipe_put (take room bs)) s))\<lparr>mach := acq LkPtable (mach s)\<rparr>))"
proof -
  let ?s = "s\<lparr>mach := acq (LkPipe p) (mach s)\<rparr>" and ?f = "fold pipe_put (take room bs)"
  let ?t = "wakeup1 (ChNread p) (upd_pipe p ?f ?s)"
  obtain b cs where bs: "drop room bs = b # cs" using r(2) by (cases "drop room bs") auto
  have le: "length (pipe_bytes (pipes s p)) \<le> PIPESIZE" using f by (simp add: pipe_free_def pipe_ok_def)
  have put: "pipe_ok (?f (pipes s p)) \<and> pipe_bytes (?f (pipes s p)) = pipe_bytes (pipes s p) @ take room bs"
    using f r le by (intro pipe_queue.enqs) (simp_all add: pipe_free_def)
  have full: "pi_nwrite (?f (pipes s p)) = pi_nread (?f (pipes s p)) + of_nat PIPESIZE"
    using put r le by (simp add: pipe_full_iff del: length_pipe_bytes)
  have keep: "pi_readopen (fold pipe_put xs k) = pi_readopen k" for xs k
    by (induction xs arbitrary: k) (simp_all add: pipe_put_def)
  have "p_killed (procs ?t q) = p_killed (procs s q)" by (simp add: wakeup1_def)
  moreover have "pipewrite_loop p n (take room bs @ drop room bs) ?s = pipewrite_loop p n (b # cs) (upd_pipe p ?f ?s)" for n
    unfolding bs [symmetric] using f r le by (intro pipewrite_loop_append) (simp_all add: pipe_free_def)
  moreover have "sleep (ChNwrite p) (LkPipe p) ?t = Swtch (upd_proc q (\<lambda>k. k\<lparr>p_chan := Some (ChNwrite p), p_state := SLEEPING\<rparr>)
      (?t\<lparr>mach := acq LkPtable (mach s)\<rparr>))"
    using f m by (intro sleep_swtch) (simp_all add: pipe_free_def)
  ultimately show ?thesis using f m q full keep
    by (simp add: pipewrite_def pipe_free_def acquire_calm myproc_calm wakeup_calm sleep_then_def)
qed

subsection \<open>Properties\<close>

definition asleep :: "nat \<Rightarrow> chan \<Rightarrow> 'z kst_proc_scheme \<Rightarrow> bool" where
  "asleep q ch s \<longleftrightarrow> q < NPROC \<and> p_state (procs s q) = SLEEPING \<and> p_chan (procs s q) = Some ch"

lemma asleep_wakeup1 [simp]: "asleep q ch (wakeup1 ch s) = False"
  by (simp add: asleep_def wakeup1_def)

text \<open>A pipe of four bytes whose counters are about to wrap around.\<close>

definition pipe3 :: pipe where
  "pipe3 = \<lparr>pi_data = (\<lambda>i. of_nat i), pi_nread = 0xFFFFFFFE, pi_nwrite = 2, pi_readopen = 1, pi_writeopen = 1\<rparr>"

definition dinode3 :: dinode where
  "dinode3 = \<lparr>di_type = 2, di_major = 0, di_minor = 0, di_nlink = 1, di_size = 0, di_addrs = (\<lambda>_. 0)\<rparr>"

definition fs3 :: kst_fs where
  "fs3 = kst_cons.extend cons3 \<lparr>sb = \<lparr>sb_size = 1000, sb_nblocks = 941, sb_ninodes = 200, sb_nlog = 30, sb_logstart = 2,
     sb_inodestart = 32, sb_bmapstart = 58\<rparr>,
     icache = (\<lambda>_. \<lparr>i_dev = 0, i_inum = 0, i_ref = 0, i_valid = 0, i_di = dinode3\<rparr>)\<rparr>"

definition file3 :: kst_file where
  "file3 = kst_fs.extend fs3 \<lparr>files = (\<lambda>_. \<lparr>f_type = FD_NONE, f_ref = 0, f_readable = False, f_writable = False,
     f_pipe = 0, f_ip = 0, f_off = 0\<rparr>), pipes = (\<lambda>_. pipe3)\<rparr>"

lemma file3_simps [simp]: "mach file3 = mach3" "pipes file3 p = pipe3" "procs file3 = table3 NORM_PRIO"
  by (simp_all add: file3_def kst_fs.defs fs3_def kst_cons.defs cons3_def kst_log.defs)

lemma pipe3: "pipe_ok pipe3" "pipe_bytes pipe3 = [254, 255, 0, 1]"
  by (simp_all add: pipe_ok_def pipe_bytes_def pipe3_def rseg_def PIPESIZE_def upt_rec)

text \<open>
  C8: a pipe delivers the bytes written to it in their order, without loss and without repetition, also when
  its counters wrap around. Writing bytes that fit appends them, returns their number, and leaves no reader
  asleep; reading \<open>n\<close> bytes from a pipe that is not empty delivers the first \<open>n\<close> of them (or all),
  removes exactly these, and leaves no writer asleep.
\<close>

theorem pipe_fifo:
  fixes s :: "'z kst_file_scheme"
  assumes "pipe_free p s" "length (pipe_bytes (pipes s p)) + length bs \<le> PIPESIZE" "bs \<noteq> []"
  shows "\<exists>t u. pipewrite p bs s = Ret (int (length bs)) t \<and> pipe_bytes (pipes t p) = pipe_bytes (pipes s p) @ bs \<and>
    (\<forall>q. \<not> asleep q (ChNread p) t) \<and>
    piperead p n t = Ret (int (length (take (nat n) (pipe_bytes (pipes t p)))), take (nat n) (pipe_bytes (pipes t p))) u \<and>
    pipe_bytes (pipes u p) = drop (nat n) (pipe_bytes (pipes t p)) \<and> (\<forall>q. \<not> asleep q (ChNwrite p) u) \<and> pipe_free p u"
proof -
  define t where "t = wakeup1 (ChNread p) (upd_pipe p (fold pipe_put bs) s)"
  define u where "u = wakeup1 (ChNwrite p) (upd_pipe p (\<lambda>q. snd (pipe_queue.deqs (nat n) q)) t)"
  have w: "pipe_ok (pipes t p)" "pipe_bytes (pipes t p) = pipe_bytes (pipes s p) @ bs"
    using pipe_queue.enqs [of "pipes s p" bs] assms by (simp_all add: pipe_free_def t_def)
  have t: "pipe_free p t" using assms(1) w(1) by (simp add: pipe_free_def t_def)
  have u: "pipe_ok (pipes u p)" "pipe_bytes (pipes u p) = drop (nat n) (pipe_bytes (pipes t p))"
    using pipe_queue.deqs [OF w(1), of "nat n"] by (simp_all add: u_def)
  have "pipe_free p u" using t u(1) by (simp add: pipe_free_def u_def)
  moreover have "piperead p n t = Ret (int (length (take (nat n) (pipe_bytes (pipes t p)))), take (nat n) (pipe_bytes (pipes t p))) u"
    unfolding u_def using w(2) assms(3) by (intro piperead_some [OF t]) simp
  moreover have "pipewrite p bs s = Ret (int (length bs)) t" unfolding t_def by (rule pipewrite_all [OF assms(1,2)])
  moreover have "\<not> asleep q (ChNread p) t" "\<not> asleep q (ChNwrite p) u" for q by (simp_all add: t_def u_def)
  ultimately show ?thesis using w(2) u(2) by blast
qed

theorem pipe_fifo_witness:
  "\<exists>t u. pipewrite 0 [7, 8] file3 = Ret 2 t \<and> piperead 0 5 t = Ret (5, [254, 255, 0, 1, 7]) u \<and> pipe_bytes (pipes u 0) = [8]"
proof -
  have "pipe_free 0 file3" using aloneD(1) [OF alone3] aloneD(3) [OF alone3] pipe3 by (simp add: pipe_free_def)
  from pipe_fifo [OF this, of "[7, 8]" 5] obtain t u where tu:
    "pipewrite 0 [7, 8] file3 = Ret 2 t" "pipe_bytes (pipes t 0) = [254, 255, 0, 1, 7, 8]"
    "piperead 0 5 t = Ret (int (length (take 5 (pipe_bytes (pipes t 0)))), take 5 (pipe_bytes (pipes t 0))) u"
    "pipe_bytes (pipes u 0) = drop 5 (pipe_bytes (pipes t 0))"
    using pipe3 by (auto simp: PIPESIZE_def simp del: length_pipe_bytes)
  then show ?thesis by (auto simp del: length_pipe_bytes)
qed


text \<open>
  C23: a writer with more bytes than a pipe has room for fills the pipe, wakes every reader, and goes to sleep
  with the rest still to be written: the pipe holds its old bytes followed by the first of the new
  ones, no reader is left asleep, and the writer sleeps until a reader wakes it, with the lock of the pipe
  free again and that of the process table held for the switch.
\<close>

theorem pipe_full_blocks:
  fixes s :: "'z kst_file_scheme"
  assumes "pipe_free p s" "mycli (mach s) = 0" "curproc (mach s) = Some q" "q < NPROC"
    and "\<not> p_killed (procs s q)" "pi_readopen (pipes s p) \<noteq> 0"
    and "PIPESIZE < length (pipe_bytes (pipes s p)) + length bs"
  shows "\<exists>t. pipewrite p bs s = Swtch t \<and> pipe_bytes (pipes t p) = take PIPESIZE (pipe_bytes (pipes s p) @ bs) \<and>
    asleep q (ChNwrite p) t \<and> (\<forall>r. \<not> asleep r (ChNread p) t) \<and> mach t = acq LkPtable (mach s)"
proof -
  define room where "room = PIPESIZE - length (pipe_bytes (pipes s p))"
  define f :: "proc \<Rightarrow> proc" where "f = (\<lambda>k. k\<lparr>p_chan := Some (ChNwrite p), p_state := SLEEPING\<rparr>)"
  define t where "t = upd_proc q f
    ((wakeup1 (ChNread p) (upd_pipe p (fold pipe_put (take room bs)) s))\<lparr>mach := acq LkPtable (mach s)\<rparr>)"
  have le: "length (pipe_bytes (pipes s p)) \<le> PIPESIZE" using assms(1) by (simp add: pipe_free_def pipe_ok_def)
  have "pipewrite p bs s = Swtch t"
    unfolding t_def f_def by (rule pipewrite_full [OF assms(1-3,5,6) room_def]) (use assms(7) le in \<open>simp add: room_def\<close>)
  moreover have "pipe_bytes (pipes t p) = pipe_bytes (pipes s p) @ take room bs"
    using pipe_queue.enqs [of "pipes s p" "take room bs"] assms(1) le by (simp add: t_def upd_proc_def pipe_free_def room_def)
  moreover have "asleep q (ChNwrite p) t" using assms(4) by (simp add: asleep_def t_def f_def upd_proc_def)
  moreover have "\<not> asleep r (ChNread p) t" for r by (simp add: asleep_def t_def f_def upd_proc_def wakeup1_def)
  moreover have "mach t = acq LkPtable (mach s)" by (simp add: t_def upd_proc_def)
  ultimately show ?thesis using le by (auto simp: room_def)
qed

theorem pipe_full_blocks_witness:
  "\<exists>t. pipewrite 0 (replicate 600 7) file3 = Swtch t \<and> pipe_bytes (pipes t 0) = [254, 255, 0, 1] @ replicate 508 7 \<and>
     asleep 3 (ChNwrite 0) t"
proof -
  have a: "pipe_free 0 file3" using aloneD(1) [OF alone3] aloneD(3) [OF alone3] pipe3 by (simp add: pipe_free_def)
  have "mycli (mach file3) = 0" "curproc (mach file3) = Some 3" using aloneD(2) [OF alone3] by simp_all
  moreover have "\<not> p_killed (procs file3 3)" by (simp add: table3_def proc1_def proc0_def)
  moreover have "take PIPESIZE (pipe_bytes (pipes file3 0) @ replicate 600 7) = [254, 255, 0, 1] @ replicate 508 7"
    by (simp add: pipe3 PIPESIZE_def del: length_pipe_bytes)
  moreover have "PIPESIZE < length (pipe_bytes (pipes file3 0)) + length (replicate 600 (7 :: uchar))"
    by (simp add: pipe3 PIPESIZE_def del: length_pipe_bytes)
  ultimately show ?thesis using pipe_full_blocks [OF a, of 3 "replicate 600 7"] by (auto simp: NPROC_def pipe3_def)
qed

end
