(* ===== verification/Xv6_Refcount.thy ===== *)
theory Xv6_Refcount
  imports Xv6_Prelude
begin

section \<open>Reference counts\<close>

text \<open>
  The contract of a table of reference-counted entries, shared by the inode cache (\<open>idup\<close>, \<open>iput\<close>) and
  the file table (\<open>filedup\<close>, \<open>fileclose\<close>): duplicating a reference and dropping one change the count of
  this entry only. The contract covers the last reference of the entries in \<open>last\<close>, which stay there while
  they are referenced.
\<close>

datatype rop = RDup nat | RDrop nat

fun rc_run :: "(nat \<Rightarrow> 's \<Rightarrow> (unit, 's) res) \<Rightarrow> (nat \<Rightarrow> 's \<Rightarrow> (unit, 's) res) \<Rightarrow> rop list \<Rightarrow> 's \<Rightarrow> (unit, 's) res" where
  "rc_run dup put [] s = Ret () s"
| "rc_run dup put (RDup i # ops) s = bindR (dup i s) (\<lambda>_ s. rc_run dup put ops s)"
| "rc_run dup put (RDrop i # ops) s = bindR (put i s) (\<lambda>_ s. rc_run dup put ops s)"

text \<open>Only references that are held are duplicated or dropped, no count exceeds the largest \<open>int\<close> of C,
  and the last reference is dropped only of the entries in \<open>L\<close>.\<close>

fun rc_held :: "rop list \<Rightarrow> nat set \<Rightarrow> (nat \<Rightarrow> int) \<Rightarrow> bool" where
  "rc_held [] L c \<longleftrightarrow> True"
| "rc_held (RDup i # ops) L c \<longleftrightarrow> 0 < c i \<and> c i < 2147483647 \<and> rc_held ops L (c(i := c i + 1))"
| "rc_held (RDrop i # ops) L c \<longleftrightarrow> 0 < c i \<and> (c i = 1 \<longrightarrow> i \<in> L) \<and> rc_held ops L (c(i := c i - 1))"

definition rc_after :: "rop list \<Rightarrow> (nat \<Rightarrow> int) \<Rightarrow> nat \<Rightarrow> int" where
  "rc_after ops c i = c i + int (count_list ops (RDup i)) - int (count_list ops (RDrop i))"

lemma rc_after_Cons [simp]:
  "rc_after [] c = c" "rc_after (RDup i # ops) c = rc_after ops (c(i := c i + 1))" "rc_after (RDrop i # ops) c = rc_after ops (c(i := c i - 1))"
  by (auto simp: rc_after_def fun_eq_iff)

locale refcount =
  fixes ok :: "'s \<Rightarrow> bool" and cnt :: "'s \<Rightarrow> nat \<Rightarrow> int" and last :: "'s \<Rightarrow> nat set"
    and dup :: "nat \<Rightarrow> 's \<Rightarrow> (unit, 's) res" and put :: "nat \<Rightarrow> 's \<Rightarrow> (unit, 's) res"
  assumes dup: "ok s \<Longrightarrow> 0 < cnt s i \<Longrightarrow>
      \<exists>t. dup i s = Ret () t \<and> ok t \<and> cnt t = (cnt s)(i := cnt s i + 1) \<and> last s \<subseteq> last t"
    and put: "ok s \<Longrightarrow> 0 < cnt s i \<Longrightarrow> (cnt s i = 1 \<longrightarrow> i \<in> last s) \<Longrightarrow>
      \<exists>t. put i s = Ret () t \<and> ok t \<and> cnt t = (cnt s)(i := cnt s i - 1) \<and> (\<forall>j \<in> last s. cnt t j \<noteq> 0 \<longrightarrow> j \<in> last t)"
begin

lemma run:
  assumes "ok s" "rc_held ops L (cnt s)" "\<forall>j \<in> L. cnt s j \<noteq> 0 \<longrightarrow> j \<in> last s"
  shows "\<exists>t. rc_run dup put ops s = Ret () t \<and> ok t \<and> cnt t = rc_after ops (cnt s)"
  using assms
proof (induction ops arbitrary: s)
  case Nil
  then show ?case by simp
next
  case (Cons op ops)
  show ?case
  proof (cases op)
    case (RDup i)
    then obtain t where t: "dup i s = Ret () t" "ok t" "cnt t = (cnt s)(i := cnt s i + 1)" "last s \<subseteq> last t"
      using dup [of s i] Cons.prems by auto
    have "\<forall>j \<in> L. cnt t j \<noteq> 0 \<longrightarrow> j \<in> last t" using Cons.prems RDup t(3,4) by (auto split: if_splits)
    with Cons.IH [OF t(2), unfolded t(3)] Cons.prems t RDup show ?thesis by (simp del: fun_upd_apply)
  next
    case (RDrop i)
    then obtain t where t: "put i s = Ret () t" "ok t" "cnt t = (cnt s)(i := cnt s i - 1)"
        "\<forall>j \<in> last s. cnt t j \<noteq> 0 \<longrightarrow> j \<in> last t"
      using put [of s i] Cons.prems by auto
    have "\<forall>j \<in> L. cnt t j \<noteq> 0 \<longrightarrow> j \<in> last t" using Cons.prems RDrop t(3,4) by (auto split: if_splits)
    with Cons.IH [OF t(2), unfolded t(3)] Cons.prems t RDrop show ?thesis by (simp del: fun_upd_apply)
  qed
qed

end

end
