(* ===== verification/Xv6_Icache.thy ===== *)
theory Xv6_Icache
  imports Xv6_Content Xv6_Refcount
begin

section \<open>The inode cache (fs.c)\<close>

text \<open>
  The cache of inodes in memory as a table of reference-counted entries: \<open>iget\<close> finds or makes the one entry
  of an inode, \<open>idup\<close> and \<open>iput\<close> count references.
\<close>

text \<open>At most one entry of the cache is in use for an inode, and no reference count is negative.\<close>

definition same_inode :: "uint \<Rightarrow> uint \<Rightarrow> inode \<Rightarrow> bool" where
  "same_inode dev inum i \<longleftrightarrow> i_ref i > 0 \<and> i_dev i = dev \<and> i_inum i = inum"

definition icache_ok :: "(nat \<Rightarrow> inode) \<Rightarrow> bool" where
  "icache_ok t \<longleftrightarrow> (\<forall>i. 0 \<le> i_ref (t i)) \<and>
     (\<forall>i < NINODE. \<forall>j < NINODE. i_ref (t i) > 0 \<and> same_inode (i_dev (t i)) (i_inum (t i)) (t j) \<longrightarrow> i = j)"

text \<open>The number of references to an inode.\<close>

definition irefs :: "uint \<Rightarrow> uint \<Rightarrow> (nat \<Rightarrow> inode) \<Rightarrow> int" where
  "irefs dev inum t = (\<Sum>i<NINODE. if same_inode dev inum (t i) then i_ref (t i) else 0)"

lemma icache_upd [simp]: "icache (upd_inode ip f s) = (icache s)(ip := f (icache s ip))" "mach (upd_inode ip f s) = mach s"
  "slocks (upd_inode ip f s) = slocks s" "procs (upd_inode ip f s) = procs s"
  by (simp_all add: upd_inode_def)

lemma icached_Some: "icached dev inum t = Some i \<longleftrightarrow> i < NINODE \<and> same_inode dev inum (t i) \<and> (\<forall>j < i. \<not> same_inode dev inum (t j))"
  by (simp add: icached_def find_upt_Some same_inode_def)

lemma icached_None: "icached dev inum t = None \<longleftrightarrow> (\<forall>i < NINODE. \<not> same_inode dev inum (t i))"
  by (simp add: icached_def find_upt_None same_inode_def)

lemma iget_eq:
  assumes "alone p (mach s) (procs s)"
  shows "iget dev inum s = (case icached dev inum (icache s) of
       Some ip \<Rightarrow> Ret ip (upd_inode ip (\<lambda>i. i\<lparr>i_ref := i_ref i + 1\<rparr>) s)
     | None \<Rightarrow> case iempty (icache s) of None \<Rightarrow> Panic ''iget: no inodes''
         | Some ip \<Rightarrow> Ret ip (upd_inode ip (\<lambda>i. i\<lparr>i_dev := dev, i_inum := inum, i_ref := 1, i_valid := 0\<rparr>) s))"
  using aloneD [OF assms] by (auto simp: iget_def acquire_calm release_calm upd_inode_def split: option.split)

lemma idup_eq: "alone p (mach s) (procs s) \<Longrightarrow> idup ip s = Ret ip (upd_inode ip (\<lambda>i. i\<lparr>i_ref := i_ref i + 1\<rparr>) s)"
  using aloneD [of p "mach s" "procs s"] by (simp add: idup_def acquire_calm release_calm upd_inode_def)

text \<open>Dropping a reference that does not free the inode: the sleep lock is taken and given back, and the
  count goes down by one.\<close>

definition iput_state :: "nat \<Rightarrow> 'z kst_fs_scheme \<Rightarrow> 'z kst_fs_scheme" where
  "iput_state ip s = upd_inode ip (\<lambda>i. i\<lparr>i_ref := i_ref i - 1\<rparr>)
     (upd_slock (SlInode ip) (\<lambda>l. l\<lparr>sl_locked := 0, sl_pid := 0\<rparr>) s)"

lemma iput_kept:
  assumes a: "alone p (mach s) (procs s)" and l: "sl_locked (slocks s (SlInode ip)) = 0"
    and k: "i_valid (icache s ip) = 0 \<or> di_nlink (idi s ip) \<noteq> 0 \<or> i_ref (icache s ip) \<noteq> 1"
  shows "iput ip s = Ret () (iput_state ip s)"
proof -
  define s1 where "s1 = upd_slock (SlInode ip) (\<lambda>l. l\<lparr>sl_locked := 1, sl_pid := p_pid (procs s p)\<rparr>) s"
  define s2 where "s2 = upd_slock (SlInode ip) (\<lambda>l. l\<lparr>sl_locked := 0, sl_pid := 0\<rparr>) s1"
  have f: "mach s1 = mach s" "procs s1 = procs s" "icache s1 = icache s" "mach s2 = mach s" "procs s2 = procs s" "icache s2 = icache s"
    by (simp_all add: s1_def s2_def upd_slock_def)
  have 1: "acquiresleep (SlInode ip) s = Ret () s1" using acquiresleep_alone [OF a l] by (simp add: s1_def)
  have 2: "releasesleep (SlInode ip) s1 = Ret () s2" using releasesleep_alone [of p s1 "SlInode ip"] a f by (simp add: s2_def)
  have e: "s2 = upd_slock (SlInode ip) (\<lambda>l. l\<lparr>sl_locked := 0, sl_pid := 0\<rparr>) s"
    by (simp add: s1_def s2_def upd_slock_def)
  note A = aloneD [OF a]
  have 3: "bindR (acquire LkIcache s2) (\<lambda>_ s. release LkIcache (upd_inode ip (\<lambda>i. i\<lparr>i_ref := i_ref i - 1\<rparr>) s)) = Ret () (iput_state ip s)"
    using A by (simp add: acquire_calm release_calm f upd_inode_def iput_state_def e [symmetric])
  have 4: "(if i_valid (icache s1 ip) \<noteq> 0 \<and> di_nlink (idi s1 ip) = 0 then
              bindR (acquire LkIcache s1) (\<lambda>_ s.
              let r = i_ref (icache s ip) in
              bindR (release LkIcache s) (\<lambda>_ s.
              if r = 1 then
                bindR (itrunc ip s) (\<lambda>_ s.
                bindR (iupdate ip (upd_di ip (\<lambda>d. d\<lparr>di_type := 0\<rparr>) s)) (\<lambda>_ s.
                Ret () (upd_inode ip (\<lambda>i. i\<lparr>i_valid := 0\<rparr>) s)))
              else Ret () s))
            else Ret () s1) = Ret () s1"
    using A k by (auto simp: acquire_calm release_calm f Let_def)
  show ?thesis unfolding iput_def 1 bindR.simps 4 2 using 3 by simp
qed

lemma iput_state [simp]:
  "icache (iput_state ip s) = (icache s)(ip := (icache s ip)\<lparr>i_ref := i_ref (icache s ip) - 1\<rparr>)"
  "mach (iput_state ip s) = mach s" "procs (iput_state ip s) = procs s" "klog (iput_state ip s) = klog s"
  by (simp_all add: iput_state_def upd_inode_def upd_slock_def)

lemma iput_state_unlocked:
  "\<forall>i. sl_locked (slocks s (SlInode i)) = 0 \<Longrightarrow> sl_locked (slocks (iput_state ip s) (SlInode i)) = 0"
  by (simp add: iput_state_def upd_inode_def upd_slock_def)

text \<open>No other process is inside the file system and no inode is locked.\<close>

definition icache_idle :: "nat \<Rightarrow> 'z kst_fs_scheme \<Rightarrow> bool" where
  "icache_idle p s \<longleftrightarrow> alone p (mach s) (procs s) \<and> (\<forall>i. sl_locked (slocks s (SlInode i)) = 0)"

definition idup_unit :: "nat \<Rightarrow> 'z kst_fs_scheme \<Rightarrow> (unit, 'z kst_fs_scheme) res" where
  "idup_unit ip s = bindR (idup ip s) (\<lambda>_ s. Ret () s)"

definition inode_refs :: "'z kst_fs_scheme \<Rightarrow> nat \<Rightarrow> int" where
  "inode_refs s i = i_ref (icache s i)"

text \<open>The entries whose inode is in a directory, or not read yet: their last reference frees nothing on the
  disk.\<close>

definition linked_inodes :: "'z kst_fs_scheme \<Rightarrow> nat set" where
  "linked_inodes s = {i. i_valid (icache s i) = 0 \<or> di_nlink (idi s i) \<noteq> 0}"

lemma inode_refs_upd: "icache u = (icache s)(i := x) \<Longrightarrow> inode_refs u = (inode_refs s)(i := i_ref x)"
  by (rule ext) (simp add: inode_refs_def)

lemma linked_inodes_upd [simp]:
  "linked_inodes (upd_inode i (\<lambda>k. k\<lparr>i_ref := n k\<rparr>) s) = linked_inodes s"
  "linked_inodes (iput_state i s) = linked_inodes s"
  by (auto simp: linked_inodes_def)

interpretation irefs: refcount "icache_idle p" inode_refs linked_inodes idup_unit iput
proof unfold_locales
  fix s :: "'z kst_fs_scheme" and i :: nat
  assume s: "icache_idle p s"
  then show "\<exists>t. idup_unit i s = Ret () t \<and> icache_idle p t \<and> inode_refs t = (inode_refs s)(i := inode_refs s i + 1) \<and>
      linked_inodes s \<subseteq> linked_inodes t"
    by (auto simp: icache_idle_def idup_unit_def idup_eq inode_refs_upd [OF icache_upd(1)])
       (simp add: inode_refs_def)
  assume "inode_refs s i = 1 \<longrightarrow> i \<in> linked_inodes s"
  then have "i_valid (icache s i) = 0 \<or> di_nlink (idi s i) \<noteq> 0 \<or> i_ref (icache s i) \<noteq> 1"
    by (auto simp: inode_refs_def linked_inodes_def)
  with s have "iput i s = Ret () (iput_state i s)" by (intro iput_kept [where p = p]) (simp_all add: icache_idle_def)
  then show "\<exists>t. iput i s = Ret () t \<and> icache_idle p t \<and> inode_refs t = (inode_refs s)(i := inode_refs s i - 1) \<and>
      (\<forall>j \<in> linked_inodes s. inode_refs t j \<noteq> 0 \<longrightarrow> j \<in> linked_inodes t)"
    using s by (auto simp: icache_idle_def iput_state_unlocked inode_refs_upd [OF iput_state(1)])
       (simp add: inode_refs_def)
qed

text \<open>
  C33: the inode cache. \<open>iget\<close> returns an entry of the cache for the inode asked for, the only one with
  references. For an inode already cached it adds one reference and leaves the rest of the entry as it is;
  otherwise it takes an unused entry, with one reference and contents that are not valid yet. It changes
  nothing else of the kernel: no other entry, no block, no lock. It panics only when the inode is not cached
  and every entry is used. Reference counts are below the largest \<open>int\<close> of C.
\<close>

theorem iget_unique:
  assumes "icache_idle p s" "icache_ok (icache s)" "\<forall>j. i_ref (icache s j) < 2147483647"
  shows "case iget dev inum s of
      Ret ip t \<Rightarrow> ip < NINODE \<and> icache_ok (icache t) \<and> (\<forall>j < NINODE. same_inode dev inum (icache t j) \<longleftrightarrow> j = ip) \<and>
        (if same_inode dev inum (icache s ip)
         then t = s\<lparr>icache := (icache s)(ip := (icache s ip)\<lparr>i_ref := i_ref (icache s ip) + 1\<rparr>)\<rparr>
         else i_ref (icache s ip) = 0 \<and>
           t = s\<lparr>icache := (icache s)(ip := (icache s ip)\<lparr>i_dev := dev, i_inum := inum, i_ref := 1, i_valid := 0\<rparr>)\<rparr>) \<and>
        (\<forall>j. i_ref (icache t j) \<le> 2147483647)
    | Panic msg \<Rightarrow> msg = ''iget: no inodes'' \<and> (\<forall>j < NINODE. i_ref (icache s j) > 0 \<and> \<not> same_inode dev inum (icache s j))
    | _ \<Rightarrow> False"
proof -
  have a: "alone p (mach s) (procs s)" using assms(1) by (simp add: icache_idle_def)
  have nn: "\<And>i. 0 \<le> i_ref (icache s i)"
    and un: "\<And>i j. i < NINODE \<Longrightarrow> j < NINODE \<Longrightarrow> i_ref (icache s i) > 0 \<Longrightarrow> same_inode (i_dev (icache s i)) (i_inum (icache s i)) (icache s j) \<Longrightarrow> i = j"
    using assms(2) by (auto simp: icache_ok_def)
  have mx: "i_ref (icache s j) \<le> 2147483647" "i_ref (icache s j) + 1 \<le> 2147483647" for j
    using assms(3) [THEN spec, of j] by simp_all
  consider ip where "icached dev inum (icache s) = Some ip" | ip where "icached dev inum (icache s) = None" "iempty (icache s) = Some ip"
    | "icached dev inum (icache s) = None" "iempty (icache s) = None" by fastforce
  then show ?thesis
  proof cases
    case 1
    then have ip: "ip < NINODE" "same_inode dev inum (icache s ip)" by (simp_all add: icached_Some)
    have "same_inode dev inum (icache s j) \<longleftrightarrow> j = ip" if "j < NINODE" for j
      using un [OF ip(1) that] ip that by (auto simp: same_inode_def)
    moreover have "icache_ok ((icache s)(ip := (icache s ip)\<lparr>i_ref := i_ref (icache s ip) + 1\<rparr>))"
      unfolding icache_ok_def using nn un ip by (auto simp: same_inode_def)
    ultimately show ?thesis using ip 1 nn [of ip] mx by (auto simp: iget_eq [OF a] same_inode_def upd_inode_def)
  next
    case 2
    then have ip: "ip < NINODE" "i_ref (icache s ip) = 0" by (simp_all add: iempty_def find_upt_Some)
    have no: "\<not> same_inode dev inum (icache s j)" if "j < NINODE" for j using 2(1) that by (simp add: icached_None)
    have "icache_ok ((icache s)(ip := (icache s ip)\<lparr>i_dev := dev, i_inum := inum, i_ref := 1, i_valid := 0\<rparr>))"
      unfolding icache_ok_def using nn un ip no by (auto simp: same_inode_def)
    then show ?thesis using ip 2 no mx by (auto simp: iget_eq [OF a] same_inode_def upd_inode_def)
  next
    case 3
    then have "\<forall>j < NINODE. i_ref (icache s j) \<noteq> 0 \<and> \<not> same_inode dev inum (icache s j)" by (simp add: iempty_def find_upt_None icached_None)
    then show ?thesis using 3 nn by (auto simp: iget_eq [OF a] order_less_le)
  qed
qed

text \<open>Two entries of the cache are in use, for the inodes 5 and 6; the others are free.\<close>

definition fs6 :: kst_fs where
  "fs6 = fs4\<lparr>slocks := (\<lambda>_. \<lparr>sl_locked = 0, sl_name = [], sl_pid = 0\<rparr>), icache := (\<lambda>i. \<lparr>i_dev = 1, i_inum = of_nat i + 5, i_ref = (if i < 2 then 1 else 0), i_valid = 1, i_di = dinode4\<rparr>)\<rparr>"

lemma fs6: "icache_idle 3 fs6" "icache_ok (icache fs6)"
  unfolding icache_idle_def
proof (intro conjI allI)
  show "alone 3 (mach fs6) (procs fs6)" using alone3 by (simp add: fs6_def fs4_def kst_log.defs kst_cons.defs)
  show "sl_locked (slocks fs6 (SlInode i)) = 0" for i
    by (simp add: fs6_def)
  show "icache_ok (icache fs6)" by (auto simp: icache_ok_def fs6_def same_inode_def less_Suc_eq numeral_2_eq_2)
qed

theorem iget_unique_witness:
  "iget 1 6 fs6 = Ret 1 (fs6\<lparr>icache := (icache fs6)(1 := (icache fs6 1)\<lparr>i_ref := 2\<rparr>)\<rparr>)"
proof -
  have 1: "same_inode 1 6 (icache fs6 1)" "i_ref (icache fs6 1) = 1" "1 < NINODE" by (simp_all add: fs6_def same_inode_def NINODE_def)
  have m: "\<forall>j. i_ref (icache fs6 j) < 2147483647" by (simp add: fs6_def)
  show ?thesis
  proof (cases "iget 1 6 fs6")
    case (Ret ip t)
    note G = iget_unique [OF fs6 m, of 1 6, unfolded Ret res.case]
    have "ip = 1"
    proof (rule ccontr)
      assume "ip \<noteq> 1"
      then have "icache t 1 = icache fs6 1" using G by (auto split: if_splits)
      then show False using G 1 \<open>ip \<noteq> 1\<close> by metis
    qed
    then show ?thesis using G 1 Ret by simp
  qed (use iget_unique [OF fs6 m, of 1 6] 1 in auto)
qed

end
