(* ===== verification/Xv6_File.thy ===== *)
theory Xv6_File
  imports Xv6_Pipe Xv6_Icache
begin

section \<open>Open files (file.c, pipe.c)\<close>

text \<open>
  The table of open files, shared by all processes and counted by references, and the operations of
  the system calls on an open file. A pointer to a file is its index in the table.
\<close>

definition fileinit :: "'z kst_file_scheme \<Rightarrow> 'z kst_file_scheme" where
  "fileinit s = initlock LkFtable ''ftable'' s"

definition filealloc :: "'z kst_file_scheme \<Rightarrow> (nat option, 'z kst_file_scheme) res" where
  "filealloc s =
     bindR (acquire LkFtable s) (\<lambda>_ s.
     case find (\<lambda>f. f_ref (files s f) = 0) [0..<NFILE] of
       Some f \<Rightarrow> bindR (release LkFtable (upd_file f (\<lambda>k. k\<lparr>f_ref := 1\<rparr>) s)) (\<lambda>_ s. Ret (Some f) s)
     | None \<Rightarrow> bindR (release LkFtable s) (\<lambda>_ s. Ret None s))"

definition filedup :: "nat \<Rightarrow> 'z kst_file_scheme \<Rightarrow> (nat, 'z kst_file_scheme) res" where
  "filedup f s =
     bindR (acquire LkFtable s) (\<lambda>_ s.
     if f_ref (files s f) < 1 then Panic ''filedup''
     else bindR (release LkFtable (upd_file f (\<lambda>k. k\<lparr>f_ref := f_ref k + 1\<rparr>) s)) (\<lambda>_ s. Ret f s))"

definition fileclose :: "nat \<Rightarrow> 'z kst_file_scheme \<Rightarrow> (unit, 'z kst_file_scheme) res" where
  "fileclose f s =
     bindR (acquire LkFtable s) (\<lambda>_ s.
     if f_ref (files s f) < 1 then Panic ''fileclose''
     else
       let s = upd_file f (\<lambda>k. k\<lparr>f_ref := f_ref k - 1\<rparr>) s in
       if f_ref (files s f) > 0 then release LkFtable s
       else
         let ff = files s f; s = upd_file f (\<lambda>k. k\<lparr>f_ref := 0, f_type := FD_NONE\<rparr>) s in
         bindR (release LkFtable s) (\<lambda>_ s.
         case f_type ff of
           FD_PIPE \<Rightarrow> pipeclose (f_pipe ff) (f_writable ff) s
         | FD_INODE \<Rightarrow>
             bindR (begin_op s) (\<lambda>_ s.
             bindR (iput (f_ip ff) s) (\<lambda>_ s.
             end_op s))
         | FD_NONE \<Rightarrow> Ret () s))"

text \<open>Functions that store through a pointer return what they store: \<open>None\<close> is the result -1.\<close>

definition filestat :: "nat \<Rightarrow> 'z kst_file_scheme \<Rightarrow> (stat option, 'z kst_file_scheme) res" where
  "filestat f s =
     (if f_type (files s f) = FD_INODE then
        let ip = f_ip (files s f) in
        bindR (ilock ip s) (\<lambda>_ s.
        let st = stati ip s in
        bindR (iunlock ip s) (\<lambda>_ s.
        Ret (Some st) s))
      else Ret None s)"

definition fileread :: "nat \<Rightarrow> int \<Rightarrow> 'z kst_file_scheme \<Rightarrow> (int \<times> uchar list, 'z kst_file_scheme) res" where
  "fileread f n s =
     (if \<not> f_readable (files s f) then Ret (- 1, []) s
      else case f_type (files s f) of
        FD_PIPE \<Rightarrow> piperead (f_pipe (files s f)) n s
      | FD_INODE \<Rightarrow>
          let ip = f_ip (files s f) in
          bindR (ilock ip s) (\<lambda>_ s.
          bindR (readi ip (f_off (files s f)) (of_int n) s) (\<lambda>(r, bs) s.
          let s = (if r > 0 then upd_file f (\<lambda>k. k\<lparr>f_off := f_off k + of_int r\<rparr>) s else s) in
          bindR (iunlock ip s) (\<lambda>_ s.
          Ret (r, bs) s)))
      | FD_NONE \<Rightarrow> Panic ''fileread'')"

definition WRITE_MAX :: nat where
  "WRITE_MAX = ((MAXOPBLOCKS - 1 - 1 - 2) div 2) * 512"

text \<open>The loop of \<open>filewrite\<close>: one transaction for at most \<open>WRITE_MAX\<close> bytes. The result says
  whether all bytes were written.\<close>

function filewrite_loop :: "nat \<Rightarrow> uchar list \<Rightarrow> 'z kst_file_scheme \<Rightarrow> (bool, 'z kst_file_scheme) res" where
  "filewrite_loop f bs s =
     (if bs = [] then Ret True s
      else
        let n1 = min (length bs) WRITE_MAX; ip = f_ip (files s f) in
        bindR (begin_op s) (\<lambda>_ s.
        bindR (ilock ip s) (\<lambda>_ s.
        bindR (writei ip (take n1 bs) (f_off (files s f)) s) (\<lambda>r s.
        let s = (if r > 0 then upd_file f (\<lambda>k. k\<lparr>f_off := f_off k + of_int r\<rparr>) s else s) in
        bindR (iunlock ip s) (\<lambda>_ s.
        bindR (end_op s) (\<lambda>_ s.
        if r < 0 then Ret False s
        else if r \<noteq> int n1 then Panic ''short filewrite''
        else filewrite_loop f (drop (min (length bs) WRITE_MAX) bs) s))))))"
  by pat_completeness auto
termination
  by (relation "measure (\<lambda>(f, bs, s). length bs)") (auto simp: WRITE_MAX_def MAXOPBLOCKS_def)

declare filewrite_loop.simps [simp del]

definition filewrite :: "nat \<Rightarrow> uchar list \<Rightarrow> 'z kst_file_scheme \<Rightarrow> (int, 'z kst_file_scheme) res" where
  "filewrite f bs s =
     (if \<not> f_writable (files s f) then Ret (- 1) s
      else case f_type (files s f) of
        FD_PIPE \<Rightarrow> pipewrite (f_pipe (files s f)) bs s
      | FD_INODE \<Rightarrow>
          bindR (filewrite_loop f bs s) (\<lambda>all s. Ret (if all then int (length bs) else - 1) s)
      | FD_NONE \<Rightarrow> Panic ''filewrite'')"

text \<open>The label \<open>bad\<close> of \<open>pipealloc\<close>; the pages are not handed out yet when it is reached.\<close>

definition pipealloc_bad :: "nat option \<Rightarrow> nat option \<Rightarrow> 'z kst_file_scheme \<Rightarrow> ((nat \<times> nat) option, 'z kst_file_scheme) res" where
  "pipealloc_bad f0 f1 s =
     bindR (case f0 of None \<Rightarrow> Ret () s | Some f \<Rightarrow> fileclose f s) (\<lambda>_ s.
     bindR (case f1 of None \<Rightarrow> Ret () s | Some f \<Rightarrow> fileclose f s) (\<lambda>_ s.
     Ret None s))"

definition pipealloc :: "'z kst_file_scheme \<Rightarrow> ((nat \<times> nat) option, 'z kst_file_scheme) res" where
  "pipealloc s =
     bindR (filealloc s) (\<lambda>f0 s.
     case f0 of None \<Rightarrow> pipealloc_bad None None s
     | Some r \<Rightarrow>
         bindR (filealloc s) (\<lambda>f1 s.
         case f1 of None \<Rightarrow> pipealloc_bad f0 None s
         | Some w \<Rightarrow>
             bindR (kalloc s) (\<lambda>p s.
             if p = 0 then pipealloc_bad f0 f1 s
             else
               let s = upd_pipe p (\<lambda>q. q\<lparr>pi_readopen := 1, pi_writeopen := 1, pi_nwrite := 0, pi_nread := 0\<rparr>) s;
                   s = initlock (LkPipe p) ''pipe'' s;
                   s = upd_file r (\<lambda>k. k\<lparr>f_type := FD_PIPE, f_readable := True, f_writable := False, f_pipe := p\<rparr>) s;
                   s = upd_file w (\<lambda>k. k\<lparr>f_type := FD_PIPE, f_readable := False, f_writable := True, f_pipe := p\<rparr>) s
               in Ret (Some (r, w)) s)))"

subsection \<open>References to open files\<close>

definition file_refs :: "'z kst_file_scheme \<Rightarrow> nat \<Rightarrow> int" where
  "file_refs s f = f_ref (files s f)"

definition filedup_unit :: "nat \<Rightarrow> 'z kst_file_scheme \<Rightarrow> (unit, 'z kst_file_scheme) res" where
  "filedup_unit f s = bindR (filedup f s) (\<lambda>_ s. Ret () s)"

lemma file_refs_upd: "files u = (files s)(f := x) \<Longrightarrow> file_refs u = (file_refs s)(f := f_ref x)"
  by (rule ext) (simp add: file_refs_def)

lemma upd_file_simps [simp]:
  "mach (upd_file f g s) = mach s" "procs (upd_file f g s) = procs s" "icache (upd_file f g s) = icache s"
  "slocks (upd_file f g s) = slocks s" "klog (upd_file f g s) = klog s" "pipes (upd_file f g s) = pipes s"
  "kend (upd_file f g s) = kend s" "files (upd_file f g s) = (files s)(f := g (files s f))"
  "kmem_inv (upd_file f g s) xs = kmem_inv s xs" "linked_inodes (upd_file f g s) = linked_inodes s"
  by (simp_all add: upd_file_def kmem_inv_def linked_inodes_def)

text \<open>The entry of the file table after its last reference is dropped.\<close>

definition closed :: "nat \<Rightarrow> 'z kst_file_scheme \<Rightarrow> 'z kst_file_scheme" where
  "closed f s = upd_file f (\<lambda>k. k\<lparr>f_ref := 0, f_type := FD_NONE\<rparr>) s"

lemma filedup_eq:
  assumes "alone p (mach s) (procs s)" "0 < f_ref (files s f)"
  shows "filedup f s = Ret f (upd_file f (\<lambda>k. k\<lparr>f_ref := f_ref k + 1\<rparr>) s)"
  using aloneD [OF assms(1)] assms(2) by (simp add: filedup_def acquire_calm release_calm upd_file_def)

lemma fileclose_eq:
  assumes "alone p (mach s) (procs s)"
  shows "1 < f_ref (files s f) \<Longrightarrow> fileclose f s = Ret () (upd_file f (\<lambda>k. k\<lparr>f_ref := f_ref k - 1\<rparr>) s)"
    "f_ref (files s f) = 1 \<Longrightarrow> fileclose f s = (case f_type (files s f) of
       FD_PIPE \<Rightarrow> pipeclose (f_pipe (files s f)) (f_writable (files s f)) (closed f s)
     | FD_INODE \<Rightarrow> bindR (begin_op (closed f s)) (\<lambda>_ u. bindR (iput (f_ip (files s f)) u) (\<lambda>_ u. end_op u))
     | FD_NONE \<Rightarrow> Ret () (closed f s))"
    "f_ref (files s f) < 1 \<Longrightarrow> filedup f s = Panic ''filedup'' \<and> fileclose f s = Panic ''fileclose''"
  using aloneD [OF assms]
  by (auto simp: fileclose_def filedup_def acquire_calm release_calm upd_file_def closed_def Let_def split: ftype.split)

text \<open>A transaction that only drops a reference to an inode writes nothing and leaves the log as it was.\<close>

lemma end_op_empty:
  assumes "alone p (mach s) (procs s)" "lg_outstanding (klog s) = 1" "lg_committing (klog s) = 0" "lh_n (lhdr s) = 0"
  shows "end_op s = Ret () (upd_log (\<lambda>l. l\<lparr>lg_outstanding := 0\<rparr>) s)"
proof -
  let ?u = "upd_log (\<lambda>l. l\<lparr>lg_outstanding := 0\<rparr>) s"
  have e: "upd_log (\<lambda>l. l\<lparr>lg_outstanding := lg_outstanding l - 1, lg_committing := 0\<rparr>) s = ?u"
    using assms(2,3) by (cases "klog s") (simp add: upd_log_def)
  show ?thesis
    using assms aloneD [OF assms(1)] wakeup_log_acq [of p ?u]
    by (simp add: end_op_def commit_def acquire_calm release_calm Let_def e)
qed

definition log_idle :: "'z kst_log_scheme \<Rightarrow> bool" where
  "log_idle s \<longleftrightarrow> lg_outstanding (klog s) = 0 \<and> lg_committing (klog s) = 0 \<and> lh_n (lhdr s) = 0"

lemma iput_transaction:
  assumes "icache_idle p s" "log_idle s" "i_ref (icache s ip) = 1 \<longrightarrow> ip \<in> linked_inodes s"
  shows "bindR (begin_op s) (\<lambda>_ u. bindR (iput ip u) (\<lambda>_ u. end_op u)) = Ret () (iput_state ip s)"
proof -
  let ?u = "upd_log (\<lambda>l. l\<lparr>lg_outstanding := 1\<rparr>) s"
  have a: "alone p (mach s) (procs s)" "\<forall>i. sl_locked (slocks s (SlInode i)) = 0"
    and l: "lg_outstanding (klog s) = 0" "lg_committing (klog s) = 0" "lh_n (lhdr s) = 0"
    using assms(1,2) by (auto simp: icache_idle_def log_idle_def)
  have b: "begin_op s = Ret () ?u"
    using begin_op_ok [OF a(1)] l by (simp add: MAXOPBLOCKS_def LOGSIZE_def upd_log_def)
  have "iput ip ?u = Ret () (iput_state ip ?u)"
    by (rule iput_kept [where p = p]) (use a assms(3) in \<open>auto simp: linked_inodes_def upd_log_def\<close>)
  moreover have "end_op (iput_state ip ?u) = Ret () (upd_log (\<lambda>l. l\<lparr>lg_outstanding := 0\<rparr>) (iput_state ip ?u))"
    by (rule end_op_empty [where p = p]) (use a l in simp_all)
  moreover have "upd_log (\<lambda>l. l\<lparr>lg_outstanding := 0\<rparr>) (iput_state ip ?u) = iput_state ip s"
    using l(1) by (cases "klog s") (simp add: iput_state_def upd_log_def upd_inode_def upd_slock_def)
  ultimately show ?thesis using b by simp
qed

text \<open>Closing an end of a pipe frees its page when the other end is closed already.\<close>

definition pi_end :: "bool \<Rightarrow> pipe \<Rightarrow> int" where
  "pi_end w q = (if w then pi_writeopen q else pi_readopen q)"

lemma wakeup1_upd_pipe [simp]:
  "(wakeup1 ch (upd_pipe pg f s))\<lparr>mach := mach s\<rparr> = wakeup1 ch (upd_pipe pg f s)"
  by (simp add: wakeup1_def upd_pipe_def cong: if_cong)

lemma pipeclose_ok:
  assumes "alone p (mach s) (procs s)" "kmem_inv s xs" "page_ok (kend s) pg" "pg \<notin> set xs"
  shows "\<exists>t. pipeclose pg w s = Ret () t \<and> alone p (mach t) (procs t) \<and> files t = files s \<and> icache t = icache s \<and>
    slocks t = slocks s \<and> klog t = klog s \<and> kend t = kend s \<and>
    pipes t = (pipes s)(pg := (if w then (pipes s pg)\<lparr>pi_writeopen := 0\<rparr> else (pipes s pg)\<lparr>pi_readopen := 0\<rparr>)) \<and>
    kmem_inv t (if pi_end (\<not> w) (pipes s pg) = 0 then pg # xs else xs)"
proof -
  note A = aloneD [OF assms(1)]
  define u where "u = wakeup1 (if w then ChNread pg else ChNwrite pg)
    (upd_pipe pg (\<lambda>q. if w then q\<lparr>pi_writeopen := 0\<rparr> else q\<lparr>pi_readopen := 0\<rparr>) s)"
  have u: "mach u = mach s" "files u = files s" "icache u = icache s" "slocks u = slocks s" "klog u = klog s" "kend u = kend s"
    "pipes u = (pipes s)(pg := (if w then (pipes s pg)\<lparr>pi_writeopen := 0\<rparr> else (pipes s pg)\<lparr>pi_readopen := 0\<rparr>))"
    "mem u = mem s" "kmem u = kmem s"
    by (simp_all add: u_def wakeup1_def upd_pipe_def)
  have a: "alone p (mach u) (procs u)"
    using assms(1) by (auto simp: u_def wakeup1_def alone_def)
  have k: "kmem_inv u xs" using assms(2) u by (simp add: kmem_inv_def)
  let ?v = "u\<lparr>mem := junked pg (freelist (kmem u)) (mem u), kmem := (kmem u)\<lparr>freelist := pg\<rparr>\<rparr>"
  have "pipeclose pg w s = (if pi_end (\<not> w) (pipes s pg) = 0 then kfree pg u else Ret () u)"
    using A u(7) by (cases w) (auto simp: pipeclose_def acquire_calm release_calm wakeup_calm pi_end_def u_def)
  moreover have "kfree pg u = Ret () ?v" using kfree_eq [OF k] assms(3) u by simp
  moreover have "kmem_inv ?v (pg # xs)" using kfree_inv [OF k] assms(3,4) u by simp
  ultimately show ?thesis using a k u by auto
qed

text \<open>
  The file table in order: no process is inside the file system, the log is empty, and every open end of a
  pipe is one file, whose page is not free.
\<close>

definition pipe_file :: "'z kst_file_scheme \<Rightarrow> nat \<Rightarrow> bool" where
  "pipe_file s f \<longleftrightarrow> 0 < f_ref (files s f) \<and> f_type (files s f) = FD_PIPE"

definition pipes_owned :: "addr list \<Rightarrow> 'z kst_file_scheme \<Rightarrow> bool" where
  "pipes_owned xs s \<longleftrightarrow> (\<forall>f. pipe_file s f \<longrightarrow>
     page_ok (kend s) (f_pipe (files s f)) \<and> f_pipe (files s f) \<notin> set xs \<and>
     pi_end (f_writable (files s f)) (pipes s (f_pipe (files s f))) \<noteq> 0 \<and>
     (\<forall>g. pipe_file s g \<and> f_pipe (files s g) = f_pipe (files s f) \<and>
        f_writable (files s g) = f_writable (files s f) \<longrightarrow> g = f))"

definition ftable_idle :: "nat \<Rightarrow> 'z kst_file_scheme \<Rightarrow> bool" where
  "ftable_idle p s \<longleftrightarrow> icache_idle p s \<and> log_idle s \<and> (\<exists>xs. kmem_inv s xs \<and> pipes_owned xs s)"

text \<open>The files whose last reference frees no inode on the disk.\<close>

definition kept_files :: "'z kst_file_scheme \<Rightarrow> nat set" where
  "kept_files s = {f. f_type (files s f) = FD_INODE \<longrightarrow> f_ip (files s f) \<in> linked_inodes s}"

lemma pipes_owned_less:
  assumes "pipes_owned xs s" "kend t = kend s" "pipes t = pipes s" "\<And>f. pipe_file t f \<Longrightarrow> pipe_file s f"
    "\<And>f. pipe_file t f \<Longrightarrow> f_pipe (files t f) = f_pipe (files s f) \<and> f_writable (files t f) = f_writable (files s f)"
  shows "pipes_owned xs t"
  using assms(1) unfolding pipes_owned_def by (simp add: assms(2-5)) (metis assms(4,5))

lemma pipes_owned_close:
  assumes o: "pipes_owned xs s" and f: "pipe_file s f" "pg = f_pipe (files s f)" "w = f_writable (files s f)"
    and t: "kend t = kend s" "files t = files (closed f s)"
      "pipes t = (pipes s)(pg := (if w then (pipes s pg)\<lparr>pi_writeopen := 0\<rparr> else (pipes s pg)\<lparr>pi_readopen := 0\<rparr>))"
  shows "pipes_owned (if pi_end (\<not> w) (pipes s pg) = 0 then pg # xs else xs) t"
  unfolding pipes_owned_def
proof (intro allI impI)
  fix g
  assume g: "pipe_file t g"
  have gf: "g \<noteq> f" "files t g = files s g" "pipe_file s g" using g t(2) by (auto simp: pipe_file_def closed_def split: if_splits)
  note G = o [unfolded pipes_owned_def, rule_format, OF gf(3)]
  have w: "f_writable (files s g) = (\<not> w)" if "f_pipe (files s g) = pg"
    using o [unfolded pipes_owned_def, rule_format, OF f(1)] that gf f by blast
  have "pi_end (f_writable (files t g)) (pipes t (f_pipe (files t g))) \<noteq> 0"
    using G gf(2) w t(3) by (cases "f_pipe (files s g) = pg") (auto simp: pi_end_def split: if_splits)
  moreover have "f_pipe (files t g) \<notin> set (if pi_end (\<not> w) (pipes s pg) = 0 then pg # xs else xs)"
    using G gf(2) w by auto
  moreover have "h = g" if "pipe_file t h" "f_pipe (files t h) = f_pipe (files t g)" "f_writable (files t h) = f_writable (files t g)" for h
    using that G gf t(2) by (auto simp: pipe_file_def closed_def split: if_splits)
  ultimately show "page_ok (kend t) (f_pipe (files t g)) \<and>
      f_pipe (files t g) \<notin> set (if pi_end (\<not> w) (pipes s pg) = 0 then pg # xs else xs) \<and>
      pi_end (f_writable (files t g)) (pipes t (f_pipe (files t g))) \<noteq> 0 \<and>
      (\<forall>h. pipe_file t h \<and> f_pipe (files t h) = f_pipe (files t g) \<and> f_writable (files t h) = f_writable (files t g) \<longrightarrow> h = g)"
    using G gf(2) t(1) by auto
qed

lemma ftable_idleI:
  assumes "icache_idle p s" "log_idle s" "kmem_inv s xs" "pipes_owned xs s"
  shows "ftable_idle p s"
  using assms by (auto simp: ftable_idle_def)

lemma idle_closed:
  "icache_idle p (upd_file f g s) = icache_idle p s" "log_idle (upd_file f g s) = log_idle s"
  "icache_idle p s \<Longrightarrow> icache_idle p (iput_state ip s)" "log_idle (iput_state ip s) = log_idle s"
  by (auto simp: icache_idle_def log_idle_def iput_state_unlocked)

lemma iput_state_files [simp]:
  "files (iput_state ip s) = files s" "pipes (iput_state ip s) = pipes s" "kend (iput_state ip s) = kend s"
  "kmem_inv (iput_state ip s) xs = kmem_inv s xs"
  by (simp_all add: iput_state_def upd_inode_def upd_slock_def kmem_inv_def)

text \<open>Dropping the last reference of a file, for each type of file.\<close>

lemma fileclose_last:
  assumes s: "ftable_idle p s" and f: "f_ref (files s f) = 1" "f \<in> kept_files s"
  shows "\<exists>t. fileclose f s = Ret () t \<and> ftable_idle p t \<and> files t = files (closed f s) \<and>
    linked_inodes t = linked_inodes s \<and>
    inode_refs t = (case f_type (files s f) of FD_INODE \<Rightarrow>
      (inode_refs s)(f_ip (files s f) := inode_refs s (f_ip (files s f)) - 1) | _ \<Rightarrow> inode_refs s)"
proof -
  obtain xs where i: "icache_idle p s" "log_idle s" and k: "kmem_inv s xs" "pipes_owned xs s"
    using s by (auto simp: ftable_idle_def)
  then have a: "alone p (mach s) (procs s)" by (simp add: icache_idle_def)
  note c = fileclose_eq(2) [OF a f(1)]
  have o: "pipes_owned xs (closed f s)" "pipes_owned xs (iput_state ip (closed f s))" for ip
    by (rule pipes_owned_less [OF k(2)]; auto simp: pipe_file_def closed_def split: if_splits)+
  have r: "inode_refs (closed f s) = inode_refs s" by (rule ext) (simp add: inode_refs_def closed_def)
  show ?thesis
  proof (cases "f_type (files s f)")
    case FD_NONE
    then show ?thesis using c i k o r by (auto simp: closed_def idle_closed intro!: ftable_idleI)
  next
    case FD_INODE
    let ?ip = "f_ip (files s f)"
    have "fileclose f s = Ret () (iput_state ?ip (closed f s))"
      using c FD_INODE iput_transaction [of p "closed f s" ?ip] i f(2) by (simp add: closed_def idle_closed kept_files_def)
    moreover have "inode_refs (iput_state ?ip (closed f s)) = (inode_refs s)(?ip := inode_refs s ?ip - 1)"
      by (simp add: inode_refs_upd [OF iput_state(1)] r) (simp add: inode_refs_def closed_def)
    ultimately show ?thesis
      using FD_INODE i k o by (auto simp: closed_def idle_closed intro!: ftable_idleI)
  next
    case FD_PIPE
    let ?pg = "f_pipe (files s f)" and ?w = "f_writable (files s f)"
    have pf: "pipe_file s f" using FD_PIPE f(1) by (simp add: pipe_file_def)
    note P = k(2) [unfolded pipes_owned_def, rule_format, OF pf]
    from pipeclose_ok [of p "closed f s" xs ?pg ?w] a k(1) P obtain t where t:
      "pipeclose ?pg ?w (closed f s) = Ret () t" "alone p (mach t) (procs t)" "files t = files (closed f s)"
      "icache t = icache s" "slocks t = slocks s" "klog t = klog s" "kend t = kend s"
      "pipes t = (pipes s)(?pg := (if ?w then (pipes s ?pg)\<lparr>pi_writeopen := 0\<rparr> else (pipes s ?pg)\<lparr>pi_readopen := 0\<rparr>))"
      "kmem_inv t (if pi_end (\<not> ?w) (pipes s ?pg) = 0 then ?pg # xs else xs)"
      by (auto simp: closed_def)
    have "pipes_owned (if pi_end (\<not> ?w) (pipes s ?pg) = 0 then ?pg # xs else xs) t"
      by (rule pipes_owned_close [OF k(2) pf refl refl t(7,3,8)])
    moreover have "inode_refs t = inode_refs s" by (rule ext) (simp add: inode_refs_def t)
    moreover have "linked_inodes t = linked_inodes s" by (simp add: linked_inodes_def t)
    moreover have "icache_idle p t" "log_idle t" using i t by (simp_all add: icache_idle_def log_idle_def)
    ultimately show ?thesis using c FD_PIPE t(1,3,9) by (auto intro!: ftable_idleI)
  qed
qed

interpretation frefs: refcount "ftable_idle p" file_refs kept_files filedup_unit fileclose
proof unfold_locales
  fix s :: "'z kst_file_scheme" and f :: nat
  assume s: "ftable_idle p s" and f: "0 < file_refs s f"
  then obtain xs where i: "icache_idle p s" "log_idle s" and k: "kmem_inv s xs" "pipes_owned xs s"
    by (auto simp: ftable_idle_def)
  then have a: "alone p (mach s) (procs s)" by (simp add: icache_idle_def)
  have upd: "ftable_idle p (upd_file f (\<lambda>k. k\<lparr>f_ref := n\<rparr>) s)" "kept_files (upd_file f (\<lambda>k. k\<lparr>f_ref := n\<rparr>) s) = kept_files s"
    for n
    using f by (auto simp: file_refs_def pipe_file_def kept_files_def idle_closed split: if_splits
        intro!: ftable_idleI [where xs = xs] i k pipes_owned_less [OF k(2)])
  show "\<exists>t. filedup_unit f s = Ret () t \<and> ftable_idle p t \<and> file_refs t = (file_refs s)(f := file_refs s f + 1) \<and>
      kept_files s \<subseteq> kept_files t"
    using filedup_eq [OF a] f upd [of "f_ref (files s f) + 1"]
    by (auto simp: filedup_unit_def file_refs_def fun_eq_iff upd_file_def)
  assume l: "file_refs s f = 1 \<longrightarrow> f \<in> kept_files s"
  show "\<exists>t. fileclose f s = Ret () t \<and> ftable_idle p t \<and> file_refs t = (file_refs s)(f := file_refs s f - 1) \<and>
      (\<forall>j \<in> kept_files s. file_refs t j \<noteq> 0 \<longrightarrow> j \<in> kept_files t)"
  proof (cases "file_refs s f = 1")
    case True
    with fileclose_last [OF s, of f] l obtain t where t: "fileclose f s = Ret () t" "ftable_idle p t"
        "files t = files (closed f s)" "linked_inodes t = linked_inodes s"
      by (auto simp: file_refs_def)
    then show ?thesis using True by (auto simp: file_refs_def fun_eq_iff closed_def kept_files_def split: if_splits)
  next
    case False
    then show ?thesis
      using fileclose_eq(1) [OF a, of f] f upd [of "f_ref (files s f) - 1"]
      by (auto simp: file_refs_def fun_eq_iff upd_file_def)
  qed
qed

text \<open>
  C34: reference counts. Any sequence of \<open>idup\<close> and \<open>iput\<close> on cached inodes, and any sequence of \<open>filedup\<close>
  and \<open>fileclose\<close> on open files, that uses only references that are held, returns and leaves every count
  at its old value plus the references added minus the ones dropped. The last reference may be dropped too,
  except of an inode that is in no directory (and of a file on one), which frees the inode. Dropping the last
  reference of a file frees its entry of the table, and gives back one reference of its inode. Duplicating or
  closing a file without references panics. No other process is inside the file system and no count exceeds
  the largest \<open>int\<close> of C.
\<close>

theorem references_balanced:
  assumes "icache_idle p s" "rc_held ops (linked_inodes s) (inode_refs s)"
    "ftable_idle p w" "rc_held fops (kept_files w) (file_refs w)"
  shows "(\<exists>t. rc_run idup_unit iput ops s = Ret () t \<and> inode_refs t = rc_after ops (inode_refs s)) \<and>
    (\<exists>t. rc_run filedup_unit fileclose fops w = Ret () t \<and> ftable_idle p t \<and> file_refs t = rc_after fops (file_refs w)) \<and>
    (file_refs w f = 1 \<and> f \<in> kept_files w \<longrightarrow>
       (\<exists>t. fileclose f w = Ret () t \<and> files t = (files w)(f := (files w f)\<lparr>f_ref := 0, f_type := FD_NONE\<rparr>) \<and>
          inode_refs t = (case f_type (files w f) of
            FD_INODE \<Rightarrow> (inode_refs w)(f_ip (files w f) := inode_refs w (f_ip (files w f)) - 1) | _ \<Rightarrow> inode_refs w))) \<and>
    (file_refs w f < 1 \<longrightarrow> filedup f w = Panic ''filedup'' \<and> fileclose f w = Panic ''fileclose'')"
proof -
  have "alone p (mach w) (procs w)" using assms(3) by (simp add: ftable_idle_def icache_idle_def)
  then show ?thesis
    using irefs.run [OF assms(1,2)] frefs.run [OF assms(3,4)] fileclose_last [OF assms(3), of f] fileclose_eq(3) [of p w f]
    by (auto simp: file_refs_def closed_def)
qed

text \<open>Two references to one open file on the first inode of the cache.\<close>

definition file7 :: kst_file where
  "file7 = file3\<lparr>icache := icache fs6, slocks := slocks fs6, klog := klog (log3 0 disk4), kmem := \<lparr>use_lock = 1, freelist = 0\<rparr>,
     files := (files file3)(0 := (files file3 0)\<lparr>f_type := FD_INODE, f_ref := 2\<rparr>)\<rparr>"

lemma file7:
  "files file7 f = (if f = 0 then (files file3 0)\<lparr>f_type := FD_INODE, f_ref := 2\<rparr> else files file3 f)"
  "icache file7 = icache fs6" "mach file7 = mach3" "procs file7 = table3 NORM_PRIO" "slocks file7 = slocks fs6"
  "klog file7 = klog (log3 0 disk4)" "kmem file7 = \<lparr>use_lock = 1, freelist = 0\<rparr>"
  by (simp_all add: file7_def)

lemma ftable_idle7: "ftable_idle 3 file7"
proof (rule ftable_idleI)
  show "icache_idle 3 file7" using fs6(1) alone3 by (simp add: icache_idle_def file7)
  show "log_idle file7" by (simp add: log_idle_def file7 lhdr0_def)
  show "kmem_inv file7 []" using aloneD(1) [OF alone3] aloneD(3) [OF alone3] by (simp add: kmem_inv_def file7)
  show "pipes_owned [] file7" by (simp add: pipes_owned_def pipe_file_def file7 file3_def kst_fs.defs)
qed

theorem references_balanced_witness:
  "(\<exists>t. rc_run idup_unit iput [RDup 0, RDup 1, RDrop 0, RDrop 0] fs6 = Ret () t \<and> inode_refs t 0 = 0 \<and> inode_refs t 1 = 2) \<and>
   (\<exists>t. rc_run filedup_unit fileclose [RDup 0, RDrop 0, RDrop 0, RDrop 0] file7 = Ret () t \<and> file_refs t 0 = 0) \<and>
   fileclose 4 file7 = Panic ''fileclose''"
proof -
  have r: "inode_refs fs6 0 = 1" "inode_refs fs6 1 = 1" "inode_refs fs6 (Suc 0) = 1" "file_refs file7 0 = 2"
    by (simp_all add: inode_refs_def fs6_def file_refs_def file7)
  have l: "linked_inodes fs6 = UNIV" "linked_inodes file7 = UNIV" by (auto simp: linked_inodes_def file7 fs6_def dinode4_def)
  have h: "rc_held [RDup 0, RDup 1, RDrop 0, RDrop 0] (linked_inodes fs6) (inode_refs fs6)" by (simp add: r l)
  have k: "rc_held [RDup 0, RDrop 0, RDrop 0, RDrop 0] (kept_files file7) (file_refs file7)" by (simp add: r l kept_files_def)
  have "file_refs file7 4 < 1" by (simp add: file_refs_def file7 file3_def kst_fs.defs)
  then show ?thesis using references_balanced [OF fs6(1) h ftable_idle7 k, of 4] r by (auto simp del: rc_run.simps)
qed

end
