(* ===== verification/Xv6_Life.thy ===== *)
theory Xv6_Life
  imports Xv6_File
begin

section \<open>Life of a process (proc.c)\<close>

text \<open>
  \<open>userinit\<close>, \<open>fork\<close>, \<open>forkret\<close>, \<open>exit\<close> and \<open>wait\<close>. The initial program is linked into the kernel
  by the build: its address and size are arguments of \<open>userinit\<close>. \<open>wait\<close> stores the status through
  the pointer of the caller while it holds the lock of the process table; where it sleeps it
  switches to the scheduler, and \<open>wait_return\<close> continues its loop.
\<close>

record kst_sys = kst_file +
  first :: bool
  ticks :: uint

definition SEG_UCODE :: ushort where "SEG_UCODE = 3"
definition SEG_UDATA :: ushort where "SEG_UDATA = 4"
definition DPL_USER :: ushort where "DPL_USER = 3"
definition FL_IF :: uint where "FL_IF = 0x200"

definition set_runnable :: "nat \<Rightarrow> 'z kst_proc_scheme \<Rightarrow> (unit, 'z kst_proc_scheme) res" where
  "set_runnable p s =
     bindR (acquire LkPtable s) (\<lambda>_ s.
     release LkPtable (upd_proc p (\<lambda>q. q\<lparr>p_state := RUNNABLE\<rparr>) s))"

definition user_tf :: trapframe where
  "user_tf = tf0\<lparr>tf_cs := push_bit 3 SEG_UCODE OR DPL_USER, tf_ds := push_bit 3 SEG_UDATA OR DPL_USER,
     tf_es := push_bit 3 SEG_UDATA OR DPL_USER, tf_ss := push_bit 3 SEG_UDATA OR DPL_USER,
     tf_eflags := FL_IF, tf_esp := PGSIZE, tf_eip := 0\<rparr>"

definition str_bytes :: "uchar list \<Rightarrow> bytes" where
  "str_bytes cs i = (if i < length cs then cs ! i else 0)"

definition userinit :: "addr \<Rightarrow> uint \<Rightarrow> 'z kst_sys_scheme \<Rightarrow> (unit, 'z kst_sys_scheme) res" where
  "userinit initcode initsize s =
     bindR (allocproc s) (\<lambda>po s.
     let s = s\<lparr>initproc := po\<rparr> in
     case po of None \<Rightarrow> Undef
     | Some p \<Rightarrow>
         bindR (setupkvm s) (\<lambda>d s.
         let s = upd_proc p (\<lambda>q. q\<lparr>p_pgdir := d\<rparr>) s in
         if d = 0 then Panic ''userinit: out of memory?''
         else
           bindR (inituvm d initcode initsize s) (\<lambda>_ s.
           let s = upd_proc p (\<lambda>q. q\<lparr>p_sz := PGSIZE, p_tf := user_tf\<rparr>) s;
               s = upd_proc p (\<lambda>q. q\<lparr>p_name := safestrcpy (p_name q) (str_bytes (chrs ''initcode'')) 16\<rparr>) s in
           bindR (namei [SLASH] s) (\<lambda>ip s.
           set_runnable p (upd_proc p (\<lambda>q. q\<lparr>p_cwd := ip\<rparr>) s)))))"

primrec fork_files :: "nat \<Rightarrow> nat \<Rightarrow> nat \<Rightarrow> nat \<Rightarrow> 'z kst_sys_scheme \<Rightarrow> (unit, 'z kst_sys_scheme) res" where
  "fork_files 0 i cp np s = Ret () s"
| "fork_files (Suc n) i cp np s =
     bindR (case p_ofile (procs s cp) i of None \<Rightarrow> Ret () s
            | Some f \<Rightarrow>
                bindR (filedup f s) (\<lambda>f s.
                Ret () (upd_proc np (\<lambda>q. q\<lparr>p_ofile := (p_ofile q)(i := Some f)\<rparr>) s))) (\<lambda>_ s.
     fork_files n (Suc i) cp np s)"

definition fork :: "'z kst_sys_scheme \<Rightarrow> (int, 'z kst_sys_scheme) res" where
  "fork s =
     bindR (myproc s) (\<lambda>cpo s.
     bindR (allocproc s) (\<lambda>npo s.
     case npo of None \<Rightarrow> Ret (- 1) s
     | Some np \<Rightarrow>
         case cpo of None \<Rightarrow> Undef
         | Some cp \<Rightarrow>
             bindR (copyuvm (p_pgdir (procs s cp)) (p_sz (procs s cp)) s) (\<lambda>d s.
             let s = upd_proc np (\<lambda>q. q\<lparr>p_pgdir := d\<rparr>) s in
             if d = 0 then
               bindR (kfree (p_kstack (procs s np)) s) (\<lambda>_ s.
               Ret (- 1) (upd_proc np (\<lambda>q. q\<lparr>p_kstack := 0, p_state := UNUSED\<rparr>) s))
             else
               let c = procs s cp;
                   s = upd_proc np (\<lambda>q. q\<lparr>p_sz := p_sz c, p_parent := Some cp, p_tf := p_tf c\<rparr>) s;
                   s = upd_proc np (\<lambda>q. q\<lparr>p_prio := p_prio c\<rparr>) s;
                   s = upd_proc np (\<lambda>q. q\<lparr>p_tf := (p_tf q)\<lparr>tf_eax := 0\<rparr>\<rparr>) s in
               bindR (fork_files NOFILE 0 cp np s) (\<lambda>_ s.
               case p_cwd (procs s cp) of None \<Rightarrow> Undef
               | Some cwd \<Rightarrow>
                   bindR (idup cwd s) (\<lambda>cwd s.
                   let s = upd_proc np (\<lambda>q. q\<lparr>p_cwd := Some cwd\<rparr>) s;
                       s = upd_proc np (\<lambda>q. q\<lparr>p_name := safestrcpy (p_name q) (p_name (procs s cp)) 16\<rparr>) s;
                       pid = p_pid (procs s np) in
                   bindR (set_runnable np s) (\<lambda>_ s.
                   Ret pid s))))))"

definition forkret :: "'z kst_sys_scheme \<Rightarrow> (unit, 'z kst_sys_scheme) res" where
  "forkret s =
     bindR (release LkPtable s) (\<lambda>_ s.
     if first s then
       bindR (iinit ROOTDEV (s\<lparr>first := False\<rparr>)) (\<lambda>_ s.
       initlog ROOTDEV s)
     else Ret () s)"

primrec exit_files :: "nat \<Rightarrow> nat \<Rightarrow> nat \<Rightarrow> 'z kst_sys_scheme \<Rightarrow> (unit, 'z kst_sys_scheme) res" where
  "exit_files 0 fd cp s = Ret () s"
| "exit_files (Suc n) fd cp s =
     bindR (case p_ofile (procs s cp) fd of None \<Rightarrow> Ret () s
            | Some f \<Rightarrow>
                bindR (fileclose f s) (\<lambda>_ s.
                Ret () (upd_proc cp (\<lambda>q. q\<lparr>p_ofile := (p_ofile q)(fd := None)\<rparr>) s))) (\<lambda>_ s.
     exit_files n (Suc fd) cp s)"

text \<open>\<open>wakeup1(p)\<close> for a pointer to a process; nobody sleeps on the null pointer.\<close>

definition wakeup1_proc :: "nat option \<Rightarrow> 'z kst_proc_scheme \<Rightarrow> 'z kst_proc_scheme" where
  "wakeup1_proc po s = (case po of None \<Rightarrow> s | Some p \<Rightarrow> wakeup1 (ChProc p) s)"

primrec pass_children :: "nat \<Rightarrow> nat list \<Rightarrow> 'z kst_proc_scheme \<Rightarrow> 'z kst_proc_scheme" where
  "pass_children cp [] s = s"
| "pass_children cp (p # ps) s =
     pass_children cp ps
       (if p_parent (procs s p) = Some cp
        then let s = upd_proc p (\<lambda>q. q\<lparr>p_parent := initproc s\<rparr>) s
             in if p_state (procs s p) = ZOMBIE then wakeup1_proc (initproc s) s else s
        else s)"

definition exit :: "uint \<Rightarrow> 'z kst_sys_scheme \<Rightarrow> (unit, 'z kst_sys_scheme) res" where
  "exit status s =
     bindR (myproc s) (\<lambda>cpo s.
     case cpo of None \<Rightarrow> Undef
     | Some cp \<Rightarrow>
         let s = upd_proc cp (\<lambda>q. q\<lparr>p_exit_status := status\<rparr>) s in
         if initproc s = Some cp then Panic ''init exiting''
         else
           bindR (exit_files NOFILE 0 cp s) (\<lambda>_ s.
           bindR (begin_op s) (\<lambda>_ s.
           case p_cwd (procs s cp) of None \<Rightarrow> Undef
           | Some cwd \<Rightarrow>
               bindR (iput cwd s) (\<lambda>_ s.
               bindR (end_op s) (\<lambda>_ s.
               let s = upd_proc cp (\<lambda>q. q\<lparr>p_cwd := None\<rparr>) s in
               bindR (acquire LkPtable s) (\<lambda>_ s.
               let s = wakeup1_proc (p_parent (procs s cp)) s;
                   s = pass_children cp [0..<NPROC] s in
               bindR (deallocuvm (p_pgdir (procs s cp)) KERNBASE 0 s) (\<lambda>_ s.
               bindR (sched (upd_proc cp (\<lambda>q. q\<lparr>p_state := ZOMBIE\<rparr>) s)) (\<lambda>_ s.
               Panic ''zombie exit''))))))))"

text \<open>The children \<open>wait\<close> looks for.\<close>

definition zombie_child :: "nat \<Rightarrow> (nat \<Rightarrow> proc) \<Rightarrow> nat option" where
  "zombie_child cp t = find (\<lambda>p. p_parent (t p) = Some cp \<and> p_state (t p) = ZOMBIE) [0..<NPROC]"

definition has_child :: "nat \<Rightarrow> (nat \<Rightarrow> proc) \<Rightarrow> bool" where
  "has_child cp t = list_ex (\<lambda>p. p_parent (t p) = Some cp) [0..<NPROC]"

definition reap :: "nat \<Rightarrow> addr \<Rightarrow> 'z kst_sys_scheme \<Rightarrow> (int, 'z kst_sys_scheme) res" where
  "reap p status s =
     (let pid = p_pid (procs s p) in
      bindR (ustore32 status (p_exit_status (procs s p)) s) (\<lambda>_ s.
      bindR (kfree (p_kstack (procs s p)) s) (\<lambda>_ s.
      let s = upd_proc p (\<lambda>q. q\<lparr>p_kstack := 0\<rparr>) s in
      bindR (freevm (p_pgdir (procs s p)) False s) (\<lambda>_ s.
      let s = upd_proc p (\<lambda>q. q\<lparr>p_pid := 0, p_parent := None, p_name := (p_name q)(0 := 0),
                p_killed := False, p_state := UNUSED\<rparr>) s in
      bindR (release LkPtable s) (\<lambda>_ s.
      Ret pid s)))))"

definition wait_loop :: "nat \<Rightarrow> addr \<Rightarrow> 'z kst_sys_scheme \<Rightarrow> (int, 'z kst_sys_scheme) res" where
  "wait_loop cp status s =
     (case zombie_child cp (procs s) of
        Some p \<Rightarrow> reap p status s
      | None \<Rightarrow>
          if \<not> has_child cp (procs s) \<or> p_killed (procs s cp)
          then bindR (release LkPtable s) (\<lambda>_ s. Ret (- 1) s)
          else sleep_then (ChProc cp) LkPtable s)"

definition wait :: "addr \<Rightarrow> 'z kst_sys_scheme \<Rightarrow> (int, 'z kst_sys_scheme) res" where
  "wait status s =
     bindR (myproc s) (\<lambda>cpo s.
     bindR (acquire LkPtable s) (\<lambda>_ s.
     case cpo of None \<Rightarrow> Undef | Some cp \<Rightarrow> wait_loop cp status s))"

definition wait_return :: "bool \<Rightarrow> nat \<Rightarrow> addr \<Rightarrow> 'z kst_sys_scheme \<Rightarrow> (int, 'z kst_sys_scheme) res" where
  "wait_return ie cp status s =
     bindR (sleep_return ie cp LkPtable s) (\<lambda>_ s. wait_loop cp status s)"

end
