(* ===== verification/Xv6_Exec.thy ===== *)
theory Xv6_Exec
  imports Xv6_Life
begin

section \<open>Running a program (exec.c, vm.c)\<close>

text \<open>
  \<open>exec\<close> replaces the memory image of the process by that of an ELF file. The jumps to the label \<open>bad\<close> are the
  result \<open>None\<close> of the parts before and after the inode is released, followed by the clean-up of that label.
  The argument strings are given by their characters, as \<open>sys_exec\<close> has fetched them.
\<close>

record elfhdr =
  elf_magic :: uint
  elf_entry :: uint
  elf_phoff :: uint
  elf_phnum :: ushort

record proghdr =
  ph_type :: uint
  ph_off :: uint
  ph_vaddr :: uint
  ph_filesz :: uint
  ph_memsz :: uint

definition ELF_MAGIC :: uint where "ELF_MAGIC = 0x464C457F"
definition ELF_PROG_LOAD :: uint where "ELF_PROG_LOAD = 1"
definition ELFHDR_SIZE :: nat where "ELFHDR_SIZE = 52"
definition PROGHDR_SIZE :: nat where "PROGHDR_SIZE = 32"

definition elf_get :: "bytes \<Rightarrow> elfhdr" where
  "elf_get d = \<lparr>elf_magic = get32 d 0, elf_entry = get32 d 24, elf_phoff = get32 d 28, elf_phnum = get16 d 44\<rparr>"

definition ph_get :: "bytes \<Rightarrow> proghdr" where
  "ph_get d = \<lparr>ph_type = get32 d 0, ph_off = get32 d 4, ph_vaddr = get32 d 8, ph_filesz = get32 d 16,
     ph_memsz = get32 d 20\<rparr>"

text \<open>The loop of \<open>loaduvm\<close> with \<open>r = sz - i\<close> bytes to go.\<close>

function loaduvm_loop :: "addr \<Rightarrow> addr \<Rightarrow> nat \<Rightarrow> uint \<Rightarrow> nat \<Rightarrow> 'z kst_sys_scheme \<Rightarrow> (int, 'z kst_sys_scheme) res" where
  "loaduvm_loop pgdir addr ip offset r s =
     (if r = 0 then Ret 0 s
      else
        bindR (walkpgdir pgdir addr False s) (\<lambda>pte s.
        if pte = 0 then Panic ''loaduvm: address should exist''
        else
          let pa = PTE_ADDR (load32 (mem s) pte); n = min r (unat PGSIZE) in
          bindR (readi ip offset (of_nat n) s) (\<lambda>(k, bs) s.
          let s = s\<lparr>mem := put_bytes (P2V pa) bs (mem s)\<rparr> in
          if k \<noteq> int n then Ret (- 1) s
          else loaduvm_loop pgdir (addr + PGSIZE) ip (offset + PGSIZE) (r - min r (unat PGSIZE)) s)))"
  by pat_completeness auto
termination
  by (relation "measure (\<lambda>(_, _, _, _, r, _). r)") (auto simp: PGSIZE_def)

declare loaduvm_loop.simps [simp del]

definition loaduvm :: "addr \<Rightarrow> addr \<Rightarrow> nat \<Rightarrow> uint \<Rightarrow> uint \<Rightarrow> 'z kst_sys_scheme \<Rightarrow> (int, 'z kst_sys_scheme) res" where
  "loaduvm pgdir addr ip offset sz s =
     (if addr mod PGSIZE \<noteq> 0 then Panic ''loaduvm: addr must be page aligned''
      else loaduvm_loop pgdir addr ip offset (unat sz) s)"

text \<open>The loop over the program headers: the size of the image, or \<open>None\<close> for \<open>bad\<close>.\<close>

primrec exec_load :: "nat \<Rightarrow> uint \<Rightarrow> uint \<Rightarrow> nat \<Rightarrow> addr \<Rightarrow> 'z kst_sys_scheme \<Rightarrow> (uint option, 'z kst_sys_scheme) res" where
  "exec_load 0 off sz ip pgdir s = Ret (Some sz) s"
| "exec_load (Suc n) off sz ip pgdir s =
     bindR (readi ip off (of_nat PROGHDR_SIZE) s) (\<lambda>(r, bs) s.
     if r \<noteq> int PROGHDR_SIZE then Ret None s
     else
       let ph = ph_get (\<lambda>i. bs ! i) in
       if ph_type ph \<noteq> ELF_PROG_LOAD \<or> ph_memsz ph = 0
       then exec_load n (off + of_nat PROGHDR_SIZE) sz ip pgdir s
       else if ph_memsz ph < ph_filesz ph then Ret None s
       else if ph_vaddr ph + ph_memsz ph < ph_vaddr ph then Ret None s
       else
         bindR (allocuvm pgdir sz (ph_vaddr ph + ph_memsz ph) s) (\<lambda>sz s.
         if sz = 0 then Ret None s
         else if ph_vaddr ph mod PGSIZE \<noteq> 0 then Ret None s
         else
           bindR (loaduvm pgdir (ph_vaddr ph) ip (ph_off ph) (ph_filesz ph) s) (\<lambda>k s.
           if k < 0 then Ret None s
           else exec_load n (off + of_nat PROGHDR_SIZE) sz ip pgdir s)))"

text \<open>Pushing the argument strings: the stack pointer and the addresses of the strings.\<close>

fun exec_args :: "uchar list list \<Rightarrow> nat \<Rightarrow> uint \<Rightarrow> uint list \<Rightarrow> addr \<Rightarrow> 'z kst_sys_scheme \<Rightarrow>
    ((uint \<times> uint list) option, 'z kst_sys_scheme) res" where
  "exec_args [] argc sp ustack pgdir s = Ret (Some (sp, ustack)) s"
| "exec_args (a # as) argc sp ustack pgdir s =
     (if argc \<ge> MAXARG then Ret None s
      else
        let sp = (sp - (of_nat (length a) + 1)) AND NOT 3 in
        bindR (copyout pgdir sp (a @ [0]) s) (\<lambda>r s.
        if r < 0 then Ret None s
        else exec_args as (Suc argc) sp (ustack @ [sp]) pgdir s))"

definition word_bytes :: "uint \<Rightarrow> uchar list" where
  "word_bytes w = [byte_of 0 w, byte_of 1 w, byte_of 2 w, byte_of 3 w]"

text \<open>The characters of the path behind the last slash.\<close>

definition base_name :: "uchar list \<Rightarrow> uchar list" where
  "base_name path = rev (takeWhile (\<lambda>c. c \<noteq> SLASH) (rev path))"

definition exec_bad :: "addr \<Rightarrow> nat option \<Rightarrow> 'z kst_sys_scheme \<Rightarrow> (int, 'z kst_sys_scheme) res" where
  "exec_bad pgdir ipo s =
     bindR (if pgdir \<noteq> 0 then freevm pgdir True s else Ret () s) (\<lambda>_ s.
     bindR (case ipo of None \<Rightarrow> Ret () s
            | Some ip \<Rightarrow> bindR (iunlockput ip s) (\<lambda>_ s. end_op s)) (\<lambda>_ s.
     Ret (- 1) s))"

text \<open>The part of \<open>exec\<close> after the program is loaded: stack, arguments, commit.\<close>

definition exec_stack :: "nat \<Rightarrow> uchar list \<Rightarrow> uchar list list \<Rightarrow> elfhdr \<Rightarrow> uint \<Rightarrow> addr \<Rightarrow> 'z kst_sys_scheme \<Rightarrow>
    (int, 'z kst_sys_scheme) res" where
  "exec_stack cp path argv elf sz pgdir s =
     (let sz = PGROUNDUP sz; s = upd_proc cp (\<lambda>q. q\<lparr>p_guard_page := sz\<rparr>) s in
      bindR (allocuvm pgdir sz (sz + 2 * PGSIZE) s) (\<lambda>sz s.
      if sz = 0 then exec_bad pgdir None s
      else
        bindR (clearpteu pgdir (sz - 2 * PGSIZE) s) (\<lambda>_ s.
        bindR (exec_args argv 0 sz [] pgdir s) (\<lambda>r s.
        case r of None \<Rightarrow> exec_bad pgdir None s
        | Some (sp, us) \<Rightarrow>
            let argc = of_nat (length us) :: uint;
                ustack = [0xFFFFFFFF, argc, sp - (argc + 1) * 4] @ us @ [0];
                sp = sp - (3 + argc + 1) * 4 in
            bindR (copyout pgdir sp (concat (map word_bytes ustack)) s) (\<lambda>r s.
            if r < 0 then exec_bad pgdir None s
            else
              let oldpgdir = p_pgdir (procs s cp);
                  s = upd_proc cp (\<lambda>q. q\<lparr>p_name := safestrcpy (p_name q) (str_bytes (base_name path)) 16\<rparr>) s;
                  s = upd_proc cp (\<lambda>q. q\<lparr>p_pgdir := pgdir, p_sz := sz,
                        p_tf := (p_tf q)\<lparr>tf_eip := elf_entry elf, tf_esp := sp\<rparr>\<rparr>) s in
              bindR (switchuvm (Some cp) s) (\<lambda>_ s.
              bindR (freevm oldpgdir True s) (\<lambda>_ s.
              Ret 0 s)))))))"

definition exec :: "uchar list \<Rightarrow> uchar list list \<Rightarrow> 'z kst_sys_scheme \<Rightarrow> (int, 'z kst_sys_scheme) res" where
  "exec path argv s =
     bindR (myproc s) (\<lambda>cpo s.
     bindR (begin_op s) (\<lambda>_ s.
     bindR (namei path s) (\<lambda>ipo s.
     case ipo of None \<Rightarrow> bindR (end_op s) (\<lambda>_ s. Ret (- 1) s)
     | Some ip \<Rightarrow>
         bindR (ilock ip s) (\<lambda>_ s.
         bindR (readi ip 0 (of_nat ELFHDR_SIZE) s) (\<lambda>(r, bs) s.
         let elf = elf_get (\<lambda>i. bs ! i) in
         if r \<noteq> int ELFHDR_SIZE then exec_bad 0 ipo s
         else if elf_magic elf \<noteq> ELF_MAGIC then exec_bad 0 ipo s
         else
           bindR (setupkvm s) (\<lambda>pgdir s.
           if pgdir = 0 then exec_bad 0 ipo s
           else
             bindR (exec_load (unat (elf_phnum elf)) (elf_phoff elf) 0 ip pgdir s) (\<lambda>szo s.
             case szo of None \<Rightarrow> exec_bad pgdir ipo s
             | Some sz \<Rightarrow>
                 bindR (iunlockput ip s) (\<lambda>_ s.
                 bindR (end_op s) (\<lambda>_ s.
                 case cpo of None \<Rightarrow> Undef
                 | Some cp \<Rightarrow> exec_stack cp path argv elf sz pgdir s)))))))))"

end
