(* ===== verification/Xv6_Sysfile.thy ===== *)
theory Xv6_Sysfile
  imports Xv6_Exec
begin

section \<open>System calls on files (sysfile.c)\<close>

text \<open>
  Each system call takes its arguments from the user stack of the current process. A jump to the label \<open>bad\<close> is a
  call of the function with suffix \<open>_bad\<close>. Data for a file is loaded from user memory before the call of
  \<open>filewrite\<close>, data from a file is stored to user memory after the call of \<open>fileread\<close>.
\<close>

definition ocurproc :: "'z kst_sys_scheme \<Rightarrow> (nat, 'z kst_sys_scheme) res" where
  "ocurproc s = bindR (myproc s) (\<lambda>cp s. case cp of None \<Rightarrow> Undef | Some p \<Rightarrow> Ret p s)"

subsection \<open>File descriptors\<close>

definition argfd :: "nat \<Rightarrow> 'z kst_sys_scheme \<Rightarrow> ((nat \<times> nat) option, 'z kst_sys_scheme) res" where
  "argfd n s =
     bindR (argint n s) (\<lambda>a s.
     case a of None \<Rightarrow> Ret None s
     | Some w \<Rightarrow>
         let fd = sint w in
         if fd < 0 \<or> fd \<ge> int NOFILE then Ret None s
         else
           bindR (ocurproc s) (\<lambda>p s.
           case p_ofile (procs s p) (nat fd) of None \<Rightarrow> Ret None s | Some f \<Rightarrow> Ret (Some (nat fd, f)) s))"

definition set_ofile :: "nat \<Rightarrow> nat \<Rightarrow> nat option \<Rightarrow> 'z kst_proc_scheme \<Rightarrow> 'z kst_proc_scheme" where
  "set_ofile p fd fo s = upd_proc p (\<lambda>q. q\<lparr>p_ofile := (p_ofile q)(fd := fo)\<rparr>) s"

definition fdalloc :: "nat \<Rightarrow> 'z kst_sys_scheme \<Rightarrow> (nat option, 'z kst_sys_scheme) res" where
  "fdalloc f s =
     bindR (ocurproc s) (\<lambda>p s.
     case find (\<lambda>fd. p_ofile (procs s p) fd = None) [0..<NOFILE] of
       None \<Rightarrow> Ret None s
     | Some fd \<Rightarrow> Ret (Some fd) (set_ofile p fd (Some f) s))"

definition sys_dup :: "'z kst_sys_scheme \<Rightarrow> (int, 'z kst_sys_scheme) res" where
  "sys_dup s =
     bindR (argfd 0 s) (\<lambda>a s.
     case a of None \<Rightarrow> Ret (- 1) s
     | Some (_, f) \<Rightarrow>
         bindR (fdalloc f s) (\<lambda>fdo s.
         case fdo of None \<Rightarrow> Ret (- 1) s
         | Some fd \<Rightarrow> bindR (filedup f s) (\<lambda>_ s. Ret (int fd) s)))"

definition sys_dup2 :: "'z kst_sys_scheme \<Rightarrow> (int, 'z kst_sys_scheme) res" where
  "sys_dup2 s =
     bindR (myproc s) (\<lambda>cpo s.
     bindR (argfd 0 s) (\<lambda>a s.
     case a of None \<Rightarrow> Ret (- 1) s
     | Some (oldfd, oldf) \<Rightarrow>
         bindR (argint 1 s) (\<lambda>b s.
         case b of None \<Rightarrow> Ret (- 1) s
         | Some w \<Rightarrow>
             let newfd = sint w in
             if int oldfd = newfd then Ret newfd s
             else if newfd < 0 \<or> newfd \<ge> int NOFILE then Ret (- 1) s
             else case cpo of None \<Rightarrow> Undef
             | Some cp \<Rightarrow>
                 bindR (case p_ofile (procs s cp) (nat newfd) of None \<Rightarrow> Ret () s | Some newf \<Rightarrow> fileclose newf s) (\<lambda>_ s.
                 bindR (filedup oldf (set_ofile cp (nat newfd) (Some oldf) s)) (\<lambda>_ s.
                 Ret newfd s)))))"

definition sys_read :: "'z kst_sys_scheme \<Rightarrow> (int, 'z kst_sys_scheme) res" where
  "sys_read s =
     bindR (argfd 0 s) (\<lambda>a s. case a of None \<Rightarrow> Ret (- 1) s | Some (_, f) \<Rightarrow>
     bindR (argint 2 s) (\<lambda>n s. case n of None \<Rightarrow> Ret (- 1) s | Some n \<Rightarrow>
     bindR (argptr 1 (sint n) s) (\<lambda>p s. case p of None \<Rightarrow> Ret (- 1) s | Some p \<Rightarrow>
     bindR (fileread f (sint n) s) (\<lambda>(r, bs) s.
     bindR (ustore_bytes p bs s) (\<lambda>_ s.
     Ret r s)))))"

definition sys_write :: "'z kst_sys_scheme \<Rightarrow> (int, 'z kst_sys_scheme) res" where
  "sys_write s =
     bindR (argfd 0 s) (\<lambda>a s. case a of None \<Rightarrow> Ret (- 1) s | Some (_, f) \<Rightarrow>
     bindR (argint 2 s) (\<lambda>n s. case n of None \<Rightarrow> Ret (- 1) s | Some n \<Rightarrow>
     bindR (argptr 1 (sint n) s) (\<lambda>p s. case p of None \<Rightarrow> Ret (- 1) s | Some p \<Rightarrow>
     bindR (if f_writable (files s f) then uload_bytes (unat n) p s else Ret [] s) (\<lambda>bs s.
     filewrite f bs s))))"

definition sys_close :: "'z kst_sys_scheme \<Rightarrow> (int, 'z kst_sys_scheme) res" where
  "sys_close s =
     bindR (argfd 0 s) (\<lambda>a s. case a of None \<Rightarrow> Ret (- 1) s | Some (fd, f) \<Rightarrow>
     bindR (ocurproc s) (\<lambda>p s.
     bindR (fileclose f (set_ofile p fd None s)) (\<lambda>_ s.
     Ret 0 s)))"

definition ustore16 :: "addr \<Rightarrow> ushort \<Rightarrow> 'z kst_proc_scheme \<Rightarrow> (unit, 'z kst_proc_scheme) res" where
  "ustore16 va w s = ustore_bytes va [byte_of 0 w, byte_of 1 w] s"

definition STAT_SIZE :: int where "STAT_SIZE = 20"

text \<open>The stores of \<open>stati\<close> through the user's pointer.\<close>

definition ustore_stat :: "addr \<Rightarrow> stat \<Rightarrow> 'z kst_proc_scheme \<Rightarrow> (unit, 'z kst_proc_scheme) res" where
  "ustore_stat a st s =
     bindR (ustore32 (a + 4) (st_dev st) s) (\<lambda>_ s.
     bindR (ustore32 (a + 8) (st_ino st) s) (\<lambda>_ s.
     bindR (ustore16 a (st_type st) s) (\<lambda>_ s.
     bindR (ustore16 (a + 12) (st_nlink st) s) (\<lambda>_ s.
     ustore32 (a + 16) (st_size st) s))))"

definition sys_fstat :: "'z kst_sys_scheme \<Rightarrow> (int, 'z kst_sys_scheme) res" where
  "sys_fstat s =
     bindR (argfd 0 s) (\<lambda>a s. case a of None \<Rightarrow> Ret (- 1) s | Some (_, f) \<Rightarrow>
     bindR (argptr 1 STAT_SIZE s) (\<lambda>p s. case p of None \<Rightarrow> Ret (- 1) s | Some p \<Rightarrow>
     bindR (filestat f s) (\<lambda>r s.
     case r of None \<Rightarrow> Ret (- 1) s
     | Some st \<Rightarrow> bindR (ustore_stat p st s) (\<lambda>_ s. Ret 0 s))))"

subsection \<open>Links\<close>

definition op_fails :: "'z kst_sys_scheme \<Rightarrow> (int, 'z kst_sys_scheme) res" where
  "op_fails s = bindR (end_op s) (\<lambda>_ s. Ret (- 1) s)"

definition add_nlink :: "ushort \<Rightarrow> nat \<Rightarrow> 'z kst_sys_scheme \<Rightarrow> (unit, 'z kst_sys_scheme) res" where
  "add_nlink k ip s = iupdate ip (upd_di ip (\<lambda>d. d\<lparr>di_nlink := di_nlink d + k\<rparr>) s)"

definition sys_link_bad :: "nat \<Rightarrow> 'z kst_sys_scheme \<Rightarrow> (int, 'z kst_sys_scheme) res" where
  "sys_link_bad ip s =
     bindR (ilock ip s) (\<lambda>_ s.
     bindR (add_nlink (- 1) ip s) (\<lambda>_ s.
     bindR (iunlockput ip s) (\<lambda>_ s.
     op_fails s)))"

definition sys_link :: "'z kst_sys_scheme \<Rightarrow> (int, 'z kst_sys_scheme) res" where
  "sys_link s =
     bindR (argstr 0 s) (\<lambda>a s. case a of None \<Rightarrow> Ret (- 1) s | Some old \<Rightarrow>
     bindR (argstr 1 s) (\<lambda>b s. case b of None \<Rightarrow> Ret (- 1) s | Some new \<Rightarrow>
     bindR (begin_op s) (\<lambda>_ s.
     bindR (namei old s) (\<lambda>ipo s. case ipo of None \<Rightarrow> op_fails s | Some ip \<Rightarrow>
     bindR (ilock ip s) (\<lambda>_ s.
     if di_type (idi s ip) = T_DIR then bindR (iunlockput ip s) (\<lambda>_ s. op_fails s)
     else
       bindR (add_nlink 1 ip s) (\<lambda>_ s.
       bindR (iunlock ip s) (\<lambda>_ s.
       bindR (nameiparent new (\<lambda>_. 0) s) (\<lambda>r s. case r of None \<Rightarrow> sys_link_bad ip s | Some (dp, name) \<Rightarrow>
       bindR (ilock dp s) (\<lambda>_ s.
       bindR (if i_dev (icache s dp) \<noteq> i_dev (icache s ip) then Ret (- 1) s
              else dirlink dp name (i_inum (icache s ip)) s) (\<lambda>k s.
       bindR (iunlockput dp s) (\<lambda>_ s.
       if k < 0 then sys_link_bad ip s
       else
         bindR (iput ip s) (\<lambda>_ s.
         bindR (end_op s) (\<lambda>_ s.
         Ret 0 s)))))))))))))"

primrec isdirempty_loop :: "nat \<Rightarrow> uint \<Rightarrow> nat \<Rightarrow> 'z kst_sys_scheme \<Rightarrow> (bool, 'z kst_sys_scheme) res" where
  "isdirempty_loop 0 off dp s = Ret True s"
| "isdirempty_loop (Suc n) off dp s =
     bindR (read_dirent ''isdirempty: readi'' dp off s) (\<lambda>de s.
     if de_inum de \<noteq> 0 then Ret False s
     else isdirempty_loop n (off + of_nat DIRENT_SIZE) dp s)"

definition isdirempty :: "nat \<Rightarrow> 'z kst_sys_scheme \<Rightarrow> (bool, 'z kst_sys_scheme) res" where
  "isdirempty dp s =
     isdirempty_loop (dir_rounds (di_size (idi s dp)) - 2) (of_nat (2 * DIRENT_SIZE)) dp s"

definition sys_unlink_bad :: "nat \<Rightarrow> 'z kst_sys_scheme \<Rightarrow> (int, 'z kst_sys_scheme) res" where
  "sys_unlink_bad dp s = bindR (iunlockput dp s) (\<lambda>_ s. op_fails s)"

text \<open>The part of \<open>sys_unlink\<close> that removes the entry at \<open>off\<close> of \<open>dp\<close> for the locked inode \<open>ip\<close>.\<close>

definition unlink_entry :: "nat \<Rightarrow> uint \<Rightarrow> nat \<Rightarrow> 'z kst_sys_scheme \<Rightarrow> (int, 'z kst_sys_scheme) res" where
  "unlink_entry dp off ip s =
     bindR (writei dp (replicate DIRENT_SIZE 0) off s) (\<lambda>r s.
     if r \<noteq> int DIRENT_SIZE then Panic ''unlink: writei''
     else
       bindR (if di_type (idi s ip) = T_DIR then add_nlink (- 1) dp s else Ret () s) (\<lambda>_ s.
       bindR (iunlockput dp s) (\<lambda>_ s.
       bindR (add_nlink (- 1) ip s) (\<lambda>_ s.
       bindR (iunlockput ip s) (\<lambda>_ s.
       bindR (end_op s) (\<lambda>_ s.
       Ret 0 s))))))"

definition sys_unlink :: "'z kst_sys_scheme \<Rightarrow> (int, 'z kst_sys_scheme) res" where
  "sys_unlink s =
     bindR (argstr 0 s) (\<lambda>a s. case a of None \<Rightarrow> Ret (- 1) s | Some path \<Rightarrow>
     bindR (begin_op s) (\<lambda>_ s.
     bindR (nameiparent path (\<lambda>_. 0) s) (\<lambda>r s. case r of None \<Rightarrow> op_fails s | Some (dp, name) \<Rightarrow>
     bindR (ilock dp s) (\<lambda>_ s.
     if namecmp name (str_bytes (chrs ''.'')) = 0 \<or> namecmp name (str_bytes (chrs ''..'')) = 0
     then sys_unlink_bad dp s
     else
       bindR (dirlookup dp name s) (\<lambda>r s. case r of None \<Rightarrow> sys_unlink_bad dp s | Some (ip, off) \<Rightarrow>
       bindR (ilock ip s) (\<lambda>_ s.
       if sint (di_nlink (idi s ip)) < 1 then Panic ''unlink: nlink < 1''
       else
         bindR (if di_type (idi s ip) = T_DIR then isdirempty ip s else Ret True s) (\<lambda>e s.
         if \<not> e then bindR (iunlockput ip s) (\<lambda>_ s. sys_unlink_bad dp s)
         else unlink_entry dp off ip s)))))))"

subsection \<open>Creating and opening\<close>

definition create_dots :: "nat \<Rightarrow> nat \<Rightarrow> 'z kst_sys_scheme \<Rightarrow> (unit, 'z kst_sys_scheme) res" where
  "create_dots dp ip s =
     bindR (add_nlink 1 dp s) (\<lambda>_ s.
     bindR (dirlink ip (str_bytes (chrs ''.'')) (i_inum (icache s ip)) s) (\<lambda>r s.
     if r < 0 then Panic ''create dots''
     else
       bindR (dirlink ip (str_bytes (chrs ''..'')) (i_inum (icache s dp)) s) (\<lambda>r s.
       if r < 0 then Panic ''create dots'' else Ret () s)))"

definition create :: "uchar list \<Rightarrow> ushort \<Rightarrow> ushort \<Rightarrow> ushort \<Rightarrow> 'z kst_sys_scheme \<Rightarrow> (nat option, 'z kst_sys_scheme) res" where
  "create path type major minor s =
     bindR (nameiparent path (\<lambda>_. 0) s) (\<lambda>r s. case r of None \<Rightarrow> Ret None s | Some (dp, name) \<Rightarrow>
     bindR (ilock dp s) (\<lambda>_ s.
     bindR (dirlookup dp name s) (\<lambda>r s. case r of
       Some (ip, _) \<Rightarrow>
         bindR (iunlockput dp s) (\<lambda>_ s.
         bindR (ilock ip s) (\<lambda>_ s.
         if type = T_FILE \<and> di_type (idi s ip) = T_FILE then Ret (Some ip) s
         else bindR (iunlockput ip s) (\<lambda>_ s. Ret None s)))
     | None \<Rightarrow>
         bindR (ialloc (i_dev (icache s dp)) type s) (\<lambda>ip s.
         bindR (ilock ip s) (\<lambda>_ s.
         let s = upd_di ip (\<lambda>d. d\<lparr>di_major := major, di_minor := minor, di_nlink := 1\<rparr>) s in
         bindR (iupdate ip s) (\<lambda>_ s.
         bindR (if type = T_DIR then create_dots dp ip s else Ret () s) (\<lambda>_ s.
         bindR (dirlink dp name (i_inum (icache s ip)) s) (\<lambda>r s.
         if r < 0 then Panic ''create: dirlink''
         else bindR (iunlockput dp s) (\<lambda>_ s. Ret (Some ip) s)))))))))"

definition O_RDONLY :: uint where "O_RDONLY = 0"
definition O_WRONLY :: uint where "O_WRONLY = 1"
definition O_RDWR :: uint where "O_RDWR = 2"
definition O_CREATE :: uint where "O_CREATE = 0x200"

text \<open>The inode to open, locked.\<close>

definition open_inode :: "uchar list \<Rightarrow> uint \<Rightarrow> 'z kst_sys_scheme \<Rightarrow> (nat option, 'z kst_sys_scheme) res" where
  "open_inode path omode s =
     (if omode AND O_CREATE \<noteq> 0 then create path T_FILE 0 0 s
      else
        bindR (namei path s) (\<lambda>ipo s. case ipo of None \<Rightarrow> Ret None s | Some ip \<Rightarrow>
        bindR (ilock ip s) (\<lambda>_ s.
        if di_type (idi s ip) = T_DIR \<and> omode \<noteq> O_RDONLY
        then bindR (iunlockput ip s) (\<lambda>_ s. Ret None s)
        else Ret (Some ip) s)))"

definition sys_open :: "'z kst_sys_scheme \<Rightarrow> (int, 'z kst_sys_scheme) res" where
  "sys_open s =
     bindR (argstr 0 s) (\<lambda>a s. case a of None \<Rightarrow> Ret (- 1) s | Some path \<Rightarrow>
     bindR (argint 1 s) (\<lambda>b s. case b of None \<Rightarrow> Ret (- 1) s | Some omode \<Rightarrow>
     bindR (begin_op s) (\<lambda>_ s.
     bindR (open_inode path omode s) (\<lambda>ipo s. case ipo of None \<Rightarrow> op_fails s | Some ip \<Rightarrow>
     bindR (filealloc s) (\<lambda>fo s.
     bindR (case fo of None \<Rightarrow> Ret None s | Some f \<Rightarrow> fdalloc f s) (\<lambda>fdo s.
     case (fo, fdo) of
       (Some f, Some fd) \<Rightarrow>
         bindR (iunlock ip s) (\<lambda>_ s.
         bindR (end_op s) (\<lambda>_ s.
         Ret (int fd) (upd_file f (\<lambda>k. k\<lparr>f_type := FD_INODE, f_ip := ip, f_off := 0,
           f_readable := omode AND O_WRONLY = 0,
           f_writable := omode AND O_WRONLY \<noteq> 0 \<or> omode AND O_RDWR \<noteq> 0\<rparr>) s)))
     | _ \<Rightarrow>
         bindR (case fo of None \<Rightarrow> Ret () s | Some f \<Rightarrow> fileclose f s) (\<lambda>_ s.
         bindR (iunlockput ip s) (\<lambda>_ s.
         op_fails s))))))))"

definition sys_mkdir :: "'z kst_sys_scheme \<Rightarrow> (int, 'z kst_sys_scheme) res" where
  "sys_mkdir s =
     bindR (begin_op s) (\<lambda>_ s.
     bindR (argstr 0 s) (\<lambda>a s. case a of None \<Rightarrow> op_fails s | Some path \<Rightarrow>
     bindR (create path T_DIR 0 0 s) (\<lambda>ipo s. case ipo of None \<Rightarrow> op_fails s | Some ip \<Rightarrow>
     bindR (iunlockput ip s) (\<lambda>_ s.
     bindR (end_op s) (\<lambda>_ s.
     Ret 0 s)))))"

definition sys_mknod :: "'z kst_sys_scheme \<Rightarrow> (int, 'z kst_sys_scheme) res" where
  "sys_mknod s =
     bindR (begin_op s) (\<lambda>_ s.
     bindR (argstr 0 s) (\<lambda>a s. case a of None \<Rightarrow> op_fails s | Some path \<Rightarrow>
     bindR (argint 1 s) (\<lambda>b s. case b of None \<Rightarrow> op_fails s | Some major \<Rightarrow>
     bindR (argint 2 s) (\<lambda>c s. case c of None \<Rightarrow> op_fails s | Some minor \<Rightarrow>
     bindR (create path T_DEV (ucast major) (ucast minor) s) (\<lambda>ipo s. case ipo of None \<Rightarrow> op_fails s | Some ip \<Rightarrow>
     bindR (iunlockput ip s) (\<lambda>_ s.
     bindR (end_op s) (\<lambda>_ s.
     Ret 0 s)))))))"

definition sys_chdir :: "'z kst_sys_scheme \<Rightarrow> (int, 'z kst_sys_scheme) res" where
  "sys_chdir s =
     bindR (ocurproc s) (\<lambda>cp s.
     bindR (begin_op s) (\<lambda>_ s.
     bindR (argstr 0 s) (\<lambda>a s. case a of None \<Rightarrow> op_fails s | Some path \<Rightarrow>
     bindR (namei path s) (\<lambda>ipo s. case ipo of None \<Rightarrow> op_fails s | Some ip \<Rightarrow>
     bindR (ilock ip s) (\<lambda>_ s.
     if di_type (idi s ip) \<noteq> T_DIR then bindR (iunlockput ip s) (\<lambda>_ s. op_fails s)
     else
       bindR (iunlock ip s) (\<lambda>_ s.
       case p_cwd (procs s cp) of None \<Rightarrow> Undef
       | Some cwd \<Rightarrow>
           bindR (iput cwd s) (\<lambda>_ s.
           bindR (end_op s) (\<lambda>_ s.
           Ret 0 (upd_proc cp (\<lambda>q. q\<lparr>p_cwd := Some ip\<rparr>) s)))))))))"

subsection \<open>Programs and pipes\<close>

text \<open>The loop that fetches the argument vector; \<open>None\<close> is the result -1.\<close>

primrec fetch_argv :: "nat \<Rightarrow> addr \<Rightarrow> 'z kst_sys_scheme \<Rightarrow> (uchar list list option, 'z kst_sys_scheme) res" where
  "fetch_argv 0 a s = Ret None s"
| "fetch_argv (Suc n) a s =
     bindR (fetchint a s) (\<lambda>u s. case u of None \<Rightarrow> Ret None s | Some uarg \<Rightarrow>
     if uarg = 0 then Ret (Some []) s
     else
       bindR (fetchstr uarg s) (\<lambda>t s. case t of None \<Rightarrow> Ret None s | Some str \<Rightarrow>
       bindR (fetch_argv n (a + 4) s) (\<lambda>r s.
       Ret (map_option ((#) str) r) s)))"

definition sys_exec :: "'z kst_sys_scheme \<Rightarrow> (int, 'z kst_sys_scheme) res" where
  "sys_exec s =
     bindR (argstr 0 s) (\<lambda>a s. case a of None \<Rightarrow> Ret (- 1) s | Some path \<Rightarrow>
     bindR (argint 1 s) (\<lambda>b s. case b of None \<Rightarrow> Ret (- 1) s | Some uargv \<Rightarrow>
     bindR (fetch_argv MAXARG uargv s) (\<lambda>v s. case v of None \<Rightarrow> Ret (- 1) s | Some argv \<Rightarrow>
     exec path argv s)))"

definition sys_pipe :: "'z kst_sys_scheme \<Rightarrow> (int, 'z kst_sys_scheme) res" where
  "sys_pipe s =
     bindR (argptr 0 8 s) (\<lambda>a s. case a of None \<Rightarrow> Ret (- 1) s | Some fd \<Rightarrow>
     bindR (pipealloc s) (\<lambda>r s. case r of None \<Rightarrow> Ret (- 1) s | Some (rfl, wfl) \<Rightarrow>
     bindR (fdalloc rfl s) (\<lambda>fd0 s.
     bindR (case fd0 of None \<Rightarrow> Ret None s | Some _ \<Rightarrow> fdalloc wfl s) (\<lambda>fd1 s.
     case (fd0, fd1) of
       (Some n0, Some n1) \<Rightarrow>
         bindR (ustore32 fd (of_nat n0) s) (\<lambda>_ s.
         bindR (ustore32 (fd + 4) (of_nat n1) s) (\<lambda>_ s.
         Ret 0 s))
     | _ \<Rightarrow>
         bindR (case fd0 of None \<Rightarrow> Ret () s
                | Some n0 \<Rightarrow> bindR (ocurproc s) (\<lambda>p s. Ret () (set_ofile p n0 None s))) (\<lambda>_ s.
         bindR (fileclose rfl s) (\<lambda>_ s.
         bindR (fileclose wfl s) (\<lambda>_ s.
         Ret (- 1) s)))))))"

end
