(* ===== verification/Xv6_Trap.thy ===== *)
theory Xv6_Trap
  imports Xv6_Sysfile
begin

section \<open>System calls and traps (sysproc.c, syscall.c, trap.c, lapic.c)\<close>

text \<open>
  The remaining system calls, the dispatch by number and the trap handler. What the real-time clock delivers is an
  argument: for each round of the loop in \<open>cmostime\<close>, the two dates read and the flag that an update is in
  progress. So are the readings of the keyboard and the serial line, and the faulting address. Messages to the
  console are left out, and acknowledging an interrupt has no effect in the model.
\<close>

subsection \<open>System calls on processes\<close>

definition sys_fork :: "'z kst_sys_scheme \<Rightarrow> (int, 'z kst_sys_scheme) res" where
  "sys_fork s = fork s"

definition sys_exit :: "'z kst_sys_scheme \<Rightarrow> (int, 'z kst_sys_scheme) res" where
  "sys_exit s =
     bindR (argint 0 s) (\<lambda>a s. case a of None \<Rightarrow> Ret (- 1) s | Some status \<Rightarrow>
     bindR (exit (push_bit 8 status) s) (\<lambda>_ s. Ret 0 s))"

definition sys_wait :: "'z kst_sys_scheme \<Rightarrow> (int, 'z kst_sys_scheme) res" where
  "sys_wait s =
     bindR (argptr 0 4 s) (\<lambda>a s. case a of None \<Rightarrow> Ret (- 1) s | Some status \<Rightarrow> wait status s)"

definition sys_kill :: "'z kst_sys_scheme \<Rightarrow> (int, 'z kst_sys_scheme) res" where
  "sys_kill s =
     bindR (argint 0 s) (\<lambda>a s. case a of None \<Rightarrow> Ret (- 1) s | Some pid \<Rightarrow> kill (sint pid) s)"

definition sys_getpid :: "'z kst_sys_scheme \<Rightarrow> (int, 'z kst_sys_scheme) res" where
  "sys_getpid s = bindR (ocurproc s) (\<lambda>p s. Ret (p_pid (procs s p)) s)"

definition sys_sbrk :: "'z kst_sys_scheme \<Rightarrow> (int, 'z kst_sys_scheme) res" where
  "sys_sbrk s =
     bindR (argint 0 s) (\<lambda>a s. case a of None \<Rightarrow> Ret (- 1) s | Some w \<Rightarrow>
     bindR (ocurproc s) (\<lambda>p s.
     let addr = sint (p_sz (procs s p)); n = sint w in
     if n > 0 then Ret addr (upd_proc p (\<lambda>q. q\<lparr>p_sz := p_sz q + w\<rparr>) s)
     else if n < 0
     then bindR (growproc n s) (\<lambda>r s. if r < 0 then Ret (- 1) s else Ret addr s)
     else Ret addr s))"

text \<open>The loop of \<open>sys_sleep\<close>; \<open>ticks - ticks0 < n\<close> compares unsigned numbers.\<close>

definition sys_sleep_loop :: "uint \<Rightarrow> uint \<Rightarrow> 'z kst_sys_scheme \<Rightarrow> (int, 'z kst_sys_scheme) res" where
  "sys_sleep_loop ticks0 n s =
     (if ticks s - ticks0 < n then
        bindR (ocurproc s) (\<lambda>p s.
        if p_killed (procs s p) then bindR (release LkTicks s) (\<lambda>_ s. Ret (- 1) s)
        else sleep_then ChTicks LkTicks s)
      else bindR (release LkTicks s) (\<lambda>_ s. Ret 0 s))"

definition sys_sleep :: "'z kst_sys_scheme \<Rightarrow> (int, 'z kst_sys_scheme) res" where
  "sys_sleep s =
     bindR (argint 0 s) (\<lambda>a s. case a of None \<Rightarrow> Ret (- 1) s | Some n \<Rightarrow>
     bindR (acquire LkTicks s) (\<lambda>_ s. sys_sleep_loop (ticks s) n s))"

definition sys_sleep_return :: "bool \<Rightarrow> nat \<Rightarrow> uint \<Rightarrow> uint \<Rightarrow> 'z kst_sys_scheme \<Rightarrow> (int, 'z kst_sys_scheme) res" where
  "sys_sleep_return ie p ticks0 n s =
     bindR (sleep_return ie p LkTicks s) (\<lambda>_ s. sys_sleep_loop ticks0 n s)"

definition sys_uptime :: "'z kst_sys_scheme \<Rightarrow> (int, 'z kst_sys_scheme) res" where
  "sys_uptime s =
     bindR (acquire LkTicks s) (\<lambda>_ s.
     let xticks = ticks s in
     bindR (release LkTicks s) (\<lambda>_ s.
     Ret (sint xticks) s))"

definition sys_getprio :: "'z kst_sys_scheme \<Rightarrow> (int, 'z kst_sys_scheme) res" where
  "sys_getprio s =
     bindR (argint 0 s) (\<lambda>a s. case a of None \<Rightarrow> Ret (- 1) s | Some pid \<Rightarrow>
     bindR (getprio (sint pid) s) (\<lambda>r s. Ret (sint r) s))"

text \<open>The priority is fetched with \<open>argptr\<close>, as if it were the address of a priority.\<close>

definition sys_setprio :: "'z kst_sys_scheme \<Rightarrow> (int, 'z kst_sys_scheme) res" where
  "sys_setprio s =
     bindR (argint 0 s) (\<lambda>a s. case a of None \<Rightarrow> Ret (- 1) s | Some pid \<Rightarrow>
     bindR (argptr 1 4 s) (\<lambda>b s. case b of None \<Rightarrow> Ret (- 1) s | Some prio \<Rightarrow>
     setprio (sint pid) prio s))"

subsection \<open>The clock\<close>

record rtcdate =
  rtc_second :: uint
  rtc_minute :: uint
  rtc_hour :: uint
  rtc_day :: uint
  rtc_month :: uint
  rtc_year :: uint

text \<open>The first round with two equal readings and no update; \<open>None\<close> while there is none.\<close>

fun cmos_stable :: "(rtcdate \<times> bool \<times> rtcdate) list \<Rightarrow> rtcdate option" where
  "cmos_stable [] = None"
| "cmos_stable ((t1, uip, t2) # r) = (if uip then cmos_stable r else if t1 = t2 then Some t1 else cmos_stable r)"

definition conv :: "uint \<Rightarrow> uint" where
  "conv x = drop_bit 4 x * 10 + (x AND 0xF)"

definition cmostime :: "uint \<Rightarrow> (rtcdate \<times> bool \<times> rtcdate) list \<Rightarrow> rtcdate option" where
  "cmostime statb reads =
     (case cmos_stable reads of None \<Rightarrow> None
      | Some t \<Rightarrow>
          let bcd = (statb AND 4 = 0);
              t = (if bcd then \<lparr>rtc_second = conv (rtc_second t), rtc_minute = conv (rtc_minute t),
                     rtc_hour = conv (rtc_hour t), rtc_day = conv (rtc_day t), rtc_month = conv (rtc_month t),
                     rtc_year = conv (rtc_year t)\<rparr> else t)
          in Some (t\<lparr>rtc_year := rtc_year t + 2000\<rparr>))"

definition rtc_bytes :: "rtcdate \<Rightarrow> uchar list" where
  "rtc_bytes t = concat (map word_bytes
     [rtc_second t, rtc_minute t, rtc_hour t, rtc_day t, rtc_month t, rtc_year t])"

type_synonym clock = "uint \<times> (rtcdate \<times> bool \<times> rtcdate) list"

definition sys_date :: "clock \<Rightarrow> 'z kst_sys_scheme \<Rightarrow> (int, 'z kst_sys_scheme) res" where
  "sys_date clk s =
     bindR (argptr 0 24 s) (\<lambda>a s. case a of None \<Rightarrow> Ret (- 1) s | Some d \<Rightarrow>
     case cmostime (fst clk) (snd clk) of None \<Rightarrow> Undef
     | Some t \<Rightarrow> bindR (ustore_bytes d (rtc_bytes t) s) (\<lambda>_ s. Ret 0 s))"

subsection \<open>Dispatch\<close>

definition syscalls :: "clock \<Rightarrow> ('z kst_sys_scheme \<Rightarrow> (int, 'z kst_sys_scheme) res) list" where
  "syscalls clk = [sys_fork, sys_exit, sys_wait, sys_pipe, sys_read, sys_kill, sys_exec, sys_fstat, sys_chdir,
     sys_dup, sys_getpid, sys_sbrk, sys_sleep, sys_uptime, sys_open, sys_write, sys_mknod, sys_unlink, sys_link,
     sys_mkdir, sys_close, sys_date clk, sys_dup2, sys_getprio, sys_setprio]"

definition set_eax :: "nat \<Rightarrow> int \<Rightarrow> 'z kst_proc_scheme \<Rightarrow> 'z kst_proc_scheme" where
  "set_eax p v s = upd_proc p (\<lambda>q. q\<lparr>p_tf := (p_tf q)\<lparr>tf_eax := of_int v\<rparr>\<rparr>) s"

definition syscall :: "clock \<Rightarrow> 'z kst_sys_scheme \<Rightarrow> (unit, 'z kst_sys_scheme) res" where
  "syscall clk s =
     bindR (ocurproc s) (\<lambda>p s.
     let num = sint (tf_eax (p_tf (procs s p))) in
     if num > 0 \<and> num \<le> int (length (syscalls clk :: ('z kst_sys_scheme \<Rightarrow> (int, 'z kst_sys_scheme) res) list))
     then bindR ((syscalls clk ! (nat num - 1)) s) (\<lambda>r s. Ret () (set_eax p r s))
     else Ret () (set_eax p (- 1) s))"

subsection \<open>Traps\<close>

definition T_SYSCALL :: uint where "T_SYSCALL = 64"
definition T_PGFLT :: uint where "T_PGFLT = 14"
definition T_IRQ0 :: uint where "T_IRQ0 = 32"

record devices =
  dv_clock :: clock
  dv_kbd :: "(uchar \<times> uchar) list"
  dv_uart :: "(uchar \<times> uchar) list"
  dv_cr2 :: addr

definition tick :: "'z kst_sys_scheme \<Rightarrow> (unit, 'z kst_sys_scheme) res" where
  "tick s =
     bindR (cpuid s) (\<lambda>c s.
     if c = 0 then
       bindR (acquire LkTicks s) (\<lambda>_ s.
       bindR (wakeup ChTicks (s\<lparr>ticks := ticks s + 1\<rparr>)) (\<lambda>_ s.
       release LkTicks s))
     else Ret () s)"

text \<open>\<open>if(myproc() && myproc()->killed && (tf->cs&3) == DPL_USER) exit(tf->trapno+1)\<close>\<close>

definition exit_if_killed :: "trapframe \<Rightarrow> 'z kst_sys_scheme \<Rightarrow> (unit, 'z kst_sys_scheme) res" where
  "exit_if_killed tf s =
     bindR (myproc s) (\<lambda>cp s.
     case cp of None \<Rightarrow> Ret () s
     | Some p \<Rightarrow>
         if p_killed (procs s p) \<and> tf_cs tf AND 3 = DPL_USER then exit (tf_trapno tf + 1) s
         else Ret () s)"

text \<open>The \<open>switch\<close> of \<open>trap\<close>; the disk interrupt is that of the memory disk, which does nothing.\<close>

definition trap_switch :: "devices \<Rightarrow> trapframe \<Rightarrow> 'z kst_sys_scheme \<Rightarrow> (unit, 'z kst_sys_scheme) res" where
  "trap_switch dv tf s =
     (let n = tf_trapno tf in
      if n = T_IRQ0 + 0 then tick s
      else if n = T_IRQ0 + 14 then Ret () s
      else if n = T_IRQ0 + 15 then Ret () s
      else if n = T_IRQ0 + 1 then kbdintr (dv_kbd dv) s
      else if n = T_IRQ0 + 4 then uartintr (dv_uart dv) s
      else if n = T_IRQ0 + 7 \<or> n = T_IRQ0 + 31 then Ret () s
      else if n = T_PGFLT then page_fault (dv_cr2 dv) s
      else
        bindR (myproc s) (\<lambda>cp s.
        case cp of None \<Rightarrow> Panic ''trap''
        | Some p \<Rightarrow> if tf_cs tf AND 3 = 0 then Panic ''trap'' else Ret () (set_killed p s)))"

definition trap :: "devices \<Rightarrow> trapframe \<Rightarrow> 'z kst_sys_scheme \<Rightarrow> (unit, 'z kst_sys_scheme) res" where
  "trap dv tf s =
     (if tf_trapno tf = T_SYSCALL then
        bindR (ocurproc s) (\<lambda>p s.
        bindR (if p_killed (procs s p) then exit 0 s else Ret () s) (\<lambda>_ s.
        bindR (syscall (dv_clock dv) (upd_proc p (\<lambda>q. q\<lparr>p_tf := tf\<rparr>) s)) (\<lambda>_ s.
        bindR (ocurproc s) (\<lambda>p s.
        if p_killed (procs s p) then exit 0 s else Ret () s))))
      else
        bindR (trap_switch dv tf s) (\<lambda>_ s.
        bindR (exit_if_killed tf s) (\<lambda>_ s.
        bindR (myproc s) (\<lambda>cp s.
        bindR (case cp of None \<Rightarrow> Ret () s
               | Some p \<Rightarrow>
                   if p_state (procs s p) = RUNNING \<and> tf_trapno tf = T_IRQ0 then yield s else Ret () s) (\<lambda>_ s.
        exit_if_killed tf s)))))"

definition trap_return :: "bool \<Rightarrow> trapframe \<Rightarrow> 'z kst_sys_scheme \<Rightarrow> (unit, 'z kst_sys_scheme) res" where
  "trap_return ie tf s = bindR (yield_return ie s) (\<lambda>_ s. exit_if_killed tf s)"

definition tvinit :: "'z kst_sys_scheme \<Rightarrow> 'z kst_sys_scheme" where
  "tvinit s = initlock LkTicks ''time'' s"

end
