(* ===== verification/Xv6_Grep.thy ===== *)
theory Xv6_Grep
  imports Xv6_Prelude
begin

section \<open>The program grep (user/grep.c)\<close>

text \<open>
  Strings are the lists of their characters before the terminating null. The matcher is the mutual recursion of the
  source; its meaning is given by an inductive predicate on patterns and texts. The input of the program is the
  list of the pieces in which the system delivers it: \<open>read\<close> returns at most the number of bytes asked for and leaves
  the rest of a longer piece for the next call.
\<close>

definition STAR :: uchar where "STAR = 0x2A"
definition DOT :: uchar where "DOT = 0x2E"
definition DOLLAR :: uchar where "DOLLAR = 0x24"
definition CARET :: uchar where "CARET = 0x5E"
definition NL :: uchar where "NL = 0x0A"

lemmas grep_chars = STAR_def DOT_def DOLLAR_def CARET_def NL_def

subsection \<open>The matcher\<close>

function (sequential) matchhere :: "uchar list \<Rightarrow> uchar list \<Rightarrow> bool"
  and matchstar :: "uchar \<Rightarrow> uchar list \<Rightarrow> uchar list \<Rightarrow> bool" where
  "matchhere [] str = True"
| "matchhere (c # re) str =
     (if re \<noteq> [] \<and> hd re = STAR then matchstar c (tl re) str
      else if c = DOLLAR \<and> re = [] then str = []
      else if str \<noteq> [] \<and> (c = DOT \<or> c = hd str) then matchhere re (tl str)
      else False)"
| "matchstar c re str =
     (if matchhere re str then True
      else if str \<noteq> [] \<and> (hd str = c \<or> c = DOT) then matchstar c re (tl str)
      else False)"
  by pat_completeness auto
termination
  by (relation "measures [\<lambda>x. case x of Inl (re, str) \<Rightarrow> length re | Inr (c, re, str) \<Rightarrow> Suc (length re),
        \<lambda>x. case x of Inl (re, str) \<Rightarrow> length str | Inr (c, re, str) \<Rightarrow> length str]")
    (auto simp: neq_Nil_conv)

declare matchhere.simps [simp del] matchstar.simps [simp del]

text \<open>The loop of \<open>match\<close> tries every suffix, the empty one included.\<close>

primrec match_any :: "uchar list \<Rightarrow> uchar list \<Rightarrow> bool" where
  "match_any re [] = matchhere re []"
| "match_any re (t # ts) = (if matchhere re (t # ts) then True else match_any re ts)"

definition match :: "uchar list \<Rightarrow> uchar list \<Rightarrow> bool" where
  "match re str = (if re \<noteq> [] \<and> hd re = CARET then matchhere (tl re) str else match_any re str)"

subsection \<open>The loop over the input\<close>

text \<open>The lines of the buffer: what is printed, and the rest behind the last line end. \<open>strchr\<close> looks for a line
  end up to the first null byte.\<close>

function grep_lines :: "uchar list \<Rightarrow> uchar list \<Rightarrow> uchar list \<times> uchar list" where
  "grep_lines pat p =
     (let line = takeWhile (\<lambda>c. c \<noteq> 0 \<and> c \<noteq> NL) p; q = dropWhile (\<lambda>c. c \<noteq> 0 \<and> c \<noteq> NL) p in
      if q = [] \<or> hd q = 0 then ([], p)
      else
        let (out, rest) = grep_lines pat (tl q)
        in (if match pat line then line @ [NL] @ out else out, rest))"
  by pat_completeness auto
termination
proof (relation "measure (\<lambda>(_, p). length p)")
  fix pat p x q assume q: "q = dropWhile (\<lambda>c. c \<noteq> 0 \<and> c \<noteq> NL) p" "\<not> (q = [] \<or> hd q = 0)"
  then have "length (tl q) < length q" by simp
  also have "\<dots> \<le> length p" using q(1) by (simp add: length_dropWhile_le)
  finally show "((pat, tl q), pat, p) \<in> measure (\<lambda>(_, p). length p)" by simp
qed simp

declare grep_lines.simps [simp del]

definition BUFSIZE :: nat where "BUFSIZE = 1024"

text \<open>\<open>read(fd, buf, n)\<close> from the pieces of the input.\<close>

fun read_piece :: "nat \<Rightarrow> uchar list list \<Rightarrow> uchar list \<times> uchar list list" where
  "read_piece n [] = ([], [])"
| "read_piece n (p # ps) = (take n p, if length p \<le> n then ps else drop n p # ps)"

lemma read_piece_less:
  "read_piece n ps = (q, ps') \<Longrightarrow> q \<noteq> [] \<Longrightarrow> length (concat ps') < length (concat ps)"
  by (cases ps) auto

text \<open>The buffer holds the first \<open>m\<close> characters of \<open>buf\<close>.\<close>

function grep :: "uchar list \<Rightarrow> uchar list list \<Rightarrow> uchar list \<Rightarrow> uchar list" where
  "grep pat ps buf =
     (let (q, ps') = read_piece (BUFSIZE - length buf - 1) ps in
      if q = [] then []
      else
        let buf = buf @ q; (out, p) = grep_lines pat buf
        in out @ grep pat ps' (if p = buf then [] else p))"
  by pat_completeness auto
termination
proof (relation "measure (\<lambda>(_, ps, _). length (concat ps))")
  fix pat ps buf x q ps'
  assume "x = read_piece (BUFSIZE - length buf - 1) ps" "(q, ps') = x" "q \<noteq> []"
  then have "length (concat ps') < length (concat ps)" by (intro read_piece_less) auto
  then show "((pat, ps', b), pat, ps, buf) \<in> measure (\<lambda>(_, ps, _). length (concat ps))" for b by simp
qed simp

declare grep.simps [simp del]

subsection \<open>What a pattern means\<close>

inductive matches :: "uchar list \<Rightarrow> uchar list \<Rightarrow> bool" where
  empty: "matches [] str"
| star: "(\<forall>x \<in> set w. x = c \<or> c = DOT) \<Longrightarrow> matches re rest \<Longrightarrow> matches (c # STAR # re) (w @ rest)"
| dollar: "matches [DOLLAR] []"
| char: "\<not> (re \<noteq> [] \<and> hd re = STAR) \<Longrightarrow> \<not> (c = DOLLAR \<and> re = []) \<Longrightarrow> c = DOT \<or> c = t \<Longrightarrow> matches re str \<Longrightarrow>
    matches (c # re) (t # str)"

inductive_cases matches_ConsE: "matches (c # re) str"

inductive_simps matches_star_iff: "matches (c # STAR # re) str"

inductive_simps matches_dollar_iff: "matches [DOLLAR] str"

lemma matches_char_iff:
  assumes "\<not> (re \<noteq> [] \<and> hd re = STAR)" "\<not> (c = DOLLAR \<and> re = [])"
  shows "matches (c # re) str \<longleftrightarrow> str \<noteq> [] \<and> (c = DOT \<or> c = hd str) \<and> matches re (tl str)"
proof
  assume "matches (c # re) str"
  then show "str \<noteq> [] \<and> (c = DOT \<or> c = hd str) \<and> matches re (tl str)"
    by (rule matches_ConsE) (use assms in auto)
next
  assume "str \<noteq> [] \<and> (c = DOT \<or> c = hd str) \<and> matches re (tl str)"
  then show "matches (c # re) str" using matches.char [OF assms, of "hd str" "tl str"] by simp
qed

lemma matchstar_iff:
  "matchstar c re str \<longleftrightarrow> (\<exists>w rest. str = w @ rest \<and> (\<forall>x \<in> set w. x = c \<or> c = DOT) \<and> matchhere re rest)"
proof (induction str)
  case Nil
  then show ?case by (subst matchstar.simps) simp
next
  case (Cons t str)
  have "(\<exists>w rest. t # str = w @ rest \<and> (\<forall>x \<in> set w. x = c \<or> c = DOT) \<and> matchhere re rest) \<longleftrightarrow>
      matchhere re (t # str) \<or> (t = c \<or> c = DOT) \<and>
        (\<exists>w rest. str = w @ rest \<and> (\<forall>x \<in> set w. x = c \<or> c = DOT) \<and> matchhere re rest)"
    by (simp add: Cons_eq_append_conv ex_disj_distrib conj_disj_distribR) (metis set_ConsD list.set_intros)
  then show ?case using Cons.IH by (subst matchstar.simps) auto
qed

lemma matchhere_iff: "matchhere re str \<longleftrightarrow> matches re str"
proof (induction "length re" arbitrary: re str rule: less_induct)
  case less
  show ?case
  proof (cases re)
    case (Cons c r)
    show ?thesis
    proof (cases "r \<noteq> [] \<and> hd r = STAR")
      case True
      then obtain r' where r: "r = STAR # r'" by (cases r) auto
      have "matchhere re str \<longleftrightarrow> (\<exists>w rest. str = w @ rest \<and> (\<forall>x \<in> set w. x = c \<or> c = DOT) \<and> matches r' rest)"
        using less.hyps [of r'] r Cons by (simp add: matchhere.simps matchstar_iff)
      also have "\<dots> \<longleftrightarrow> matches re str"
        using r Cons by (auto simp: matches_star_iff)
      finally show ?thesis .
    next
      case False
      show ?thesis
      proof (cases "c = DOLLAR \<and> r = []")
        case True
        then show ?thesis using Cons by (auto simp: matchhere.simps matches_dollar_iff)
      next
        case no: False
        have "matchhere re str \<longleftrightarrow> str \<noteq> [] \<and> (c = DOT \<or> c = hd str) \<and> matchhere r (tl str)"
          using False no Cons by (simp only: matchhere.simps if_False) simp
        then show ?thesis using less.hyps [of r "tl str"] Cons matches_char_iff [OF False no, of str] by simp
      qed
    qed
  qed (simp add: matchhere.simps matches.empty)
qed

lemma match_any_iff: "match_any re str \<longleftrightarrow> (\<exists>u v. str = u @ v \<and> matches re v)"
proof (induction str)
  case (Cons t ts)
  then show ?case by (simp add: matchhere_iff Cons_eq_append_conv) blast
qed (simp add: matchhere_iff)

text \<open>
  C15: \<open>match\<close> of grep always ends, and it accepts a line exactly when the pattern means so: a pattern that starts
  with \<open>^\<close> must match from the start of the line, any other pattern from some place on; \<open>.\<close> stands for any
  character, \<open>c*\<close> for any number of \<open>c\<close>, a \<open>$\<close> at the end for the end of the line.
\<close>

theorem match_correct:
  "match re str = (if re \<noteq> [] \<and> hd re = CARET then matches (tl re) str else (\<exists>u v. str = u @ v \<and> matches re v))"
  by (simp add: match_def matchhere_iff match_any_iff)

subsection \<open>The lines printed\<close>

definition unlines :: "uchar list list \<Rightarrow> uchar list" where
  "unlines ls = concat (map (\<lambda>l. l @ [NL]) ls)"

lemma unlines_simps [simp]: "unlines [] = []" "unlines (l # ls) = l @ NL # unlines ls" "unlines (ls @ ks) = unlines ls @ unlines ks"
  by (simp_all add: unlines_def)

lemma line_end:
  assumes "NL \<notin> set l" "0 \<notin> set l"
  shows "takeWhile (\<lambda>c. c \<noteq> 0 \<and> c \<noteq> NL) (l @ NL # r) = l" "dropWhile (\<lambda>c. c \<noteq> 0 \<and> c \<noteq> NL) (l @ NL # r) = NL # r"
    "dropWhile (\<lambda>c. c \<noteq> 0 \<and> c \<noteq> NL) l = []"
  using assms by (induction l) auto

text \<open>A buffer of whole lines and the start of the next one.\<close>

lemma grep_lines_unlines:
  assumes "\<forall>l \<in> set ls. NL \<notin> set l" "NL \<notin> set r" "0 \<notin> set (unlines ls @ r)"
  shows "grep_lines pat (unlines ls @ r) = (unlines (filter (match pat) ls), r)"
  using assms
proof (induction ls)
  case Nil
  then show ?case by (subst grep_lines.simps) (simp add: line_end)
next
  case (Cons l ls)
  have n: "NL \<noteq> 0" by (simp add: NL_def)
  have "NL \<notin> set l" "0 \<notin> set l" using Cons.prems by auto
  note e = line_end(1,2) [OF this, of "unlines ls @ r"]
  have "grep_lines pat (unlines ls @ r) = (unlines (filter (match pat) ls), r)" using Cons by simp
  then show ?case by (subst grep_lines.simps) (simp add: e n)
qed

text \<open>What a read adds to the buffer completes some of the lines that are still to come.\<close>

lemma unlines_split:
  assumes "b @ c = unlines ls @ r" "\<forall>l \<in> set ls. NL \<notin> set l" "NL \<notin> set r"
  shows "\<exists>ls1 ls2 r'. ls = ls1 @ ls2 \<and> b = unlines ls1 @ r' \<and> NL \<notin> set r' \<and> r' @ c = unlines ls2 @ r"
  using assms
proof (induction ls arbitrary: b)
  case Nil
  then show ?case by (intro exI [of _ "[]"] exI [of _ b]) auto
next
  case (Cons l ls)
  show ?case
  proof (cases "length b \<le> length l")
    case True
    then have "b = take (length b) l" using Cons.prems(1) by (metis append_eq_append_conv_if append.assoc unlines_simps(2) append_eq_conv_conj take_append diff_is_0_eq take_0 append_Nil2)
    then have "NL \<notin> set b" using Cons.prems(2) by (metis in_set_takeD list.set_intros(1))
    then show ?thesis using Cons.prems(1) by (intro exI [of _ "[]"] exI [of _ "l # ls"] exI [of _ b]) simp
  next
    case False
    define b' where "b' = drop (Suc (length l)) b"
    have "b = l @ NL # b'" "b' @ c = unlines ls @ r"
    proof -
      have e: "b @ c = (l @ [NL]) @ (unlines ls @ r)" using Cons.prems(1) by simp
      have "take (Suc (length l)) b = l @ [NL]" using arg_cong [OF e, of "take (Suc (length l))"] False by simp
      then show b: "b = l @ NL # b'" unfolding b'_def by (metis append_take_drop_id append.assoc append_Cons append_Nil)
      then show "b' @ c = unlines ls @ r" using e by simp
    qed
    moreover from Cons.IH [OF this(2)] Cons.prems obtain ls1 ls2 r' where
      "ls = ls1 @ ls2" "b' = unlines ls1 @ r'" "NL \<notin> set r'" "r' @ c = unlines ls2 @ r" by auto
    ultimately show ?thesis by (intro exI [of _ "l # ls1"] exI [of _ ls2] exI [of _ r']) simp
  qed
qed

text \<open>One round of the loop, whether or not the buffer then has a line end.\<close>

lemma unlines_Nil_iff: "unlines ls @ r = r \<longleftrightarrow> ls = []"
  by (cases ls) auto

lemma grep_round:
  assumes "read_piece (BUFSIZE - length b - 1) ps = (q, ps')" "q \<noteq> []" "b @ q = unlines ls @ r"
    "\<forall>l \<in> set ls. NL \<notin> set l" "NL \<notin> set r" "0 \<notin> set (b @ q)"
  shows "grep pat ps b = unlines (filter (match pat) ls) @ grep pat ps' (if ls = [] then [] else r)"
proof -
  have "grep_lines pat (b @ q) = (unlines (filter (match pat) ls), r)"
    using grep_lines_unlines [OF assms(4,5), of pat] assms(3,6) by simp
  moreover have "r = b @ q \<longleftrightarrow> ls = []" unfolding assms(3) using unlines_Nil_iff [of ls r] by metis
  ultimately show ?thesis using assms(1,2) by (subst grep.simps) simp
qed

lemma grep_no_line:
  assumes "NL \<notin> set (b @ concat ps)" "0 \<notin> set (b @ concat ps)"
  shows "grep pat ps b = []"
  using assms
proof (induction pat ps b rule: grep.induct)
  case (1 pat ps b)
  obtain q ps' where q: "read_piece (BUFSIZE - length b - 1) ps = (q, ps')" by fastforce
  have s: "set q \<union> set (concat ps') \<subseteq> set (concat ps)"
    using q by (cases ps) (auto dest: in_set_takeD in_set_dropD split: if_splits)
  show ?case
  proof (cases "q = []")
    case True
    then show ?thesis using q by (subst grep.simps) simp
  next
    case False
    have n: "NL \<notin> set (b @ q)" "0 \<notin> set (b @ q)" using "1.prems" s by auto
    have g: "grep_lines pat (b @ q) = ([], b @ q)" using grep_lines_unlines [of "[]" "b @ q" pat] n by simp
    have "NL \<notin> set ([] @ concat ps')" "0 \<notin> set ([] @ concat ps')" using "1.prems" s by auto
    then have "grep pat ps' [] = []"
      using "1.IH" [OF q [symmetric] refl False refl g [symmetric] refl] by simp
    then show ?thesis using q False g by (subst grep.simps) simp
  qed
qed

text \<open>A file: \<open>read\<close> delivers as many bytes as it is asked for, up to the end.\<close>

lemma grep_file:
  assumes "b @ c = unlines ls @ r" "\<forall>l \<in> set ls. NL \<notin> set l \<and> length l < BUFSIZE - 1" "NL \<notin> set r"
    "NL \<notin> set b" "0 \<notin> set (b @ c)"
  shows "grep pat (if c = [] then [] else [c]) b = unlines (filter (match pat) ls)"
  using assms
proof (induction "length c" arbitrary: b c ls rule: less_induct)
  case less
  let ?n = "BUFSIZE - length b - 1" and ?ps = "if c = [] then [] else [c]"
  show ?case
  proof (cases ls)
    case Nil
    then have "NL \<notin> set (b @ concat ?ps)" "0 \<notin> set (b @ concat ?ps)" using less.prems by (auto simp del: append_is_Nil_conv)
    then show ?thesis using grep_no_line [of b ?ps pat] Nil by simp
  next
    case (Cons l ks)
    have e: "b @ c = l @ NL # unlines ks @ r" using less.prems(1) Cons by simp
    have b: "length b \<le> length l"
    proof (rule ccontr)
      assume "\<not> length b \<le> length l"
      then have "(b @ c) ! length l \<in> set b" by (simp add: nth_append)
      then show False using less.prems(4) unfolding e by simp
    qed
    then have n: "0 < ?n" and c: "c \<noteq> []" using less.prems(2) e Cons by (auto simp: BUFSIZE_def)
    have rp: "read_piece ?n ?ps = (take ?n c, if drop ?n c = [] then [] else [drop ?n c])" using c by simp
    obtain l1 l2 r' where s: "ls = l1 @ l2" "b @ take ?n c = unlines l1 @ r'" "NL \<notin> set r'" "r' @ drop ?n c = unlines l2 @ r"
      using unlines_split [of "b @ take ?n c" "drop ?n c" ls r] less.prems by auto
    have z: "0 \<notin> set (b @ take ?n c)" using less.prems(5) by (auto dest: in_set_takeD)
    have "l1 \<noteq> []"
    proof
      assume "l1 = []"
      then have no: "NL \<notin> set (b @ take ?n c)" using s(2,3) by simp
      have lt: "length l < length (b @ take ?n c)"
        using less.prems(2) Cons b arg_cong [OF e, of length] by (auto simp: BUFSIZE_def)
      have "((b @ take ?n c) @ drop ?n c) ! length l = NL" using e by simp
      then have "(b @ take ?n c) ! length l = NL" using lt by (simp only: nth_append if_True)
      then show False using no nth_mem [OF lt] by simp
    qed
    moreover have d: "length (drop ?n c) < length c" unfolding length_drop using n c by (intro diff_less) simp_all
    have "grep pat (if drop ?n c = [] then [] else [drop ?n c]) r' = unlines (filter (match pat) l2)"
      by (rule less.hyps [OF d s(4)]) (use less.prems s z in \<open>auto dest: in_set_dropD\<close>)
    ultimately show ?thesis
      using grep_round [OF rp _ s(2) _ s(3) z, of pat] less.prems(2) s(1) n c by simp
  qed
qed

text \<open>
  Pieces of a pipe or of the console: every piece has a line end, and fits into the buffer behind the unfinished
  line that the piece before it left there.
\<close>

definition last_line :: "uchar list \<Rightarrow> uchar list" where
  "last_line p = rev (takeWhile (\<lambda>c. c \<noteq> NL) (rev p))"

fun pieces_fit :: "uchar list \<Rightarrow> uchar list list \<Rightarrow> bool" where
  "pieces_fit b [] \<longleftrightarrow> True"
| "pieces_fit b (p # ps) \<longleftrightarrow> NL \<in> set p \<and> length (b @ p) < BUFSIZE \<and> pieces_fit (last_line p) ps"

lemma last_line_unlines:
  assumes "NL \<notin> set b" "NL \<in> set p" "b @ p = unlines ls @ r" "NL \<notin> set r"
  shows "last_line p = r" "ls \<noteq> []"
proof -
  show ls: "ls \<noteq> []" using assms by auto
  obtain u where u: "unlines ls @ r = u @ NL # r"
  proof -
    from ls obtain ks k where "ls = ks @ [k]" by (metis rev_exhaust)
    then show ?thesis using that [of "unlines ks @ k"] by simp
  qed
  obtain x y where p: "p = x @ NL # y" "NL \<notin> set y" using split_list_last [OF assms(2)] by blast
  have tw: "takeWhile (\<lambda>c. c \<noteq> NL) (rev y @ NL # v) = rev y" if "NL \<notin> set y" for v y using that by (subst takeWhile_append2) auto
  have "takeWhile (\<lambda>c. c \<noteq> NL) (rev (b @ p)) = rev y" using p tw by simp
  moreover have "takeWhile (\<lambda>c. c \<noteq> NL) (rev (u @ NL # r)) = rev r" using tw [OF assms(4)] by simp
  ultimately have "y = r" using assms(3) u by simp
  moreover have "last_line p = y" using p tw by (simp add: last_line_def)
  ultimately show "last_line p = r" by simp
qed

lemma grep_pieces:
  assumes "b @ concat ps = unlines ls @ r" "\<forall>l \<in> set ls. NL \<notin> set l" "NL \<notin> set r"
    "NL \<notin> set b" "0 \<notin> set (b @ concat ps)" "pieces_fit b ps"
  shows "grep pat ps b = unlines (filter (match pat) ls)"
  using assms
proof (induction ps arbitrary: b ls)
  case Nil
  then have "ls = []" by (cases ls) auto
  then show ?case by (simp add: grep.simps)
next
  case (Cons p ps)
  obtain l1 l2 r' where s: "ls = l1 @ l2" "b @ p = unlines l1 @ r'" "NL \<notin> set r'" "r' @ concat ps = unlines l2 @ r"
    using unlines_split [of "b @ p" "concat ps" ls r] Cons.prems by auto
  have p: "p \<noteq> []" "NL \<in> set p" "length (b @ p) < BUFSIZE" using Cons.prems(6) by auto
  then have rp: "read_piece (BUFSIZE - length b - 1) (p # ps) = (p, ps)" by simp
  have z: "0 \<notin> set (b @ p)" using Cons.prems(5) by simp
  note l = last_line_unlines [OF Cons.prems(4) p(2) s(2,3)]
  have "0 \<notin> set (b @ p @ concat ps)" using Cons.prems(5) by simp
  then have "0 \<notin> set ((unlines l1 @ r') @ concat ps)" unfolding s(2) [symmetric] by simp
  then have "0 \<notin> set (r' @ concat ps)" by simp
  then have "grep pat ps r' = unlines (filter (match pat) l2)"
    using Cons.IH [OF s(4)] Cons.prems s(1,3) l(1) by simp
  then show ?case using grep_round [OF rp p(1) s(2) _ s(3) z, of pat] Cons.prems(2) s(1) l(2) by simp
qed

text \<open>
  C16: grep on a file without null bytes whose lines are at most 1022 characters long prints exactly the lines
  that the pattern matches, in their order, however long the file is. The characters \<open>r\<close> behind the last line end
  are not a line.
\<close>

theorem grep_correct:
  assumes "\<forall>l \<in> set ls. NL \<notin> set l \<and> length l \<le> 1022" "NL \<notin> set r" "0 \<notin> set (unlines ls @ r)"
  shows "grep pat [unlines ls @ r] [] = unlines (filter (match pat) ls)"
proof (cases "unlines ls @ r = []")
  case True
  then have "ls = []" by (cases ls) auto
  then show ?thesis using True by (simp add: grep.simps)
next
  case False
  have "\<forall>l \<in> set ls. NL \<notin> set l \<and> length l < BUFSIZE - 1" using assms(1) by (force simp: BUFSIZE_def)
  then show ?thesis using grep_file [of "[]" "unlines ls @ r" ls r pat] assms(2,3) False by (simp split: if_splits)
qed

theorem grep_correct_witness:
  "grep [0x61] [[0x61, 0x62, NL, 0x62, NL, 0x62, 0x61, NL]] [] = [0x61, 0x62, NL, 0x62, 0x61, NL]"
proof -
  have "filter (match [0x61]) [[0x61, 0x62], [0x62], [0x62, 0x61]] = [[0x61, 0x62], [0x62, 0x61]]"
    by (simp add: match_def matchhere.simps grep_chars)
  then show ?thesis
    using grep_correct [of "[[0x61, 0x62], [0x62], [0x62, 0x61]]" "[]" "[0x61]"] by (simp add: NL_def)
qed

text \<open>
  C35: grep on a pipe or the console, where the input arrives in pieces that may end inside a line, prints exactly
  the lines that the pattern matches, in their order, when every piece has a line end and fits into the buffer of
  1024 bytes behind the unfinished line before it, and there are no null bytes.
\<close>

theorem grep_pieces_correct:
  assumes "concat ps = unlines ls @ r" "\<forall>l \<in> set ls. NL \<notin> set l" "NL \<notin> set r" "0 \<notin> set (concat ps)" "pieces_fit [] ps"
  shows "grep pat ps [] = unlines (filter (match pat) ls)"
  using grep_pieces [of "[]" ps ls r pat] assms by simp

theorem grep_pieces_correct_witness:
  "grep [0x61] [[0x61, 0x62, NL, 0x62], [0x62, NL, 0x62, 0x61, NL]] [] = [0x61, 0x62, NL, 0x62, 0x61, NL]"
proof -
  have "filter (match [0x61]) [[0x61, 0x62], [0x62, 0x62], [0x62, 0x61]] = [[0x61, 0x62], [0x62, 0x61]]"
    by (simp add: match_def matchhere.simps grep_chars)
  then show ?thesis
    using grep_pieces_correct [of "[[0x61, 0x62, NL, 0x62], [0x62, NL, 0x62, 0x61, NL]]" "[[0x61, 0x62], [0x62, 0x62], [0x62, 0x61]]" "[]" "[0x61]"]
    by (simp add: NL_def BUFSIZE_def last_line_def)
qed

text \<open>
  C32: a line that arrives in two pieces is not treated as one. Characters that arrive without a line end are thrown
  away (\<open>m = 0\<close>), so that of the line \<open>a @ b\<close>, delivered as \<open>a\<close> and then \<open>b\<close> with its line end, only \<open>b\<close> is matched
  and printed; delivered at once the whole line is.
\<close>

theorem grep_drops_split_lines:
  assumes "a \<noteq> []" "NL \<notin> set (a @ b)" "0 \<notin> set (a @ b)" "length (a @ b) \<le> 1022"
  shows "grep pat [a @ b @ [NL]] [] = (if match pat (a @ b) then a @ b @ [NL] else []) \<and>
    grep pat [a, b @ [NL]] [] = (if match pat b then b @ [NL] else [])"
proof
  have n: "NL \<noteq> 0" by (simp add: NL_def)
  show "grep pat [a @ b @ [NL]] [] = (if match pat (a @ b) then a @ b @ [NL] else [])"
    using grep_pieces [of "[]" "[a @ b @ [NL]]" "[a @ b]" "[]" pat] assms n by (simp add: BUFSIZE_def)
  have "grep pat [a, b @ [NL]] [] = grep pat [b @ [NL]] []"
    using grep_round [of "[]" "[a, b @ [NL]]" a "[b @ [NL]]" "[]" a pat] assms by (simp add: BUFSIZE_def)
  also have "\<dots> = (if match pat b then b @ [NL] else [])"
    using grep_pieces [of "[]" "[b @ [NL]]" "[b]" "[]" pat] assms n by (simp add: BUFSIZE_def)
  finally show "grep pat [a, b @ [NL]] [] = (if match pat b then b @ [NL] else [])" .
qed

text \<open>The line "ab" matches the pattern "a"; in two pieces it is not printed.\<close>

theorem grep_drops_split_lines_witness:
  "grep [0x61] [[0x61, 0x62, NL]] [] = [0x61, 0x62, NL] \<and> grep [0x61] [[0x61], [0x62, NL]] [] = []"
proof -
  have "match [0x61] [0x61, 0x62]" "\<not> match [0x61] [0x62]" by (simp_all add: match_def matchhere.simps grep_chars)
  then show ?thesis using grep_drops_split_lines [of "[0x61]" "[0x62]" "[0x61]"] by (simp add: NL_def)
qed

end
