(* ===== verification/Spec2Isabelle.thy ===== *)
theory Spec2Isabelle
  imports Xv6_Multi Xv6_Dir Xv6_Trap Xv6_Grep
begin

text \<open>
  A verification library for an xv6 kernel (x86, C) extended with exit statuses, process
  priorities, lazy allocation by \<open>sbrk\<close> and \<open>dup2\<close>.
\<close>

end
